(* ===== verification/Go_Prelude.thy ===== *)
theory Go_Prelude
  imports Main "HOL-Library.Word" "HOL-Library.AList"
begin

text \<open>
  What the component theories share: bytes and big-endian integers
  (\<open>encoding/binary\<close>), byte strings, readers (\<open>io.ReadFull\<close> on the bytes that are
  left), decimal rendering (\<open>strconv.Itoa\<close>), the two \<open>strings\<close> helpers the code
  uses everywhere, and Go maps.

  A Go map is an association list with distinct keys: \<open>len(m)\<close> is the length of the
  list, \<open>m[k]\<close> is \<open>map_of m k\<close>, \<open>m[k] = v\<close> is \<open>AList.update k v m\<close> and
  \<open>delete(m, k)\<close> is \<open>AList.delete k m\<close>. The order of the list is one of the orders in
  which Go may range over the map; no theorem depends on which one it is.

  Go's \<open>string\<close> is a byte string, as Isabelle's \<open>string\<close> is. Case folding and
  trimming are modelled on the ASCII range.
\<close>

named_theorems wire \<open>facts about encoders, decoders and readers\<close>
named_theorems gomap \<open>facts about maps kept as association lists\<close>

unbundle bit_operations_syntax

type_synonym byte = "8 word"
type_synonym bytes = "byte list"

subsection \<open>Bytes and strings\<close>

definition char_of_byte :: "byte \<Rightarrow> char" where
  "char_of_byte b = char_of (unat b)"

definition byte_of_char :: "char \<Rightarrow> byte" where
  "byte_of_char c = of_nat (of_char c)"

definition string_of_bytes :: "bytes \<Rightarrow> string" where
  "string_of_bytes bs = map char_of_byte bs"

definition bytes_of_string :: "string \<Rightarrow> bytes" where
  "bytes_of_string s = map byte_of_char s"

lemma byte_of_char_of_byte [simp]: "byte_of_char (char_of_byte b) = b"
proof -
  have "unat b < 256" using unsigned_less [of b, where ?'a = nat] by simp
  then show ?thesis by (simp add: byte_of_char_def char_of_byte_def)
qed

lemma of_char_less_256: "of_char c < (256 :: nat)"
  by (cases c) (auto simp: of_char_def split: if_splits)

lemma char_of_byte_of_char [simp]: "char_of_byte (byte_of_char c) = c"
  by (simp add: byte_of_char_def char_of_byte_def unat_of_nat of_char_less_256)

lemma bytes_of_string_of_bytes [simp, wire]: "bytes_of_string (string_of_bytes bs) = bs"
  by (induction bs) (simp_all add: bytes_of_string_def string_of_bytes_def)

lemma string_of_bytes_of_string [simp, wire]: "string_of_bytes (bytes_of_string s) = s"
  by (induction s) (simp_all add: bytes_of_string_def string_of_bytes_def)

lemma length_string_of_bytes [simp, wire]: "length (string_of_bytes bs) = length bs"
  by (simp add: string_of_bytes_def)

lemma length_bytes_of_string [simp, wire]: "length (bytes_of_string s) = length s"
  by (simp add: bytes_of_string_def)

lemma bytes_of_string_Nil_iff [simp]: "bytes_of_string s = [] \<longleftrightarrow> s = []"
  by (simp add: bytes_of_string_def)

subsection \<open>Big-endian 16-bit integers\<close>

definition put_u16 :: "16 word \<Rightarrow> bytes" where
  "put_u16 w = [ucast (drop_bit 8 w), ucast w]"

definition get_u16 :: "byte \<Rightarrow> byte \<Rightarrow> 16 word" where
  "get_u16 hi lo = push_bit 8 (ucast hi) OR ucast lo"

lemma length_put_u16 [simp, wire]: "length (put_u16 w) = 2"
  by (simp add: put_u16_def)

lemma put_u16_nonempty [simp]: "put_u16 w \<noteq> []"
  by (simp add: put_u16_def)

lemma get_u16_put [simp, wire]: "get_u16 (ucast (drop_bit 8 w)) (ucast w) = w"
  by (rule bit_word_eqI) (auto simp: get_u16_def bit_simps)

lemma bit_byte_high [simp]: "\<not> bit (b :: byte) (8 + n)"
  by (auto dest: bit_imp_le_length)

lemma put_u16_get [simp, wire]: "put_u16 (get_u16 hi lo) = [hi, lo]"
  by (auto simp: put_u16_def get_u16_def bit_simps intro!: bit_word_eqI)

lemma put_u16_append [wire]: "put_u16 w @ r = hi # lo # s \<longleftrightarrow> w = get_u16 hi lo \<and> r = s"
proof
  assume "put_u16 w @ r = hi # lo # s"
  then have "hi = ucast (drop_bit 8 w)" "lo = ucast w" "r = s"
    by (auto simp: put_u16_def)
  then show "w = get_u16 hi lo \<and> r = s" by simp
next
  assume "w = get_u16 hi lo \<and> r = s"
  then show "put_u16 w @ r = hi # lo # s" by simp
qed

subsection \<open>Readers\<close>

text \<open>A reader is the bytes that are left; \<open>io.ReadFull\<close> takes exactly \<open>n\<close> of them.\<close>

datatype io_err = EOF | UnexpectedEOF

definition read_full :: "nat \<Rightarrow> bytes \<Rightarrow> io_err + (bytes \<times> bytes)" where
  "read_full n r =
     (if length r < n then Inl (if r = [] then EOF else UnexpectedEOF)
      else Inr (take n r, drop n r))"

lemma read_full_append [simp, wire]: "length xs = n \<Longrightarrow> read_full n (xs @ r) = Inr (xs, r)"
  by (simp add: read_full_def)

lemma read_full_1 [simp, wire]: "read_full (Suc 0) (x # xs) = Inr ([x], xs)"
  by (simp add: read_full_def)

lemma read_full_Inr [wire]: "read_full n r = Inr (xs, r') \<longleftrightarrow> r = xs @ r' \<and> length xs = n"
  by (auto simp: read_full_def)

lemma read_full_short [wire]: "(\<exists>e. read_full n r = Inl e) \<longleftrightarrow> length r < n"
  by (simp add: read_full_def)

lemma list_of_length_1: "length xs = Suc 0 \<longleftrightarrow> (\<exists>a. xs = [a])"
  by (cases xs) auto

lemma list_of_length_2: "length xs = 2 \<longleftrightarrow> (\<exists>a b. xs = [a, b])"
  by (auto simp: numeral_2_eq_2 length_Suc_conv)

subsection \<open>Decimal rendering\<close>

fun nat_digits :: "nat \<Rightarrow> string" where
  "nat_digits n =
     (if n < 10 then [char_of (48 + n)] else nat_digits (n div 10) @ [char_of (48 + n mod 10)])"

declare nat_digits.simps [simp del]

definition itoa :: "int \<Rightarrow> string" where
  "itoa i = (if i < 0 then CHR ''-'' # nat_digits (nat (- i)) else nat_digits (nat i))"

definition is_digit :: "char \<Rightarrow> bool" where
  "is_digit c \<longleftrightarrow> (48::nat) \<le> of_char c \<and> of_char c \<le> (57::nat)"

lemma nat_digits_nonempty [simp]: "nat_digits n \<noteq> []"
  by (subst nat_digits.simps) simp

lemma of_char_digit: "d < 10 \<Longrightarrow> of_char (char_of (48 + d :: nat)) = 48 + d"
  by simp

lemma nat_digits_is_digit: "c \<in> set (nat_digits n) \<Longrightarrow> is_digit c"
proof (induction n rule: nat_digits.induct)
  case (1 n)
  have "is_digit (char_of (48 + n mod 10))" by (simp add: is_digit_def)
  with 1 show ?case
    by (subst (asm) (2) nat_digits.simps) (auto simp: is_digit_def split: if_splits)
qed

fun digits_value :: "nat \<Rightarrow> string \<Rightarrow> nat" where
  "digits_value acc [] = acc"
| "digits_value acc (c # cs) = digits_value (10 * acc + (of_char c - 48)) cs"

lemma digits_value_append: "digits_value a (xs @ ys) = digits_value (digits_value a xs) ys"
  by (induction xs arbitrary: a) auto

lemma digits_value_nat_digits: "digits_value 0 (nat_digits n) = n"
proof (induction n rule: nat_digits.induct)
  case (1 n)
  show ?case
  proof (cases "n < 10")
    case True
    then show ?thesis by (subst nat_digits.simps) simp
  next
    case False
    have "digits_value 0 (nat_digits n)
        = digits_value (digits_value 0 (nat_digits (n div 10))) [char_of (48 + n mod 10)]"
      using False by (subst nat_digits.simps) (simp add: digits_value_append)
    also have "\<dots> = n" using "1.IH" False by simp
    finally show ?thesis .
  qed
qed

lemma nat_digits_inject [simp]: "nat_digits m = nat_digits n \<longleftrightarrow> m = n"
  by (metis digits_value_nat_digits)

lemma minus_not_digit: "CHR ''-'' \<notin> set (nat_digits n)"
  using nat_digits_is_digit [of "CHR ''-''" n] by (auto simp: is_digit_def of_char_def)

lemma itoa_inject [simp]: "itoa i = itoa j \<longleftrightarrow> i = j"
proof -
  have neq: "CHR ''-'' # s \<noteq> nat_digits n" for s n
    using minus_not_digit [of n] by (metis list.set_intros(1))
  show ?thesis
    by (auto simp: itoa_def neq neq [symmetric] eq_nat_nat_iff split: if_splits)
qed

subsection \<open>Trimming and case folding\<close>

definition is_space :: "char \<Rightarrow> bool" where
  "is_space c \<longleftrightarrow> c = CHR '' '' \<or> (of_char c \<ge> (9::nat) \<and> of_char c \<le> (13::nat))"

definition trim_space :: "string \<Rightarrow> string" where
  "trim_space s = rev (dropWhile is_space (rev (dropWhile is_space s)))"

definition lower_char :: "char \<Rightarrow> char" where
  "lower_char c = (if (65::nat) \<le> of_char c \<and> of_char c \<le> (90::nat) then char_of (of_char c + 32 :: nat) else c)"

definition upper_char :: "char \<Rightarrow> char" where
  "upper_char c = (if (97::nat) \<le> of_char c \<and> of_char c \<le> (122::nat) then char_of (of_char c - 32 :: nat) else c)"

definition to_lower :: "string \<Rightarrow> string" where
  "to_lower s = map lower_char s"

definition to_upper :: "string \<Rightarrow> string" where
  "to_upper s = map upper_char s"

lemma lower_char_idem [simp]: "lower_char (lower_char c) = lower_char c"
  using of_char_less_256 [of c] by (auto simp: lower_char_def)

lemma to_lower_idem [simp]: "to_lower (to_lower s) = to_lower s"
  by (simp add: to_lower_def)

definition has_prefix :: "string \<Rightarrow> string \<Rightarrow> bool" where
  "has_prefix s p \<longleftrightarrow> take (length p) s = p"

definition cut_prefix :: "string \<Rightarrow> string \<Rightarrow> string option" where
  "cut_prefix s p = (if has_prefix s p then Some (drop (length p) s) else None)"

fun contains_sub :: "string \<Rightarrow> string \<Rightarrow> bool" where
  "contains_sub [] p \<longleftrightarrow> p = []"
| "contains_sub (c # s) p \<longleftrightarrow> has_prefix (c # s) p \<or> contains_sub s p"

lemma cut_prefix_Some [simp]: "cut_prefix s p = Some r \<longleftrightarrow> s = p @ r"
  by (auto simp: cut_prefix_def has_prefix_def) (metis append_take_drop_id)

subsection \<open>Go maps as association lists\<close>

abbreviation keys :: "('k \<times> 'v) list \<Rightarrow> 'k list" where
  "keys m \<equiv> map fst m"

definition wf_map :: "('k \<times> 'v) list \<Rightarrow> bool" where
  "wf_map m \<longleftrightarrow> distinct (keys m)"

lemma wf_map_Nil [simp, gomap]: "wf_map []"
  by (simp add: wf_map_def)

lemma wf_map_update [simp, gomap]: "wf_map m \<Longrightarrow> wf_map (AList.update k v m)"
  by (simp add: wf_map_def distinct_update)

lemma wf_map_delete [simp, gomap]: "wf_map m \<Longrightarrow> wf_map (AList.delete k m)"
  by (simp add: wf_map_def distinct_delete)

lemma wf_map_filter [simp, gomap]: "wf_map m \<Longrightarrow> wf_map (filter P m)"
  by (simp add: wf_map_def distinct_map_filter)

lemma map_of_update [simp, gomap]: "map_of (AList.update k v m) = (map_of m)(k \<mapsto> v)"
  by (rule update_conv')

lemma map_of_delete [simp, gomap]: "map_of (AList.delete k m) = (map_of m)(k := None)"
  by (rule delete_conv')

lemma update_new: "map_of m k = None \<Longrightarrow> AList.update k v m = m @ [(k, v)]"
  by (induction m) (auto split: if_splits)

lemma map_of_wf: "wf_map m \<Longrightarrow> map_of m k = Some v \<longleftrightarrow> (k, v) \<in> set m"
  by (simp add: wf_map_def)

lemma map_of_set_eq: "wf_map a \<Longrightarrow> wf_map b \<Longrightarrow> set a = set b \<Longrightarrow> map_of a = map_of b"
  using map_of_wf [of a] map_of_wf [of b] by (metis ext option.exhaust)

lemma length_update: "length (AList.update k v m)
    = (if k \<in> fst ` set m then length m else Suc (length m))"
  by (induction m) auto

lemma length_update_le: "length (AList.update k v m) \<le> Suc (length m)"
  by (simp add: length_update)

lemma length_delete_le [simp, gomap]: "length (AList.delete k m) \<le> length m"
  by (simp add: AList.delete_eq)

lemma map_of_None_fst: "map_of m k = None \<longleftrightarrow> k \<notin> fst ` set m"
  by (induction m) auto

lemma set_delete: "set (AList.delete k m) = {e \<in> set m. fst e \<noteq> k}"
  by (auto simp: AList.delete_eq)

lemma set_update_wf:
  "wf_map m \<Longrightarrow> set (AList.update k v m) = insert (k, v) {e \<in> set m. fst e \<noteq> k}"
  by (induction m) (auto simp: wf_map_def image_iff)

lemma map_of_filter_wf:
  "wf_map m \<Longrightarrow> map_of (filter P m) k =
     (case map_of m k of None \<Rightarrow> None | Some v \<Rightarrow> if P (k, v) then Some v else None)"
  by (induction m) (auto simp: wf_map_def map_of_eq_None_iff split: option.splits dest: map_of_SomeD)

subsection \<open>Sums over a heap\<close>

text \<open>Writing one cell of a heap changes a sum over its cells by the difference.\<close>

lemma sum_heap_upd:
  fixes f :: "'a \<Rightarrow> int" and n :: nat
  assumes "ref < n"
  shows "(\<Sum>j<n. f ((h(ref := a)) j)) = (\<Sum>j<n. f (h j)) - f (h ref) + f a"
proof -
  have "(\<Sum>j<n. f ((h(ref := a)) j)) = f a + (\<Sum>j\<in>{..<n} - {ref}. f (h j))"
    using assms by (subst sum.remove [of _ ref]) (auto intro!: sum.cong)
  also have "(\<Sum>j\<in>{..<n} - {ref}. f (h j)) = (\<Sum>j<n. f (h j)) - f (h ref)"
    using assms by (subst (2) sum.remove [of _ ref]) auto
  finally show ?thesis by simp
qed

subsection \<open>Signed 64-bit integers\<close>

text \<open>The value of an integer expression of type \<open>int64\<close> (or \<open>int\<close>, \<open>time.Duration\<close>): it wraps.\<close>

definition i64 :: "int \<Rightarrow> int" where
  "i64 x = (x + 2 ^ 63) mod 2 ^ 64 - 2 ^ 63"

lemma i64_id [simp]: "- 9223372036854775808 \<le> x \<Longrightarrow> x < 9223372036854775808 \<Longrightarrow> i64 x = x"
  by (simp add: i64_def)

lemma i64_range: "- (2 ^ 63) \<le> i64 x \<and> i64 x < 2 ^ 63"
  by (simp add: i64_def)

end
