(* ===== verification/Wire_Codec.thy ===== *)
theory Wire_Codec
  imports Go_Prelude
begin

text \<open>
  The contract of a wire format: \<open>dec\<close> reads one value off the front of a reader,
  \<open>enc\<close> is what the writer puts on the wire, and \<open>dec\<close> succeeds exactly on the
  encodings of the values that satisfy \<open>ok\<close>. Everything a peer relies on (no two values
  share an encoding, no encoding is a prefix of another one, a stream of frames has one
  reading) follows once, inside the locale; the protocol theories interpret it on the
  readers and writers of the code.
\<close>

locale wire_codec =
  fixes enc :: "'a \<Rightarrow> bytes"
    and dec :: "bytes \<Rightarrow> 'e + ('a \<times> bytes)"
    and ok :: "'a \<Rightarrow> bool"
  assumes dec_iff: "dec bs = Inr (a, r) \<longleftrightarrow> ok a \<and> bs = enc a @ r"
begin

lemma dec_enc: "ok a \<Longrightarrow> dec (enc a @ r) = Inr (a, r)"
  by (simp add: dec_iff)

lemma dec_enc_exact: "ok a \<Longrightarrow> dec (enc a) = Inr (a, [])"
  using dec_enc [of a "[]"] by simp

lemma enc_dec: "dec bs = Inr (a, r) \<Longrightarrow> bs = enc a @ r"
  by (simp add: dec_iff)

lemma dec_ok: "dec bs = Inr (a, r) \<Longrightarrow> ok a"
  by (simp add: dec_iff)

lemma enc_prefix_free:
  assumes "ok a" "ok b" "enc a @ r = enc b @ s"
  shows "a = b \<and> r = s"
proof -
  have "dec (enc a @ r) = Inr (a, r)" using assms(1) by (rule dec_enc)
  moreover have "dec (enc b @ s) = Inr (b, s)" using assms(2) by (rule dec_enc)
  ultimately have "(Inr (a, r) :: 'e + _) = Inr (b, s)"
    unfolding assms(3) by (rule trans [OF sym])
  then show ?thesis by blast
qed

lemma enc_inject: "ok a \<Longrightarrow> ok b \<Longrightarrow> enc a = enc b \<longleftrightarrow> a = b"
  using enc_prefix_free [of a b "[]" "[]"] by auto

lemma dec_error_iff: "(\<exists>e. dec bs = Inl e) \<longleftrightarrow> (\<nexists>a r. ok a \<and> bs = enc a @ r)"
proof (cases "dec bs")
  case (Inl e)
  then show ?thesis by (metis Inl_Inr_False dec_iff)
next
  case (Inr p)
  then have "dec bs = Inr (fst p, snd p)" by simp
  then show ?thesis by (metis Inl_Inr_False dec_iff)
qed

lemma dec_truncated:
  assumes "ok a" "n < length (enc a)"
  shows "\<exists>e. dec (take n (enc a)) = Inl e"
  unfolding dec_error_iff
proof
  assume "\<exists>b r. ok b \<and> take n (enc a) = enc b @ r"
  then obtain b r where b: "ok b" and tk: "take n (enc a) = enc b @ r" by blast
  have "enc a @ [] = enc b @ (r @ drop n (enc a))"
    using tk append_take_drop_id [of n "enc a"] by (metis append.assoc append_Nil2)
  then have "[] = r @ drop n (enc a)"
    using enc_prefix_free [OF assms(1) b] by blast
  with assms(2) show False by simp
qed

end

text \<open>A codec none of whose encodings is empty: streams of values are uniquely readable.\<close>

locale framed_codec = wire_codec +
  assumes enc_nonempty: "ok a \<Longrightarrow> enc a \<noteq> []"
begin

lemma stream_unique:
  "\<forall>a \<in> set as. ok a \<Longrightarrow> \<forall>b \<in> set bs. ok b \<Longrightarrow>
   concat (map enc as) = concat (map enc bs) \<Longrightarrow> as = bs"
proof (induction as arbitrary: bs)
  case Nil
  then show ?case by (cases bs) (auto dest: enc_nonempty)
next
  case (Cons a as)
  show ?case
  proof (cases bs)
    case Nil
    with Cons.prems enc_nonempty [of a] show ?thesis by simp
  next
    case (Cons b bs')
    with Cons.prems have "a = b \<and> concat (map enc as) = concat (map enc bs')"
      by (intro enc_prefix_free) auto
    with Cons Cons.prems Cons.IH [of bs'] show ?thesis by simp
  qed
qed

lemma dec_consumes: "dec bs = Inr (a, r) \<Longrightarrow> length r < length bs"
  using enc_nonempty by (auto simp: dec_iff)

end

end
