(* ===== verification/Tuic_Protocol.thy ===== *)
theory Tuic_Protocol
  imports Wire_Codec
begin

text \<open>
  \<open>internal/tuic/protocol.go\<close>: TUIC v5 addresses, the command header and the packet
  command, read from and written to the wire. An \<open>io.Reader\<close> is the bytes left in it;
  an \<open>io.Writer\<close> is the bytes written, paired with the error that stopped the writer
  (the code only ever writes frames into a \<open>bytes.Buffer\<close>, which cannot fail).
\<close>

subsection \<open>Constants, errors and \<open>net.IP\<close>\<close>

definition ProtocolVersion :: byte where "ProtocolVersion = 5"

definition CmdAuthenticate :: byte where "CmdAuthenticate = 0"
definition CmdConnect :: byte where "CmdConnect = 1"
definition CmdPacket :: byte where "CmdPacket = 2"
definition CmdDissociate :: byte where "CmdDissociate = 3"
definition CmdHeartbeat :: byte where "CmdHeartbeat = 4"

definition AddrTypeDomain :: byte where "AddrTypeDomain = 0"
definition AddrTypeIPv4 :: byte where "AddrTypeIPv4 = 1"
definition AddrTypeIPv6 :: byte where "AddrTypeIPv6 = 2"
definition AddrTypeNone :: byte where "AddrTypeNone = 255"

lemmas tuic_consts = ProtocolVersion_def CmdAuthenticate_def CmdConnect_def CmdPacket_def
  CmdDissociate_def CmdHeartbeat_def AddrTypeDomain_def AddrTypeIPv4_def AddrTypeIPv6_def
  AddrTypeNone_def

datatype tuic_err = IoErr io_err | ErrInvalidVersion byte byte | ErrInvalidAddr

text \<open>\<open>net.IP.To4\<close>, \<open>To16\<close> and \<open>String\<close>; a nil slice is the empty list.\<close>

definition v4_prefix :: bytes where
  "v4_prefix = replicate 10 0 @ [255, 255]"

definition ip_to4 :: "bytes \<Rightarrow> bytes" where
  "ip_to4 ip =
     (if length ip = 4 then ip
      else if length ip = 16 \<and> take 12 ip = v4_prefix then drop 12 ip
      else [])"

definition ip_to16 :: "bytes \<Rightarrow> bytes" where
  "ip_to16 ip =
     (if length ip = 4 then v4_prefix @ ip else if length ip = 16 then ip else [])"

definition hex_digit :: "nat \<Rightarrow> char" where
  "hex_digit n = (if n < 10 then char_of (48 + n) else char_of (87 + n))"

fun hex_of :: "nat \<Rightarrow> string" where
  "hex_of n = (if n < 16 then [hex_digit n] else hex_of (n div 16) @ [hex_digit (n mod 16)])"

declare hex_of.simps [simp del]

fun join_with :: "string \<Rightarrow> string list \<Rightarrow> string" where
  "join_with sep [] = []"
| "join_with sep [x] = x"
| "join_with sep (x # y # ys) = x @ sep @ join_with sep (y # ys)"

fun groups16 :: "bytes \<Rightarrow> nat list" where
  "groups16 (a # b # r) = (256 * unat a + unat b) # groups16 r"
| "groups16 _ = []"

definition zero_run :: "nat list \<Rightarrow> nat \<times> nat" where
  "zero_run gs = foldl (\<lambda>(s, l) i.
      let k = length (takeWhile (\<lambda>g. g = 0) (drop i gs)) in
      if 2 \<le> k \<and> l < k then (i, k) else (s, l)) (0, 0) [0..<8]"

definition ip6_string :: "bytes \<Rightarrow> string" where
  "ip6_string ip =
     (let gs = groups16 ip; (s, l) = zero_run gs; hex = join_with '':'' \<circ> map hex_of in
      if l = 0 then hex gs else hex (take s gs) @ ''::'' @ hex (drop (s + l) gs))"

definition ip_string :: "bytes \<Rightarrow> string" where
  "ip_string ip =
     (if ip = [] then ''<nil>''
      else if ip_to4 ip \<noteq> [] then join_with ''.'' (map (nat_digits \<circ> unat) (ip_to4 ip))
      else if length ip = 16 then ip6_string ip
      else ''?'' @ concat (map (\<lambda>b. [hex_digit (unat b div 16), hex_digit (unat b mod 16)]) ip))"

subsection \<open>Addresses\<close>

record address =
  a_Type :: byte
  a_Host :: string
  a_IP :: bytes
  a_Port :: "16 word"

definition join_host_port :: "string \<Rightarrow> string \<Rightarrow> string" where
  "join_host_port host port =
     (if CHR '':'' \<in> set host then ''['' @ host @ '']:'' @ port else host @ '':'' @ port)"

definition address_String :: "address option \<Rightarrow> string" where
  "address_String a =
     (case a of
        None \<Rightarrow> []
      | Some a \<Rightarrow>
          if a_Type a = AddrTypeNone then []
          else if a_IP a \<noteq> [] then join_host_port (ip_string (a_IP a)) (nat_digits (unat (a_Port a)))
          else join_host_port (a_Host a) (nat_digits (unat (a_Port a))))"

definition read_port :: "address \<Rightarrow> bytes \<Rightarrow> tuic_err + (address \<times> bytes)" where
  "read_port a r =
     (case read_full 2 r of
        Inl e \<Rightarrow> Inl (IoErr e)
      | Inr (p, r') \<Rightarrow> Inr (a\<lparr>a_Port := get_u16 (p ! 0) (p ! 1)\<rparr>, r'))"

definition ReadAddress :: "bytes \<Rightarrow> tuic_err + (address \<times> bytes)" where
  "ReadAddress r =
     (case read_full 1 r of
        Inl e \<Rightarrow> Inl (IoErr e)
      | Inr (t, r1) \<Rightarrow>
          let addrType = t ! 0;
              addr = \<lparr>a_Type = addrType, a_Host = [], a_IP = [], a_Port = 0\<rparr> in
          if addrType = AddrTypeNone then Inr (addr, r1)
          else if addrType = AddrTypeIPv4 then
            (case read_full 4 r1 of
               Inl e \<Rightarrow> Inl (IoErr e)
             | Inr (ip, r2) \<Rightarrow> read_port (addr\<lparr>a_IP := ip, a_Host := ip_string ip\<rparr>) r2)
          else if addrType = AddrTypeIPv6 then
            (case read_full 16 r1 of
               Inl e \<Rightarrow> Inl (IoErr e)
             | Inr (ip, r2) \<Rightarrow> read_port (addr\<lparr>a_IP := ip, a_Host := ip_string ip\<rparr>) r2)
          else if addrType = AddrTypeDomain then
            (case read_full 1 r1 of
               Inl e \<Rightarrow> Inl (IoErr e)
             | Inr (lb, r2) \<Rightarrow>
                 let dLen = unat (lb ! 0) in
                 if dLen = 0 then Inl ErrInvalidAddr
                 else (case read_full dLen r2 of
                         Inl e \<Rightarrow> Inl (IoErr e)
                       | Inr (d, r3) \<Rightarrow> read_port (addr\<lparr>a_Host := string_of_bytes d\<rparr>) r3))
          else Inl ErrInvalidAddr)"

definition WriteAddress :: "address option \<Rightarrow> bytes \<times> tuic_err option" where
  "WriteAddress addr =
     (case addr of
        None \<Rightarrow> ([AddrTypeNone], None)
      | Some a \<Rightarrow>
          if a_Type a = AddrTypeNone then ([AddrTypeNone], None)
          else if a_Type a = AddrTypeIPv4 then
            (let ip4 = ip_to4 (a_IP a) in
             if length ip4 \<noteq> 4 then ([], Some ErrInvalidAddr)
             else (AddrTypeIPv4 # ip4 @ put_u16 (a_Port a), None))
          else if a_Type a = AddrTypeIPv6 then
            (let ip16 = ip_to16 (a_IP a) in
             if length ip16 \<noteq> 16 then ([], Some ErrInvalidAddr)
             else (AddrTypeIPv6 # ip16 @ put_u16 (a_Port a), None))
          else if a_Type a = AddrTypeDomain then
            (let dLen = length (a_Host a) in
             if dLen = 0 \<or> 255 < dLen then ([], Some ErrInvalidAddr)
             else (AddrTypeDomain # of_nat dLen # bytes_of_string (a_Host a) @ put_u16 (a_Port a), None))
          else ([], Some ErrInvalidAddr))"

text \<open>The addresses the reader produces: exactly one representation of each endpoint.\<close>

definition canonical_address :: "address \<Rightarrow> bool" where
  "canonical_address a \<longleftrightarrow>
     (a_Type a = AddrTypeNone \<and> a_Host a = [] \<and> a_IP a = [] \<and> a_Port a = 0)
   \<or> (a_Type a = AddrTypeIPv4 \<and> length (a_IP a) = 4 \<and> a_Host a = ip_string (a_IP a))
   \<or> (a_Type a = AddrTypeIPv6 \<and> length (a_IP a) = 16 \<and> a_Host a = ip_string (a_IP a))
   \<or> (a_Type a = AddrTypeDomain \<and> a_IP a = [] \<and> 0 < length (a_Host a) \<and> length (a_Host a) \<le> 255)"

definition encode_address :: "address \<Rightarrow> bytes" where
  "encode_address a = fst (WriteAddress (Some a))"


subsection \<open>Facts about the address codec\<close>

lemma length_v4_prefix [simp]: "length v4_prefix = 12"
  by (simp add: v4_prefix_def)

lemma ip_to4_4 [simp]: "length ip = 4 \<Longrightarrow> ip_to4 ip = ip"
  by (simp add: ip_to4_def)

lemma ip_to16_16 [simp]: "length ip = 16 \<Longrightarrow> ip_to16 ip = ip"
  by (simp add: ip_to16_def)

lemma length_ip_to4: "length (ip_to4 ip) = 0 \<or> length (ip_to4 ip) = 4"
  by (auto simp: ip_to4_def)

lemma length_ip_to16: "length (ip_to16 ip) = 0 \<or> length (ip_to16 ip) = 16"
  by (auto simp: ip_to16_def)

lemma unat_of_nat_byte [simp]: "n \<le> 255 \<Longrightarrow> unat (of_nat n :: byte) = n"
  by (simp add: unat_of_nat)

lemma of_nat_byte_eq: "m \<le> 255 \<Longrightarrow> n \<le> 255 \<Longrightarrow> (of_nat m :: byte) = of_nat n \<longleftrightarrow> m = n"
  by (metis unat_of_nat_byte)

lemma unat_byte_le: "unat (b :: byte) \<le> 255"
  using unsigned_less [of b, where ?'a = nat] by simp

lemma read_port_Inr:
  "read_port a r = Inr (a', r') \<longleftrightarrow> a' = a\<lparr>a_Port := a_Port a'\<rparr> \<and> r = put_u16 (a_Port a') @ r'"
proof (cases "length r < 2")
  case True
  then show ?thesis by (auto simp: read_port_def read_full_def)
next
  case False
  then obtain hi lo s where r: "r = hi # lo # s"
    by (cases r; cases "tl r") auto
  have rd: "read_port a r = Inr (a\<lparr>a_Port := get_u16 hi lo\<rparr>, s)"
    by (simp add: read_port_def read_full_def r)
  have "put_u16 (a_Port a') @ r' = r \<longleftrightarrow> a_Port a' = get_u16 hi lo \<and> r' = s"
    unfolding r by (rule put_u16_append)
  then show ?thesis unfolding rd by (cases a; cases a') auto
qed

lemma encode_None [wire]: "a_Type a = AddrTypeNone \<Longrightarrow> WriteAddress (Some a) = ([AddrTypeNone], None)"
  by (simp add: WriteAddress_def)

lemma canonical_WriteAddress:
  assumes "canonical_address a"
  shows "WriteAddress (Some a) = (encode_address a, None)"
  using assms
  by (auto simp: canonical_address_def encode_address_def WriteAddress_def tuic_consts Let_def)

lemma encode_address_nonempty: "canonical_address a \<Longrightarrow> encode_address a \<noteq> []"
  by (auto simp: canonical_address_def encode_address_def WriteAddress_def tuic_consts Let_def)


definition blank_address :: "byte \<Rightarrow> address" where
  "blank_address t = \<lparr>a_Type = t, a_Host = [], a_IP = [], a_Port = 0\<rparr>"

lemma ReadAddress_Nil: "ReadAddress [] = Inl (IoErr EOF)"
  by (simp add: ReadAddress_def read_full_def)

lemma ReadAddress_None: "ReadAddress (AddrTypeNone # r) = Inr (blank_address AddrTypeNone, r)"
  by (simp add: ReadAddress_def Let_def blank_address_def)

lemma ReadAddress_IPv4:
  "ReadAddress (AddrTypeIPv4 # r) = (case read_full 4 r of Inl e \<Rightarrow> Inl (IoErr e)
     | Inr (ip, r2) \<Rightarrow> read_port ((blank_address AddrTypeIPv4)\<lparr>a_IP := ip, a_Host := ip_string ip\<rparr>) r2)"
  by (simp add: ReadAddress_def Let_def blank_address_def tuic_consts split: sum.split)

lemma ReadAddress_IPv6:
  "ReadAddress (AddrTypeIPv6 # r) = (case read_full 16 r of Inl e \<Rightarrow> Inl (IoErr e)
     | Inr (ip, r2) \<Rightarrow> read_port ((blank_address AddrTypeIPv6)\<lparr>a_IP := ip, a_Host := ip_string ip\<rparr>) r2)"
  by (simp add: ReadAddress_def Let_def blank_address_def tuic_consts split: sum.split)

lemma ReadAddress_Domain_Nil: "ReadAddress [AddrTypeDomain] = Inl (IoErr EOF)"
  by (simp add: ReadAddress_def Let_def tuic_consts read_full_def)

lemma ReadAddress_Domain:
  "ReadAddress (AddrTypeDomain # n # r) =
     (if unat n = 0 then Inl ErrInvalidAddr
      else case read_full (unat n) r of Inl e \<Rightarrow> Inl (IoErr e)
     | Inr (d, r3) \<Rightarrow> read_port ((blank_address AddrTypeDomain)\<lparr>a_Host := string_of_bytes d\<rparr>) r3)"
  by (simp add: ReadAddress_def Let_def blank_address_def tuic_consts split: sum.split)

lemma ReadAddress_unknown:
  "t \<notin> {AddrTypeNone, AddrTypeIPv4, AddrTypeIPv6, AddrTypeDomain} \<Longrightarrow>
   ReadAddress (t # r) = Inl ErrInvalidAddr"
  by (simp add: ReadAddress_def Let_def)

lemma ReadAddress_sound:
  assumes "ReadAddress bs = Inr (a, r)"
  shows "canonical_address a \<and> bs = encode_address a @ r"
proof -
  note enc = canonical_address_def encode_address_def WriteAddress_def tuic_consts blank_address_def
  obtain t r1 where bs: "bs = t # r1"
    using assms by (cases bs) (auto simp: ReadAddress_Nil)
  consider "t = AddrTypeNone" | "t = AddrTypeIPv4" | "t = AddrTypeIPv6" | "t = AddrTypeDomain"
    using assms ReadAddress_unknown [of t r1] by (auto simp: bs)
  then show ?thesis
  proof cases
    case 1
    with assms have "a = blank_address AddrTypeNone" "r = r1"
      by (simp_all add: bs ReadAddress_None)
    with 1 bs show ?thesis by (simp add: enc)
  next
    case 2
    from assms obtain ip r2 where ip: "read_full 4 r1 = Inr (ip, r2)"
      and p: "read_port ((blank_address AddrTypeIPv4)\<lparr>a_IP := ip, a_Host := ip_string ip\<rparr>) r2 = Inr (a, r)"
      by (auto simp: bs 2 ReadAddress_IPv4 split: sum.splits)
    then have r1: "r1 = ip @ r2" and l: "length ip = 4" by (simp_all add: read_full_Inr)
    from p have a: "a = (blank_address AddrTypeIPv4)\<lparr>a_IP := ip, a_Host := ip_string ip, a_Port := a_Port a\<rparr>"
      and r2: "r2 = put_u16 (a_Port a) @ r" by (simp_all add: read_port_Inr)
    show ?thesis by (subst (1 2) a) (simp add: bs 2 r1 r2 l enc)
  next
    case 3
    from assms obtain ip r2 where ip: "read_full 16 r1 = Inr (ip, r2)"
      and p: "read_port ((blank_address AddrTypeIPv6)\<lparr>a_IP := ip, a_Host := ip_string ip\<rparr>) r2 = Inr (a, r)"
      by (auto simp: bs 3 ReadAddress_IPv6 split: sum.splits)
    then have r1: "r1 = ip @ r2" and l: "length ip = 16" by (simp_all add: read_full_Inr)
    from p have a: "a = (blank_address AddrTypeIPv6)\<lparr>a_IP := ip, a_Host := ip_string ip, a_Port := a_Port a\<rparr>"
      and r2: "r2 = put_u16 (a_Port a) @ r" by (simp_all add: read_port_Inr)
    show ?thesis by (subst (1 2) a) (simp add: bs 3 r1 r2 l enc)
  next
    case 4
    obtain n r1' where n: "r1 = n # r1'"
      using assms by (cases r1) (auto simp: bs 4 ReadAddress_Domain_Nil)
    from assms obtain d r3 where nz: "unat n \<noteq> 0" and d: "read_full (unat n) r1' = Inr (d, r3)"
      and p: "read_port ((blank_address AddrTypeDomain)\<lparr>a_Host := string_of_bytes d\<rparr>) r3 = Inr (a, r)"
      by (auto simp: bs 4 n ReadAddress_Domain split: sum.splits if_splits)
    from d have r1': "r1' = d @ r3" and l: "length d = unat n" by (simp_all add: read_full_Inr)
    from p have a: "a = (blank_address AddrTypeDomain)\<lparr>a_Host := string_of_bytes d, a_Port := a_Port a\<rparr>"
      and r3: "r3 = put_u16 (a_Port a) @ r" by (simp_all add: read_port_Inr)
    show ?thesis
      using nz l unat_byte_le [of n] by (subst (1 2) a) (simp add: bs 4 n r1' r3 enc)
  qed
qed

lemma read_port_put [wire]: "read_port b (put_u16 w @ r) = Inr (b\<lparr>a_Port := w\<rparr>, r)"
  by (simp add: read_port_Inr)

lemma ReadAddress_complete:
  assumes "canonical_address a"
  shows "ReadAddress (encode_address a @ r) = Inr (a, r)"
proof -
  consider "a_Type a = AddrTypeNone" | "a_Type a = AddrTypeIPv4" | "a_Type a = AddrTypeIPv6"
    | "a_Type a = AddrTypeDomain"
    using assms by (auto simp: canonical_address_def)
  then show ?thesis
    using assms
    by cases (cases a, simp add: canonical_address_def encode_address_def WriteAddress_def
      ReadAddress_def tuic_consts Let_def read_port_put)+
qed

interpretation address_codec: framed_codec encode_address ReadAddress canonical_address
proof unfold_locales
  show "ReadAddress bs = Inr (a, r) \<longleftrightarrow> canonical_address a \<and> bs = encode_address a @ r" for bs a r
    using ReadAddress_sound ReadAddress_complete by blast
  show "canonical_address a \<Longrightarrow> encode_address a \<noteq> []" for a
    by (rule encode_address_nonempty)
qed


subsection \<open>Command header and packet command\<close>

definition ReadCommand :: "bytes \<Rightarrow> tuic_err + ((byte \<times> byte) \<times> bytes)" where
  "ReadCommand r =
     (case read_full 2 r of
        Inl e \<Rightarrow> Inl (IoErr e)
      | Inr (hdr, r') \<Rightarrow>
          if hdr ! 0 \<noteq> ProtocolVersion then Inl (ErrInvalidVersion (hdr ! 0) (hdr ! 1))
          else Inr ((hdr ! 0, hdr ! 1), r'))"

record packet_header =
  ph_AssocID :: "16 word"
  ph_PktID :: "16 word"
  ph_FragTotal :: byte
  ph_FragID :: byte
  ph_Size :: "16 word"
  ph_Addr :: "address option"

definition ReadPacketHeader :: "bytes \<Rightarrow> tuic_err + (packet_header \<times> bytes)" where
  "ReadPacketHeader r =
     (case read_full 8 r of
        Inl e \<Rightarrow> Inl (IoErr e)
      | Inr (fixed, r1) \<Rightarrow>
          (case ReadAddress r1 of
             Inl e \<Rightarrow> Inl e
           | Inr (addr, r2) \<Rightarrow>
               Inr (\<lparr>ph_AssocID = get_u16 (fixed ! 0) (fixed ! 1),
                     ph_PktID = get_u16 (fixed ! 2) (fixed ! 3),
                     ph_FragTotal = fixed ! 4,
                     ph_FragID = fixed ! 5,
                     ph_Size = get_u16 (fixed ! 6) (fixed ! 7),
                     ph_Addr = Some addr\<rparr>, r2)))"

definition readPacketPayload :: "bytes \<Rightarrow> packet_header \<Rightarrow> tuic_err + (bytes \<times> bytes)" where
  "readPacketPayload r hdr =
     (case read_full (unat (ph_Size hdr)) r of
        Inl e \<Rightarrow> Inl (IoErr e)
      | Inr (payload, r') \<Rightarrow> Inr (payload, r'))"

definition WritePacket ::
  "16 word \<Rightarrow> 16 word \<Rightarrow> byte \<Rightarrow> byte \<Rightarrow> address option \<Rightarrow> bytes \<Rightarrow> bytes \<times> tuic_err option" where
  "WritePacket assocID pktID fragTotal fragID addr payload =
     (let hdr = [ProtocolVersion, CmdPacket] @ put_u16 assocID @ put_u16 pktID
                 @ [fragTotal, fragID] @ put_u16 (of_nat (length payload)) in
      case WriteAddress addr of
        (out, Some e) \<Rightarrow> (hdr @ out, Some e)
      | (out, None) \<Rightarrow> (hdr @ out @ payload, None))"

definition header_ok :: "packet_header \<Rightarrow> bool" where
  "header_ok h \<longleftrightarrow> (case ph_Addr h of None \<Rightarrow> False | Some a \<Rightarrow> canonical_address a)"

definition encode_header :: "packet_header \<Rightarrow> bytes" where
  "encode_header h = put_u16 (ph_AssocID h) @ put_u16 (ph_PktID h) @ [ph_FragTotal h, ph_FragID h]
     @ put_u16 (ph_Size h) @ (case ph_Addr h of None \<Rightarrow> [] | Some a \<Rightarrow> encode_address a)"

text \<open>The address of a header whose frame was written without one reads back as type None.\<close>

definition wire_address :: "address option \<Rightarrow> address" where
  "wire_address a = (case a of None \<Rightarrow> blank_address AddrTypeNone | Some a \<Rightarrow> a)"

lemma canonical_blank [simp]: "canonical_address (blank_address AddrTypeNone)"
  by (simp add: canonical_address_def blank_address_def)

lemma WriteAddress_wire:
  "WriteAddress a = WriteAddress (Some (wire_address a))"
  by (cases a) (simp_all add: wire_address_def WriteAddress_def blank_address_def)

lemma list_of_length_8: "length xs = 8 \<Longrightarrow>
    xs = [xs ! 0, xs ! 1, xs ! 2, xs ! 3, xs ! 4, xs ! 5, xs ! 6, xs ! 7]"
  by (auto simp: eval_nat_numeral length_Suc_conv)

lemma put_u16_nths: "[a, b] = put_u16 w \<longleftrightarrow> w = get_u16 a b"
  using put_u16_append [of w "[]" a b "[]"] by auto

lemma ReadPacketHeader_sound:
  assumes "ReadPacketHeader bs = Inr (h, r)"
  shows "header_ok h \<and> bs = encode_header h @ r"
proof -
  from assms obtain fixed r1 a where f: "read_full 8 bs = Inr (fixed, r1)"
    and a: "ReadAddress r1 = Inr (a, r)"
    and h: "h = \<lparr>ph_AssocID = get_u16 (fixed ! 0) (fixed ! 1), ph_PktID = get_u16 (fixed ! 2) (fixed ! 3),
       ph_FragTotal = fixed ! 4, ph_FragID = fixed ! 5, ph_Size = get_u16 (fixed ! 6) (fixed ! 7),
       ph_Addr = Some a\<rparr>"
    by (auto simp: ReadPacketHeader_def split: sum.splits)
  from f have bs: "bs = fixed @ r1" and l: "length fixed = 8" by (simp_all add: read_full_Inr)
  from a have "canonical_address a" and r1: "r1 = encode_address a @ r"
    using ReadAddress_sound by blast+
  then show ?thesis
    unfolding bs r1 h
    by (subst list_of_length_8 [OF l]) (simp add: header_ok_def encode_header_def)
qed

lemma ReadPacketHeader_complete:
  assumes "header_ok h"
  shows "ReadPacketHeader (encode_header h @ r) = Inr (h, r)"
proof -
  from assms obtain a where a: "ph_Addr h = Some a" and c: "canonical_address a"
    by (auto simp: header_ok_def split: option.splits)
  let ?f = "put_u16 (ph_AssocID h) @ put_u16 (ph_PktID h) @ [ph_FragTotal h, ph_FragID h] @ put_u16 (ph_Size h)"
  have "read_full 8 (?f @ encode_address a @ r) = Inr (?f, encode_address a @ r)"
    by (rule read_full_append) simp
  then have "read_full 8 (encode_header h @ r) = Inr (?f, encode_address a @ r)"
    by (simp add: encode_header_def a)
  then show ?thesis
    using a by (cases h) (simp add: ReadPacketHeader_def ReadAddress_complete [OF c] put_u16_def)
qed

interpretation header_codec: framed_codec encode_header ReadPacketHeader header_ok
proof unfold_locales
  show "ReadPacketHeader bs = Inr (h, r) \<longleftrightarrow> header_ok h \<and> bs = encode_header h @ r" for bs h r
    using ReadPacketHeader_sound ReadPacketHeader_complete by blast
  show "header_ok h \<Longrightarrow> encode_header h \<noteq> []" for h
    by (simp add: encode_header_def)
qed

lemma WritePacket_encode:
  assumes "canonical_address (wire_address addr)"
  shows "WritePacket assocID pktID ft fid addr payload =
    ([ProtocolVersion, CmdPacket]
       @ encode_header \<lparr>ph_AssocID = assocID, ph_PktID = pktID, ph_FragTotal = ft, ph_FragID = fid,
           ph_Size = of_nat (length payload), ph_Addr = Some (wire_address addr)\<rparr> @ payload, None)"
  using canonical_WriteAddress [OF assms] WriteAddress_wire [of addr]
  by (simp add: WritePacket_def encode_header_def)

lemma ReadCommand_packet [wire]:
  "ReadCommand ([ProtocolVersion, cmd] @ r) = Inr ((ProtocolVersion, cmd), r)"
  by (simp add: ReadCommand_def read_full_def)


subsection \<open>Properties\<close>

text \<open>
  C38: the address reader and the address writer are inverse on the nose. A reader
  succeeds exactly on what \<open>WriteAddress\<close> writes for a canonical address, and it leaves
  the bytes behind that encoding untouched: no other byte string is accepted, so every
  endpoint has one wire form.
\<close>

theorem ReadAddress_iff_written:
  "ReadAddress bs = Inr (a, rest) \<longleftrightarrow>
   canonical_address a \<and> (\<exists>out. WriteAddress (Some a) = (out, None) \<and> bs = out @ rest)"
  using address_codec.dec_iff [of bs a rest] canonical_WriteAddress [of a] by auto

text \<open>
  C39: a packet command written by \<open>WritePacket\<close> is read back by \<open>ReadCommand\<close>,
  \<open>ReadPacketHeader\<close> and \<open>readPacketPayload\<close> as the same fields, address and payload,
  with the bytes of the next frame left in the reader, provided the payload fits the
  16-bit size field.
\<close>

theorem packet_frame_roundtrip:
  assumes "canonical_address (wire_address addr)" and "length payload < 65536"
  shows "\<exists>out r1 r2 h.
    WritePacket assocID pktID ft fid addr payload = (out, None)
    \<and> ReadCommand (out @ rest) = Inr ((ProtocolVersion, CmdPacket), r1)
    \<and> ReadPacketHeader r1 = Inr (h, r2)
    \<and> readPacketPayload r2 h = Inr (payload, rest)
    \<and> h = \<lparr>ph_AssocID = assocID, ph_PktID = pktID, ph_FragTotal = ft, ph_FragID = fid,
           ph_Size = of_nat (length payload), ph_Addr = Some (wire_address addr)\<rparr>"
proof -
  let ?h = "\<lparr>ph_AssocID = assocID, ph_PktID = pktID, ph_FragTotal = ft, ph_FragID = fid,
           ph_Size = of_nat (length payload), ph_Addr = Some (wire_address addr)\<rparr>"
  have ok: "header_ok ?h" using assms(1) by (simp add: header_ok_def)
  have sz: "unat (of_nat (length payload) :: 16 word) = length payload"
    using assms(2) by (simp add: unat_of_nat)
  have "readPacketPayload (payload @ rest) ?h = Inr (payload, rest)"
    by (simp add: readPacketPayload_def sz)
  moreover have "ReadPacketHeader (encode_header ?h @ payload @ rest) = Inr (?h, payload @ rest)"
    by (rule header_codec.dec_enc [OF ok])
  ultimately show ?thesis
    using WritePacket_encode [OF assms(1), of assocID pktID ft fid payload]
      ReadCommand_packet [of CmdPacket "encode_header ?h @ payload @ rest"] by auto
qed

theorem packet_frame_roundtrip_witness:
  "\<exists>out r1 r2 h.
    WritePacket 7 1 2 1 None [10, 20] = (out, None)
    \<and> ReadCommand (out @ [9]) = Inr ((ProtocolVersion, CmdPacket), r1)
    \<and> ReadPacketHeader r1 = Inr (h, r2)
    \<and> readPacketPayload r2 h = Inr ([10, 20], [9])
    \<and> h = \<lparr>ph_AssocID = 7, ph_PktID = 1, ph_FragTotal = 2, ph_FragID = 1,
           ph_Size = of_nat (length [10, 20 :: byte]), ph_Addr = Some (wire_address None)\<rparr>"
  by (rule packet_frame_roundtrip) (simp_all add: wire_address_def)

text \<open>
  a truncated address is never mistaken for a shorter one: every proper prefix of a
  canonical encoding makes the reader fail.
\<close>

theorem ReadAddress_truncated:
  assumes "canonical_address a" and "n < length (fst (WriteAddress (Some a)))"
  shows "\<exists>e. ReadAddress (take n (fst (WriteAddress (Some a)))) = Inl e"
  using address_codec.dec_truncated [of a n] assms by (simp add: encode_address_def)

theorem ReadAddress_truncated_witness:
  "\<exists>e. ReadAddress (take 3 (fst (WriteAddress (Some
     \<lparr>a_Type = AddrTypeDomain, a_Host = ''a.b'', a_IP = [], a_Port = 443\<rparr>)))) = Inl e"
  by (rule ReadAddress_truncated)
    (simp_all add: canonical_address_def WriteAddress_def tuic_consts)

end
