(* ===== verification/Tuic_Socks.thy ===== *)
theory Tuic_Socks
  imports Tuic_Protocol
begin

text \<open>
  \<open>internal/tuic/socks_bridge.go\<close>: the SOCKS5 client through which decrypted TUIC traffic
  reaches the local Xray inbound: the request and datagram formats, the handshake, the
  dialling sequences with every early exit, the byte-counting pipe, and the port that each
  inbound's relay listens on.

  A TCP connection is the byte stream its peer sends (a reader) and the bytes written to
  it; dialling, name resolution and the context are arguments. \<open>closed\<close> records whether
  the code closed the connection.
\<close>

datatype socks_err =
    SocksInvalidAddr
  | ErrUdpPayloadTooLarge
  | SocksClosed
  | SocksNetErr
  | SocksCtxErr
  | SocksGateErr
  | UdpTooShort nat
  | UdpTruncated byte
  | UdpBadAtyp byte
  | BadVersion byte
  | AuthRejected byte
  | BadAuthMethod byte
  | RequestRejected byte
  | SocksReadErr io_err
  | BadReplyAtyp byte
  | ResolveFailed

definition maxSocksUdpDatagramSize :: nat where "maxSocksUdpDatagramSize = 65507"

definition ValidateRelayEmail :: "string \<Rightarrow> bool" where
  "ValidateRelayEmail email \<longleftrightarrow> \<not> (length email = 0 \<or> 255 < length email)"

subsection \<open>Requests and datagram headers\<close>

definition socks_target :: "address \<Rightarrow> bytes option" where
  "socks_target t =
     (if a_Type t = AddrTypeIPv4 then
        (let ip4 = ip_to4 (a_IP t) in
         if length ip4 \<noteq> 4 then None else Some (1 # ip4 @ put_u16 (a_Port t)))
      else if a_Type t = AddrTypeIPv6 then
        (let ip16 = ip_to16 (a_IP t) in
         if length ip16 \<noteq> 16 then None else Some (4 # ip16 @ put_u16 (a_Port t)))
      else if a_Type t = AddrTypeDomain then
        (let dLen = length (a_Host t) in
         if dLen = 0 \<or> 255 < dLen then None
         else Some (3 # of_nat dLen # bytes_of_string (a_Host t) @ put_u16 (a_Port t)))
      else None)"

definition buildSocks5ConnectRequest :: "address option \<Rightarrow> bytes option" where
  "buildSocks5ConnectRequest target =
     (case target of
        None \<Rightarrow> None
      | Some t \<Rightarrow> map_option (\<lambda>tail. [5, 1, 0] @ tail) (socks_target t))"

definition buildSocks5UDPHeader :: "address option \<Rightarrow> bytes option" where
  "buildSocks5UDPHeader target =
     (case target of
        None \<Rightarrow> None
      | Some t \<Rightarrow> map_option (\<lambda>tail. [0, 0, 0] @ tail) (socks_target t))"

definition buildSocks5UDPRequest :: "address option \<Rightarrow> bytes \<Rightarrow> socks_err + bytes" where
  "buildSocks5UDPRequest target payload =
     (case buildSocks5UDPHeader target of
        None \<Rightarrow> Inl SocksInvalidAddr
      | Some hdr \<Rightarrow>
          if maxSocksUdpDatagramSize < length hdr + length payload then Inl ErrUdpPayloadTooLarge
          else Inr (hdr @ payload))"

text \<open>\<open>Receive\<close> on a session that is open or closed, with the datagram the socket delivers.
  The buffer is larger than any header, so its first bytes can be read even when the
  datagram is shorter; \<open>n\<close> is the datagram's length.\<close>

definition Receive :: "bool \<Rightarrow> socks_err + bytes \<Rightarrow> socks_err + (address \<times> bytes)" where
  "Receive closed rd =
     (if closed then Inl SocksClosed
      else case rd of
        Inl e \<Rightarrow> Inl e
      | Inr buf \<Rightarrow>
          let n = length buf in
          if n < 4 then Inl (UdpTooShort n)
          else if buf ! 3 = 1 then
            if n < 10 then Inl (UdpTruncated 1)
            else let ip = take 4 (drop 4 buf) in
              Inr (\<lparr>a_Type = AddrTypeIPv4, a_Host = ip_string ip, a_IP = ip,
                    a_Port = get_u16 (buf ! 8) (buf ! 9)\<rparr>, drop 10 buf)
          else if buf ! 3 = 4 then
            if n < 22 then Inl (UdpTruncated 4)
            else let ip = take 16 (drop 4 buf) in
              Inr (\<lparr>a_Type = AddrTypeIPv6, a_Host = ip_string ip, a_IP = ip,
                    a_Port = get_u16 (buf ! 20) (buf ! 21)\<rparr>, drop 22 buf)
          else if buf ! 3 = 3 then
            if n < 5 then Inl (UdpTruncated 3)
            else let dLen = unat (buf ! 4) in
              if n < 5 + dLen + 2 then Inl (UdpTruncated 3)
              else Inr (\<lparr>a_Type = AddrTypeDomain, a_Host = string_of_bytes (take dLen (drop 5 buf)),
                         a_IP = [], a_Port = get_u16 (buf ! (5 + dLen)) (buf ! (6 + dLen))\<rparr>,
                        drop (7 + dLen) buf)
          else Inl (UdpBadAtyp (buf ! 3)))"

definition Send :: "bool \<Rightarrow> address option \<Rightarrow> bytes \<Rightarrow> socks_err + bytes" where
  "Send closed target payload =
     (if closed then Inl SocksClosed else buildSocks5UDPRequest target payload)"

subsection \<open>Handshake and replies\<close>

text \<open>The bytes the client has written, its result, and what is left of the peer's stream;
  \<open>w1\<close> and \<open>w2\<close> say whether the greeting and the credentials could be written.\<close>

definition auth_request :: "string \<Rightarrow> string \<Rightarrow> bytes" where
  "auth_request user password =
     [1, of_nat (length user)] @ bytes_of_string user @ [of_nat (length password)] @ bytes_of_string password"

definition socks5Handshake ::
  "bool \<Rightarrow> bool \<Rightarrow> string \<Rightarrow> string \<Rightarrow> bytes \<Rightarrow> bytes \<times> (socks_err + bytes)" where
  "socks5Handshake w1 w2 user password inp =
     (if \<not> w1 then ([], Inl SocksNetErr)
      else let greet = [5, 2, 0, 2] in
      case read_full 2 inp of
        Inl e \<Rightarrow> (greet, Inl (SocksReadErr e))
      | Inr (resp, r1) \<Rightarrow>
          if resp ! 0 \<noteq> 5 then (greet, Inl (BadVersion (resp ! 0)))
          else if resp ! 1 = 0 then (greet, Inr r1)
          else if resp ! 1 = 2 then
            (if \<not> w2 then (greet, Inl SocksNetErr)
             else let req = auth_request user password in
             case read_full 2 r1 of
               Inl e \<Rightarrow> (greet @ req, Inl (SocksReadErr e))
             | Inr (authResp, r2) \<Rightarrow>
                 if authResp ! 1 \<noteq> 0 then (greet @ req, Inl (AuthRejected (authResp ! 1)))
                 else (greet @ req, Inr r2))
          else (greet, Inl (BadAuthMethod (resp ! 1))))"

definition readSocks5Addr ::
  "(string \<Rightarrow> bytes option) \<Rightarrow> bytes \<Rightarrow> byte \<Rightarrow> socks_err + (bytes \<times> bytes)" where
  "readSocks5Addr resolve r atyp =
     (if atyp = 1 then (case read_full 4 r of Inl e \<Rightarrow> Inl (SocksReadErr e) | Inr x \<Rightarrow> Inr x)
      else if atyp = 4 then (case read_full 16 r of Inl e \<Rightarrow> Inl (SocksReadErr e) | Inr x \<Rightarrow> Inr x)
      else if atyp = 3 then
        (case read_full 1 r of
           Inl e \<Rightarrow> Inl (SocksReadErr e)
         | Inr (l, r1) \<Rightarrow>
             (case read_full (unat (l ! 0)) r1 of
                Inl e \<Rightarrow> Inl (SocksReadErr e)
              | Inr (name, r2) \<Rightarrow>
                  (case resolve (string_of_bytes name) of
                     None \<Rightarrow> Inl ResolveFailed
                   | Some ip \<Rightarrow> if length ip = 4 \<or> length ip = 16 then Inr (ip, r2) else Inl ResolveFailed)))
      else Inl (BadReplyAtyp atyp))"

definition readSocks5Reply ::
  "(string \<Rightarrow> bytes option) \<Rightarrow> bytes \<Rightarrow> socks_err + ((bytes \<times> 16 word) \<times> bytes)" where
  "readSocks5Reply resolve r =
     (case read_full 4 r of
        Inl e \<Rightarrow> Inl (SocksReadErr e)
      | Inr (hdr, r1) \<Rightarrow>
          if hdr ! 0 \<noteq> 5 then Inl (BadVersion (hdr ! 0))
          else if hdr ! 1 \<noteq> 0 then Inl (RequestRejected (hdr ! 1))
          else
            (case readSocks5Addr resolve r1 (hdr ! 3) of
               Inl e \<Rightarrow> Inl e
             | Inr (ip, r2) \<Rightarrow>
                 (case read_full 2 r2 of
                    Inl e \<Rightarrow> Inl (SocksReadErr e)
                  | Inr (p, r3) \<Rightarrow> Inr ((ip, get_u16 (p ! 0) (p ! 1)), r3))))"


subsection \<open>Dialling\<close>

text \<open>
  What the environment does to one dialling attempt: whether the relay gate admits the
  user (\<open>None\<close>: no error), whether the TCP dial succeeds and what the relay then sends,
  which writes fail, and whether the context is found cancelled at the two points where
  the code looks. The log says what was acquired and what was given back.
\<close>

record dial_env =
  de_gate :: "socks_err option"
  de_dial :: "socks_err + bytes"
  de_write1 :: bool
  de_write2 :: bool
  de_ctx1 :: bool
  de_writeReq :: bool
  de_ctx2 :: bool
  de_udpDial :: bool
  de_resolve :: "string \<Rightarrow> bytes option"

record dial_log =
  dl_acquired :: bool
  dl_released :: bool
  dl_opened :: bool
  dl_closed :: bool
  dl_udpOpened :: bool
  dl_udpClosed :: bool
  dl_written :: bytes

definition no_log :: dial_log where
  "no_log = \<lparr>dl_acquired = False, dl_released = False, dl_opened = False, dl_closed = False,
     dl_udpOpened = False, dl_udpClosed = False, dl_written = []\<rparr>"

definition dialAuthenticated ::
  "dial_env \<Rightarrow> bool \<Rightarrow> string \<Rightarrow> string \<Rightarrow> dial_log \<times> (socks_err + bytes)" where
  "dialAuthenticated env hasGate user password =
     (case (if hasGate then de_gate env else None) of
        Some e \<Rightarrow> (no_log, Inl e)
      | None \<Rightarrow>
          let log = no_log\<lparr>dl_acquired := hasGate, dl_released := hasGate\<rparr> in
          (case de_dial env of
             Inl e \<Rightarrow> (log, Inl e)
           | Inr inp \<Rightarrow>
               let log = log\<lparr>dl_opened := True\<rparr> in
               (case socks5Handshake (de_write1 env) (de_write2 env) user password inp of
                  (w, Inl e) \<Rightarrow> (log\<lparr>dl_written := w, dl_closed := True\<rparr>, Inl e)
                | (w, Inr r) \<Rightarrow>
                    if de_ctx1 env then (log\<lparr>dl_written := w, dl_closed := True\<rparr>, Inl SocksCtxErr)
                    else (log\<lparr>dl_written := w\<rparr>, Inr r))))"

definition DialTCP ::
  "dial_env \<Rightarrow> bool \<Rightarrow> string \<Rightarrow> string \<Rightarrow> address option \<Rightarrow> dial_log \<times> (socks_err + bytes)" where
  "DialTCP env hasGate user password target =
     (case dialAuthenticated env hasGate user password of
        (log, Inl e) \<Rightarrow> (log, Inl e)
      | (log, Inr r) \<Rightarrow>
          (case buildSocks5ConnectRequest target of
             None \<Rightarrow> (log\<lparr>dl_closed := True\<rparr>, Inl SocksInvalidAddr)
           | Some req \<Rightarrow>
               if \<not> de_writeReq env then (log\<lparr>dl_closed := True\<rparr>, Inl SocksNetErr)
               else let log = log\<lparr>dl_written := dl_written log @ req\<rparr> in
                 (case readSocks5Reply (de_resolve env) r of
                    Inl e \<Rightarrow> (log\<lparr>dl_closed := True\<rparr>, Inl e)
                  | Inr (_, r') \<Rightarrow>
                      if de_ctx2 env then (log\<lparr>dl_closed := True\<rparr>, Inl SocksCtxErr)
                      else (log, Inr r'))))"

definition udp_associate_request :: bytes where
  "udp_associate_request = [5, 3, 0, 1, 0, 0, 0, 0, 0, 0]"

definition DialUDP ::
  "dial_env \<Rightarrow> bool \<Rightarrow> string \<Rightarrow> string \<Rightarrow> dial_log \<times> (socks_err + (bytes \<times> 16 word))" where
  "DialUDP env hasGate user password =
     (case dialAuthenticated env hasGate user password of
        (log, Inl e) \<Rightarrow> (log, Inl e)
      | (log, Inr r) \<Rightarrow>
          if \<not> de_writeReq env then (log\<lparr>dl_closed := True\<rparr>, Inl SocksNetErr)
          else let log = log\<lparr>dl_written := dl_written log @ udp_associate_request\<rparr> in
            (case readSocks5Reply (de_resolve env) r of
               Inl e \<Rightarrow> (log\<lparr>dl_closed := True\<rparr>, Inl e)
             | Inr (bind, _) \<Rightarrow>
                 if \<not> de_udpDial env then (log\<lparr>dl_closed := True\<rparr>, Inl SocksNetErr)
                 else if de_ctx2 env then
                   (log\<lparr>dl_closed := True, dl_udpOpened := True, dl_udpClosed := True\<rparr>, Inl SocksCtxErr)
                 else (log\<lparr>dl_udpOpened := True\<rparr>, Inr bind)))"

subsection \<open>The byte-counting pipe\<close>

text \<open>
  One direction of \<open>PipeBiDirectionalContext\<close>: each event is one \<open>Read\<close> with its bytes,
  its error if any, and whether the \<open>Write\<close> that follows succeeds. \<open>Inl False\<close> is
  \<open>io.EOF\<close>. The result is the counter, the bytes delivered and whether the loop closed
  both ends; \<open>None\<close> when the events run out before the loop ends.
\<close>

datatype read_err = ReadEOF | ReadFail

record read_event =
  ev_data :: bytes
  ev_err :: "read_err option"
  ev_writeOk :: bool

record pipe_state =
  pi_counter :: int
  pi_out :: bytes
  pi_closedBoth :: bool

fun pipe_loop :: "pipe_state \<Rightarrow> read_event list \<Rightarrow> pipe_state option" where
  "pipe_loop s [] = None"
| "pipe_loop s (e # es) =
     (let n = length (ev_data e);
          s1 = (if 0 < n then s\<lparr>pi_counter := pi_counter s + int n\<rparr> else s) in
      if 0 < n \<and> \<not> ev_writeOk e then Some (s1\<lparr>pi_closedBoth := True\<rparr>)
      else let s2 = (if 0 < n then s1\<lparr>pi_out := pi_out s1 @ ev_data e\<rparr> else s1) in
        (case ev_err e of
           Some ReadEOF \<Rightarrow> Some s2
         | Some ReadFail \<Rightarrow> Some (s2\<lparr>pi_closedBoth := True\<rparr>)
         | None \<Rightarrow> pipe_loop s2 es))"

subsection \<open>Relay ports and the relay inbound\<close>

definition SOCKSBasePort :: int where "SOCKSBasePort = 64000"
definition relayPortSlots :: int where "relayPortSlots = 1000"

definition SOCKSPortForInbound :: "int \<Rightarrow> int" where
  "SOCKSPortForInbound inboundID =
     (if inboundID \<le> 0 then SOCKSBasePort + 1
      else SOCKSBasePort + 1 + (inboundID - 1) mod relayPortSlots)"

record socks_inbound_settings =
  si_Auth :: string
  si_UDP :: bool
  si_UserLevel :: "32 word"
  si_Accounts :: "(string \<times> string) list"

definition SocksInboundSettings :: "string list \<Rightarrow> string \<Rightarrow> 32 word \<Rightarrow> socks_inbound_settings" where
  "SocksInboundSettings emails password userLevel =
     \<lparr>si_Auth = ''password'', si_UDP = True, si_UserLevel = userLevel,
      si_Accounts = map (\<lambda>email. (email, password)) emails\<rparr>"


subsection \<open>Lemmas\<close>

lemma canonical_target_cases [consumes 2, case_names IPv4 IPv6 Domain]:
  assumes "canonical_address a" "a_Type a \<noteq> AddrTypeNone"
  obtains "a_Type a = AddrTypeIPv4" "length (a_IP a) = 4" "a_Host a = ip_string (a_IP a)"
  | "a_Type a = AddrTypeIPv6" "length (a_IP a) = 16" "a_Host a = ip_string (a_IP a)"
  | "a_Type a = AddrTypeDomain" "a_IP a = []" "0 < length (a_Host a)" "length (a_Host a) \<le> 255"
  using assms by (auto simp: canonical_address_def)

lemma socks_target_IPv4: "a_Type a = AddrTypeIPv4 \<Longrightarrow> length (a_IP a) = 4 \<Longrightarrow>
    socks_target a = Some (1 # a_IP a @ put_u16 (a_Port a))"
  by (simp add: socks_target_def)

lemma socks_target_IPv6: "a_Type a = AddrTypeIPv6 \<Longrightarrow> length (a_IP a) = 16 \<Longrightarrow>
    socks_target a = Some (4 # a_IP a @ put_u16 (a_Port a))"
  by (simp add: socks_target_def tuic_consts)

lemma socks_target_Domain: "a_Type a = AddrTypeDomain \<Longrightarrow> 0 < length (a_Host a) \<Longrightarrow>
    length (a_Host a) \<le> 255 \<Longrightarrow>
    socks_target a = Some (3 # of_nat (length (a_Host a)) # bytes_of_string (a_Host a) @ put_u16 (a_Port a))"
  by (simp add: socks_target_def tuic_consts)

lemma socks_target_canonical:
  assumes "canonical_address a" "a_Type a \<noteq> AddrTypeNone"
  shows "\<exists>t. socks_target a = Some t \<and> length t \<le> 259"
  using assms by (cases rule: canonical_target_cases)
    (simp_all add: socks_target_IPv4 socks_target_IPv6 socks_target_Domain)

lemma nth_append_mid: "i = length xs \<Longrightarrow> (xs @ y # ys) ! i = y"
  by simp

lemma drop_prefix: "length xs = n \<Longrightarrow> drop n (xs @ ys) = ys"
  by simp

lemma Receive_ip:
  assumes "length ip = k" "buf = [0, 0, 0, t] @ ip @ put_u16 w @ payload"
  shows "take k (drop 4 buf) = ip" "get_u16 (buf ! (4 + k)) (buf ! (5 + k)) = w"
    "drop (6 + k) buf = payload" "length buf = 6 + k + length payload" "buf ! 3 = t"
proof -
  show "drop (6 + k) buf = payload"
    using drop_prefix [of "[0, 0, 0, t] @ ip @ put_u16 w" "6 + k" payload] assms by simp
qed (use assms in \<open>simp_all add: nth_append put_u16_def\<close>)

lemma Receive_built:
  assumes c: "canonical_address a" and t: "a_Type a \<noteq> AddrTypeNone"
    and hdr: "buildSocks5UDPHeader (Some a) = Some hdr"
  shows "Receive False (Inr (hdr @ payload)) = Inr (a, payload)"
  using c t
proof (cases rule: canonical_target_cases)
  case IPv4
  have b: "hdr @ payload = [0, 0, 0, 1] @ a_IP a @ put_u16 (a_Port a) @ payload"
    using hdr IPv4 by (auto simp: buildSocks5UDPHeader_def socks_target_IPv4)
  note r = Receive_ip [OF IPv4(2) b]
  show ?thesis
    using r IPv4(1,3) unfolding Receive_def by (cases a) (simp add: Let_def)
next
  case IPv6
  have b: "hdr @ payload = [0, 0, 0, 4] @ a_IP a @ put_u16 (a_Port a) @ payload"
    using hdr IPv6 by (auto simp: buildSocks5UDPHeader_def socks_target_IPv6)
  note r = Receive_ip [OF IPv6(2) b]
  show ?thesis
    using r IPv6(1,3) unfolding Receive_def by (cases a) (simp add: Let_def)
next
  case Domain
  let ?n = "length (a_Host a)"
  have b: "hdr @ payload
      = [0, 0, 0, 3, of_nat ?n] @ bytes_of_string (a_Host a) @ put_u16 (a_Port a) @ payload"
    using hdr Domain by (auto simp: buildSocks5UDPHeader_def socks_target_Domain)
  have dl: "unat (of_nat ?n :: byte) = ?n" using Domain(4) by simp
  let ?buf = "[0, 0, 0, 3, of_nat ?n] @ bytes_of_string (a_Host a) @ put_u16 (a_Port a) @ payload"
  have dr: "drop (7 + ?n) ?buf = payload"
    using drop_prefix [of "[0, 0, 0, 3, of_nat ?n] @ bytes_of_string (a_Host a) @ put_u16 (a_Port a)"
        "7 + ?n" payload] by simp
  have po: "get_u16 (?buf ! (5 + ?n)) (?buf ! (6 + ?n)) = a_Port a"
    by (simp add: nth_append put_u16_def)
  have ho: "string_of_bytes (take ?n (drop 5 ?buf)) = a_Host a" by simp
  have le: "length ?buf = 7 + ?n + length payload" "?buf ! 3 = 3" "?buf ! 4 = of_nat ?n" by simp_all
  have "Receive False (Inr ?buf) = Inr (\<lparr>a_Type = AddrTypeDomain, a_Host = a_Host a, a_IP = [],
      a_Port = a_Port a\<rparr>, payload)"
    unfolding Receive_def using le dl dr po ho by (simp add: Let_def del: append_Cons append_assoc)
  then show ?thesis using Domain(1,2) b by (cases a) simp
qed

subsection \<open>Properties\<close>

text \<open>
  what \<open>Send\<close> puts into a SOCKS5 UDP datagram, \<open>Receive\<close> takes out of it: for every
  endpoint the protocol can name and every payload that fits a datagram, the header is
  built, and the receiving side recovers the same address and the same payload bytes.
\<close>

theorem socks_udp_roundtrip:
  assumes "canonical_address a" and "a_Type a \<noteq> AddrTypeNone" and "length payload \<le> 65245"
  shows "\<exists>packet. Send False (Some a) payload = Inr packet
    \<and> length packet \<le> maxSocksUdpDatagramSize
    \<and> Receive False (Inr packet) = Inr (a, payload)"
proof -
  obtain t where t: "socks_target a = Some t" "length t \<le> 259"
    using socks_target_canonical [OF assms(1,2)] by blast
  then have h: "buildSocks5UDPHeader (Some a) = Some ([0, 0, 0] @ t)"
    by (simp add: buildSocks5UDPHeader_def)
  show ?thesis
    using Receive_built [OF assms(1,2) h, of payload] t(2) assms(3)
    by (simp add: Send_def buildSocks5UDPRequest_def h maxSocksUdpDatagramSize_def)
qed

theorem socks_udp_roundtrip_witness:
  "\<exists>packet. Send False (Some \<lparr>a_Type = AddrTypeDomain, a_Host = ''dns'', a_IP = [], a_Port = 53\<rparr>) [1, 2, 3] = Inr packet
    \<and> length packet \<le> maxSocksUdpDatagramSize
    \<and> Receive False (Inr packet) = Inr (\<lparr>a_Type = AddrTypeDomain, a_Host = ''dns'', a_IP = [], a_Port = 53\<rparr>, [1, 2, 3])"
  by (rule socks_udp_roundtrip) (simp_all add: canonical_address_def tuic_consts)

text \<open>
  C40: dialling leaks nothing. Whatever fails along the way (the gate, the dial, the
  handshake, a write, the reply, the context), the relay gate is released exactly if it
  was acquired, and the control connection is closed exactly if it was opened and the
  dial did not succeed; the UDP socket of an association likewise.
\<close>

theorem dial_releases_everything:
  "(case DialTCP env g user password target of (log, res) \<Rightarrow>
      dl_released log = dl_acquired log
      \<and> dl_closed log = (dl_opened log \<and> isl res)
      \<and> ((\<not> isl res) = (dl_opened log \<and> \<not> dl_closed log)))
   \<and> (case DialUDP env g user password of (log, res) \<Rightarrow>
      dl_released log = dl_acquired log
      \<and> dl_closed log = (dl_opened log \<and> isl res)
      \<and> dl_udpClosed log = (dl_udpOpened log \<and> isl res)
      \<and> ((\<not> isl res) = (dl_udpOpened log \<and> \<not> dl_udpClosed log)))"
proof -
  have auth: "dl_released log = dl_acquired log \<and> dl_closed log = (dl_opened log \<and> isl res)
      \<and> \<not> dl_udpOpened log \<and> \<not> dl_udpClosed log \<and> ((\<not> isl res) \<longrightarrow> dl_opened log)"
    if "dialAuthenticated env g user password = (log, res)" for log res
    using that
    by (cases "de_dial env")
      (auto simp: dialAuthenticated_def no_log_def Let_def dest!: sym [of "Inl _" "de_dial env"]
        split: option.splits sum.splits prod.splits if_splits)
  obtain log res where d: "dialAuthenticated env g user password = (log, res)" by fastforce
  show ?thesis
    using auth [OF d]
    by (auto simp: DialTCP_def DialUDP_def d Let_def split: sum.splits option.splits prod.splits)
qed

text \<open>
  relay ports stay in their window and collide exactly modulo the number of slots.
  Ids from 1 to 1000 get 1000 different ports, and none of them is the port of the API
  inbound, of the node egress bridges or of an AmneziaWG relay.
\<close>

theorem SOCKSPortForInbound_window:
  "64001 \<le> SOCKSPortForInbound i \<and> SOCKSPortForInbound i \<le> 65000
   \<and> (SOCKSPortForInbound (int m + 1) = SOCKSPortForInbound (int n + 1) \<longleftrightarrow> m mod 1000 = n mod 1000)"
proof -
  have "0 \<le> (i - 1) mod 1000" by simp
  moreover have "(i - 1) mod 1000 \<le> 999" using pos_mod_bound [of 1000 "i - 1"] by linarith
  moreover have "int m mod 1000 = int n mod 1000 \<longleftrightarrow> m mod 1000 = n mod 1000"
    by (metis of_nat_eq_iff of_nat_numeral zmod_int)
  ultimately show ?thesis
    by (simp add: SOCKSPortForInbound_def SOCKSBasePort_def relayPortSlots_def)
qed


text \<open>What an RFC 1929 server reads from the credentials message.\<close>

definition rfc1929_parse :: "bytes \<Rightarrow> ((string \<times> string) \<times> bytes) option" where
  "rfc1929_parse bs =
     (case bs of
        v # ul # r \<Rightarrow>
          if v \<noteq> 1 \<or> length r \<le> unat ul then None
          else let u = take (unat ul) r; r1 = drop (unat ul) r; pl = hd r1; r2 = tl r1 in
            if length r2 < unat pl then None
            else Some ((string_of_bytes u, string_of_bytes (take (unat pl) r2)), drop (unat pl) r2)
      | _ \<Rightarrow> None)"

text \<open>
  the credentials message is unambiguous. For every client email the panel accepts and
  every password of at most 255 bytes the length bytes do not wrap, so the relay reads
  back exactly the user and the password that were sent, and nothing of what follows.
\<close>

theorem auth_request_parses:
  assumes "ValidateRelayEmail user" and "length password \<le> 255"
  shows "rfc1929_parse (auth_request user password @ r) = Some ((user, password), r)"
proof -
  have u: "unat (of_nat (length user) :: byte) = length user"
    using assms(1) by (simp add: ValidateRelayEmail_def)
  have p: "unat (of_nat (length password) :: byte) = length password"
    using assms(2) by simp
  show ?thesis by (simp add: rfc1929_parse_def auth_request_def Let_def u p)
qed

theorem auth_request_parses_witness:
  "rfc1929_parse (auth_request ''bob@x'' ''pw'' @ [5, 1]) = Some ((''bob@x'', ''pw''), [5, 1])"
  by (rule auth_request_parses) (simp_all add: ValidateRelayEmail_def)

text \<open>
  the pipe bills every byte it reads and only those. When a direction ends, its counter
  has grown by the bytes delivered plus the bytes of a chunk whose write failed, and in
  that last case both ends have been closed.
\<close>

theorem pipe_loop_counts:
  assumes "pipe_loop s es = Some s'"
  shows "\<exists>(lost :: bytes) delivered. pi_out s' = pi_out s @ delivered
    \<and> pi_counter s' = pi_counter s + int (length delivered) + int (length lost)
    \<and> (lost \<noteq> [] \<longrightarrow> pi_closedBoth s')"
  using assms
proof (induction es arbitrary: s)
  case Nil
  then show ?case by simp
next
  case (Cons e es)
  let ?s2 = "s\<lparr>pi_counter := pi_counter s + int (length (ev_data e)), pi_out := pi_out s @ ev_data e\<rparr>"
  have s2: "(if 0 < length (ev_data e) then s\<lparr>pi_counter := pi_counter s + int (length (ev_data e)),
      pi_out := pi_out s @ ev_data e\<rparr> else s) = ?s2" by simp
  consider (wfail) "0 < length (ev_data e)" "\<not> ev_writeOk e"
    | (stop) "s' = ?s2 \<or> s' = ?s2\<lparr>pi_closedBoth := True\<rparr>"
    | (more) "pipe_loop ?s2 es = Some s'"
    using Cons.prems s2 by (auto simp: Let_def split: if_splits option.splits read_err.splits)
  then show ?case
  proof cases
    case wfail
    then have "s' = s\<lparr>pi_counter := pi_counter s + int (length (ev_data e)), pi_closedBoth := True\<rparr>"
      using Cons.prems by simp
    then show ?thesis by - (rule exI [of _ "ev_data e"], rule exI [of _ "[]"], simp)
  next
    case stop
    then show ?thesis by - (rule exI [of _ "[]"], rule exI [of _ "ev_data e"], auto)
  next
    case more
    from Cons.IH [OF this] obtain lost :: bytes and d where
      "pi_out s' = pi_out ?s2 @ d"
      "pi_counter s' = pi_counter ?s2 + int (length d) + int (length lost)"
      "lost \<noteq> [] \<longrightarrow> pi_closedBoth s'" by blast
    then show ?thesis by - (rule exI [of _ lost], rule exI [of _ "ev_data e @ d"], simp)
  qed
qed

theorem pipe_loop_counts_witness:
  "\<exists>(lost :: bytes) delivered. [1, 2] = [] @ delivered
    \<and> (2 :: int) = 0 + int (length delivered) + int (length lost)
    \<and> (lost \<noteq> [] \<longrightarrow> False)"
  using pipe_loop_counts [of "\<lparr>pi_counter = 0, pi_out = [], pi_closedBoth = False\<rparr>"
      "[\<lparr>ev_data = [1, 2], ev_err = Some ReadEOF, ev_writeOk = True\<rparr>]"
      "\<lparr>pi_counter = 2, pi_out = [1, 2], pi_closedBoth = False\<rparr>"] by simp

end
