(* ===== verification/Tuic_Reassembly.thy ===== *)
theory Tuic_Reassembly
  imports Tuic_Protocol
begin

text \<open>
  The packet reassembler of \<open>internal/tuic/server.go\<close>: fragments of UDP packets, keyed by
  association, packet and transport, collected until a packet is complete. Times are
  nanoseconds; the mutex makes every operation one step, so each is a function from the
  reassembler to the new one. A nil fragment slot is \<open>None\<close>; a fragment may be empty.
\<close>

definition maxSafeUdpRelayPacketSize :: nat where "maxSafeUdpRelayPacketSize = 65507 - 262"
definition maxLegacyUdpRelayPacketSize :: nat where "maxLegacyUdpRelayPacketSize = 65507"
definition maxUdpRelayPacketSize :: nat where "maxUdpRelayPacketSize = maxSafeUdpRelayPacketSize"
definition maxPendingPacketAssemblies :: nat where "maxPendingPacketAssemblies = 32"
definition packetAssemblyTimeout :: int where "packetAssemblyTimeout = 10 * 10 ^ 9"

definition packetTransportDatagram :: byte where "packetTransportDatagram = 0"
definition packetTransportStream :: byte where "packetTransportStream = 1"

record packetFragmentKey =
  fk_assocID :: "16 word"
  fk_pktID :: "16 word"
  fk_transport :: byte

record packetReassembly =
  pa_total :: byte
  pa_received :: byte
  pa_size :: nat
  pa_frags :: "bytes option list"
  pa_addr :: "address option"
  pa_updatedAt :: int

record packetReassembler =
  pr_maxPacketSize :: nat
  pr_packets :: "(packetFragmentKey \<times> packetReassembly) list"

definition newPacketReassembler :: "int \<Rightarrow> packetReassembler" where
  "newPacketReassembler maxPacketSize =
     \<lparr>pr_maxPacketSize =
        (if maxPacketSize \<le> 0 \<or> int maxUdpRelayPacketSize < maxPacketSize
         then maxUdpRelayPacketSize else nat maxPacketSize),
      pr_packets = []\<rparr>"

definition isPacketTarget :: "address option \<Rightarrow> bool" where
  "isPacketTarget addr \<longleftrightarrow> (case addr of None \<Rightarrow> False | Some a \<Rightarrow> a_Type a \<noteq> AddrTypeNone)"

definition pr_expire :: "int \<Rightarrow> packetReassembler \<Rightarrow> packetReassembler" where
  "pr_expire now pr = pr\<lparr>pr_packets :=
     filter (\<lambda>(k, e). \<not> (packetAssemblyTimeout < now - pa_updatedAt e)) (pr_packets pr)\<rparr>"

definition pr_clearAssociation :: "16 word \<Rightarrow> packetReassembler \<Rightarrow> packetReassembler" where
  "pr_clearAssociation assocID pr = pr\<lparr>pr_packets :=
     filter (\<lambda>(k, e). fk_assocID k \<noteq> assocID) (pr_packets pr)\<rparr>"

definition pr_clearAll :: "packetReassembler \<Rightarrow> packetReassembler" where
  "pr_clearAll pr = pr\<lparr>pr_packets := []\<rparr>"

definition pr_drop :: "packetFragmentKey \<Rightarrow> packetReassembler \<Rightarrow> packetReassembler" where
  "pr_drop key pr = pr\<lparr>pr_packets := AList.delete key (pr_packets pr)\<rparr>"

definition assembled :: "bytes option list \<Rightarrow> bytes" where
  "assembled frags = concat (map (\<lambda>f. case f of None \<Rightarrow> [] | Some b \<Rightarrow> b) frags)"

definition new_assembly :: "int \<Rightarrow> byte \<Rightarrow> packetReassembly" where
  "new_assembly now fragTotal =
     \<lparr>pa_total = fragTotal, pa_received = 0, pa_size = 0,
      pa_frags = replicate (unat fragTotal) None, pa_addr = None, pa_updatedAt = now\<rparr>"

text \<open>The second half of \<open>feed\<close>: one fragment into its assembly.\<close>

definition pr_store ::
  "int \<Rightarrow> packetFragmentKey \<Rightarrow> packet_header \<Rightarrow> bytes \<Rightarrow> packetReassembly \<Rightarrow> packetReassembler
   \<Rightarrow> packetReassembler \<times> (address \<times> bytes) option" where
  "pr_store now key hdr payload entry pr =
     (case pa_frags entry ! unat (ph_FragID hdr) of
        Some fragment \<Rightarrow> (if fragment \<noteq> payload then pr_drop key pr else pr, None)
      | None \<Rightarrow>
          if pr_maxPacketSize pr < pa_size entry + length payload then (pr_drop key pr, None)
          else
            let entry = entry\<lparr>
                  pa_frags := (pa_frags entry)[unat (ph_FragID hdr) := Some payload],
                  pa_size := pa_size entry + length payload,
                  pa_received := pa_received entry + 1,
                  pa_updatedAt := now,
                  pa_addr := (if ph_FragID hdr = 0 then ph_Addr hdr else pa_addr entry)\<rparr> in
            if pa_received entry = pa_total entry then
              (pr_drop key pr,
               if \<not> isPacketTarget (pa_addr entry) then None
               else Some (the (pa_addr entry), assembled (pa_frags entry)))
            else (pr\<lparr>pr_packets := AList.update key entry (pr_packets pr)\<rparr>, None))"

definition malformed_fragment :: "nat \<Rightarrow> packet_header \<Rightarrow> bytes \<Rightarrow> bool" where
  "malformed_fragment maxSize hdr payload \<longleftrightarrow>
     ph_FragTotal hdr = 0 \<or> ph_FragTotal hdr \<le> ph_FragID hdr
     \<or> unat (ph_Size hdr) \<noteq> length payload \<or> maxSize < length payload"

text \<open>The branches of \<open>feed\<close> after the fragment passed the checks of a multi-fragment packet.\<close>

definition pr_collect ::
  "int \<Rightarrow> packetFragmentKey \<Rightarrow> packet_header \<Rightarrow> bytes \<Rightarrow> packetReassembler
   \<Rightarrow> packetReassembler \<times> (address \<times> bytes) option" where
  "pr_collect now key hdr payload pr =
     (case map_of (pr_packets pr) key of
        None \<Rightarrow>
          if maxPendingPacketAssemblies \<le> length (pr_packets pr) then (pr, None)
          else let entry = new_assembly now (ph_FragTotal hdr) in
            pr_store now key hdr payload entry
              (pr\<lparr>pr_packets := AList.update key entry (pr_packets pr)\<rparr>)
      | Some entry \<Rightarrow>
          if pa_total entry \<noteq> ph_FragTotal hdr then (pr_drop key pr, None)
          else pr_store now key hdr payload entry pr)"

definition fragment_key :: "byte \<Rightarrow> packet_header \<Rightarrow> packetFragmentKey" where
  "fragment_key transport hdr =
     \<lparr>fk_assocID = ph_AssocID hdr, fk_pktID = ph_PktID hdr, fk_transport = transport\<rparr>"

definition pr_feed ::
  "int \<Rightarrow> byte \<Rightarrow> packet_header option \<Rightarrow> bytes \<Rightarrow> packetReassembler
   \<Rightarrow> packetReassembler \<times> (address \<times> bytes) option" where
  "pr_feed now transport hdr payload pr =
     (case hdr of
        None \<Rightarrow> (pr, None)
      | Some hdr \<Rightarrow>
          if malformed_fragment (pr_maxPacketSize pr) hdr payload then (pr, None)
          else
            let pr = pr_expire now pr; key = fragment_key transport hdr in
            if ph_FragTotal hdr = 1 then
              (if ph_FragID hdr \<noteq> 0 \<or> \<not> isPacketTarget (ph_Addr hdr) then (pr, None)
               else (pr_drop key pr, Some (the (ph_Addr hdr), payload)))
            else if (ph_FragID hdr = 0 \<and> \<not> isPacketTarget (ph_Addr hdr))
                  \<or> (ph_FragID hdr \<noteq> 0 \<and> isPacketTarget (ph_Addr hdr)) then (pr, None)
            else pr_collect now key hdr payload pr)"

subsection \<open>Invariant\<close>

definition entry_ok :: "nat \<Rightarrow> packetReassembly \<Rightarrow> bool" where
  "entry_ok maxSize e \<longleftrightarrow>
     2 \<le> unat (pa_total e)
     \<and> length (pa_frags e) = unat (pa_total e)
     \<and> unat (pa_received e) = length (filter (\<lambda>f. f \<noteq> None) (pa_frags e))
     \<and> pa_received e < pa_total e
     \<and> pa_size e = length (assembled (pa_frags e))
     \<and> pa_size e \<le> maxSize
     \<and> (pa_frags e ! 0 \<noteq> None \<longrightarrow> isPacketTarget (pa_addr e))"

definition reassembler_inv :: "packetReassembler \<Rightarrow> bool" where
  "reassembler_inv pr \<longleftrightarrow>
     wf_map (pr_packets pr)
     \<and> length (pr_packets pr) \<le> maxPendingPacketAssemblies
     \<and> pr_maxPacketSize pr \<le> maxUdpRelayPacketSize
     \<and> (\<forall>e \<in> snd ` set (pr_packets pr). entry_ok (pr_maxPacketSize pr) e)"

text \<open>The payload bytes a reassembler holds on to.\<close>

definition buffered :: "packetReassembler \<Rightarrow> nat" where
  "buffered pr = sum_list (map (\<lambda>(k, e). length (assembled (pa_frags e))) (pr_packets pr))"

lemma inv_new: "reassembler_inv (newPacketReassembler n)"
  by (auto simp: reassembler_inv_def newPacketReassembler_def)

lemma inv_filter:
  "reassembler_inv pr \<Longrightarrow> reassembler_inv (pr\<lparr>pr_packets := filter P (pr_packets pr)\<rparr>)"
  unfolding reassembler_inv_def
  by (auto intro: order_trans [OF length_filter_le])

lemma inv_expire [intro]: "reassembler_inv pr \<Longrightarrow> reassembler_inv (pr_expire now pr)"
  unfolding pr_expire_def by (rule inv_filter)

lemma inv_clearAssociation [intro]: "reassembler_inv pr \<Longrightarrow> reassembler_inv (pr_clearAssociation a pr)"
  unfolding pr_clearAssociation_def by (rule inv_filter)

lemma inv_clearAll [intro]: "reassembler_inv pr \<Longrightarrow> reassembler_inv (pr_clearAll pr)"
  by (simp add: reassembler_inv_def pr_clearAll_def)

lemma inv_drop [intro]: "reassembler_inv pr \<Longrightarrow> reassembler_inv (pr_drop k pr)"
  unfolding pr_drop_def AList.delete_eq by (rule inv_filter)

lemma max_drop [simp]: "pr_maxPacketSize (pr_drop k pr) = pr_maxPacketSize pr"
  by (simp add: pr_drop_def)

lemma max_expire [simp]: "pr_maxPacketSize (pr_expire now pr) = pr_maxPacketSize pr"
  by (simp add: pr_expire_def)

lemma buffered_bound:
  assumes "reassembler_inv pr"
  shows "buffered pr \<le> maxPendingPacketAssemblies * pr_maxPacketSize pr"
proof -
  have sum: "sum_list (map (\<lambda>(k, e). length (assembled (pa_frags e))) ps) \<le> length ps * m"
    if "\<forall>e \<in> snd ` set ps. length (assembled (pa_frags e)) \<le> m"
    for ps :: "(packetFragmentKey \<times> packetReassembly) list" and m
    using that by (induction ps) (auto intro: add_mono)
  have "\<forall>e \<in> snd ` set (pr_packets pr). length (assembled (pa_frags e)) \<le> pr_maxPacketSize pr"
    using assms by (auto simp: reassembler_inv_def entry_ok_def)
  from sum [OF this] have "buffered pr \<le> length (pr_packets pr) * pr_maxPacketSize pr"
    by (simp add: buffered_def)
  also have "\<dots> \<le> maxPendingPacketAssemblies * pr_maxPacketSize pr"
    using assms by (simp add: reassembler_inv_def)
  finally show ?thesis .
qed

subsection \<open>Storing a fragment\<close>

lemma assembled_update:
  "i < length fs \<Longrightarrow> fs ! i = None \<Longrightarrow>
   length (assembled (fs[i := Some p])) = length (assembled fs) + length p"
  by (induction fs arbitrary: i) (auto simp: assembled_def nth_Cons split: nat.splits)

lemma count_update:
  "i < length fs \<Longrightarrow> fs ! i = None \<Longrightarrow>
   length (filter (\<lambda>f. f \<noteq> None) (fs[i := Some p])) = Suc (length (filter (\<lambda>f. f \<noteq> None) fs))"
  by (induction fs arbitrary: i) (auto simp: nth_Cons split: nat.splits)

lemma unat_Suc_byte: "x < (y :: byte) \<Longrightarrow> unat (x + 1) = Suc (unat x)"
  using unsigned_less [of y, where ?'a = nat] by (simp add: word_less_nat_alt unat_word_ariths)

lemma entry_ok_new: "2 \<le> unat n \<Longrightarrow> entry_ok m (new_assembly now n)"
  by (auto simp: entry_ok_def new_assembly_def assembled_def word_less_nat_alt)

lemma new_assembly_total [simp]: "pa_total (new_assembly now n) = n"
  by (simp add: new_assembly_def)

definition stored_entry :: "int \<Rightarrow> packet_header \<Rightarrow> bytes \<Rightarrow> packetReassembly \<Rightarrow> packetReassembly" where
  "stored_entry now hdr payload entry = entry\<lparr>
     pa_frags := (pa_frags entry)[unat (ph_FragID hdr) := Some payload],
     pa_size := pa_size entry + length payload,
     pa_received := pa_received entry + 1,
     pa_updatedAt := now,
     pa_addr := (if ph_FragID hdr = 0 then ph_Addr hdr else pa_addr entry)\<rparr>"

lemma pr_store_unfold:
  "pr_store now key hdr payload entry pr =
     (case pa_frags entry ! unat (ph_FragID hdr) of
        Some fragment \<Rightarrow> (if fragment \<noteq> payload then pr_drop key pr else pr, None)
      | None \<Rightarrow>
          if pr_maxPacketSize pr < pa_size entry + length payload then (pr_drop key pr, None)
          else let e = stored_entry now hdr payload entry in
            if pa_received e = pa_total e then
              (pr_drop key pr, if \<not> isPacketTarget (pa_addr e) then None
               else Some (the (pa_addr e), assembled (pa_frags e)))
            else (pr\<lparr>pr_packets := AList.update key e (pr_packets pr)\<rparr>, None))"
  unfolding pr_store_def stored_entry_def by (simp only: Let_def)

lemma stored_entry_ok:
  assumes ok: "entry_ok m e" and i: "unat (ph_FragID hdr) < unat (pa_total e)"
    and none: "pa_frags e ! unat (ph_FragID hdr) = None"
    and size: "pa_size e + length payload \<le> m"
    and tgt: "ph_FragID hdr = 0 \<Longrightarrow> isPacketTarget (ph_Addr hdr)"
    and more: "pa_received (stored_entry now hdr payload e) \<noteq> pa_total e"
  shows "entry_ok m (stored_entry now hdr payload e)"
proof -
  let ?i = "unat (ph_FragID hdr)"
  have len: "?i < length (pa_frags e)" using ok i by (simp add: entry_ok_def)
  have rec: "unat (pa_received e + 1) = Suc (unat (pa_received e))"
    using ok by (intro unat_Suc_byte [of _ "pa_total e"]) (simp add: entry_ok_def)
  have "unat (pa_received e + 1) \<noteq> unat (pa_total e)"
    using more by (simp add: stored_entry_def word_unat_eq_iff)
  then have lt: "pa_received e + 1 < pa_total e"
    using ok rec by (simp add: entry_ok_def word_less_nat_alt)
  have addr: "(pa_frags e)[?i := Some payload] ! 0 \<noteq> None
      \<longrightarrow> isPacketTarget (if ph_FragID hdr = 0 then ph_Addr hdr else pa_addr e)"
    using ok tgt by (cases "ph_FragID hdr = 0") (auto simp: entry_ok_def unat_eq_zero)
  show ?thesis
    using ok size addr lt rec assembled_update [OF len none, of payload] count_update [OF len none, of payload]
    by (simp add: entry_ok_def stored_entry_def)
qed

lemma pr_store_inv:
  assumes inv: "reassembler_inv pr" and ok: "entry_ok (pr_maxPacketSize pr) e"
    and key: "map_of (pr_packets pr) key = Some e"
    and i: "unat (ph_FragID hdr) < unat (pa_total e)"
    and tgt: "ph_FragID hdr = 0 \<Longrightarrow> isPacketTarget (ph_Addr hdr)"
  shows "reassembler_inv (fst (pr_store now key hdr payload e pr))"
proof -
  let ?e = "stored_entry now hdr payload e"
  have upd: "reassembler_inv (pr\<lparr>pr_packets := AList.update key ?e (pr_packets pr)\<rparr>)"
    if "entry_ok (pr_maxPacketSize pr) ?e"
    using inv that key
    by (force simp: reassembler_inv_def length_update set_update_wf dest: map_of_SomeD)
  show ?thesis
    using inv upd stored_entry_ok [OF ok i _ _ tgt, where payload = payload and now = now]
    by (auto simp: pr_store_unfold Let_def stored_entry_def split: option.split)
qed


subsection \<open>Feeding a fragment\<close>

lemma not_malformed:
  assumes "\<not> malformed_fragment m hdr payload"
  shows "unat (ph_FragID hdr) < unat (ph_FragTotal hdr)" "length payload \<le> m"
    "unat (ph_Size hdr) = length payload" "ph_FragTotal hdr \<noteq> 1 \<Longrightarrow> 2 \<le> unat (ph_FragTotal hdr)"
proof -
  show lt: "unat (ph_FragID hdr) < unat (ph_FragTotal hdr)" and "length payload \<le> m"
    and "unat (ph_Size hdr) = length payload"
    using assms by (auto simp: malformed_fragment_def not_le word_less_nat_alt)
  show "2 \<le> unat (ph_FragTotal hdr)" if "ph_FragTotal hdr \<noteq> 1"
  proof -
    have "unat (ph_FragTotal hdr) \<noteq> 0"
      using lt by simp
    moreover have "unat (ph_FragTotal hdr) \<noteq> unat (1 :: byte)"
      using that word_unat_eq_iff by blast
    ultimately show ?thesis by simp
  qed
qed

lemma pr_feed_Some:
  "pr_feed now transport (Some hdr) payload pr =
     (if malformed_fragment (pr_maxPacketSize pr) hdr payload then (pr, None)
      else let pr = pr_expire now pr in
        if ph_FragTotal hdr = 1 then
          (if ph_FragID hdr \<noteq> 0 \<or> \<not> isPacketTarget (ph_Addr hdr) then (pr, None)
           else (pr_drop (fragment_key transport hdr) pr, Some (the (ph_Addr hdr), payload)))
        else if (ph_FragID hdr = 0) \<noteq> isPacketTarget (ph_Addr hdr) then (pr, None)
        else pr_collect now (fragment_key transport hdr) hdr payload pr)"
proof -
  have eq: "(ph_FragID hdr = 0 \<and> \<not> t) \<or> (ph_FragID hdr \<noteq> 0 \<and> t) \<longleftrightarrow> (ph_FragID hdr = 0) \<noteq> t" for t
    by blast
  show ?thesis unfolding pr_feed_def option.case eq Let_def ..
qed

lemma pr_collect_inv:
  assumes inv: "reassembler_inv pr" and ok: "\<not> malformed_fragment (pr_maxPacketSize pr) hdr payload"
    and multi: "ph_FragTotal hdr \<noteq> 1" and tgt: "(ph_FragID hdr = 0) = isPacketTarget (ph_Addr hdr)"
  shows "reassembler_inv (fst (pr_collect now key hdr payload pr))"
proof (cases "map_of (pr_packets pr) key")
  case None
  let ?e = "new_assembly now (ph_FragTotal hdr)"
  let ?pr = "pr\<lparr>pr_packets := AList.update key ?e (pr_packets pr)\<rparr>"
  have e: "entry_ok (pr_maxPacketSize pr) ?e"
    using not_malformed(4) [OF ok multi] by (rule entry_ok_new)
  have "reassembler_inv ?pr" if "length (pr_packets pr) < maxPendingPacketAssemblies"
    using inv that e by (auto simp: reassembler_inv_def length_update set_update_wf)
  then have "reassembler_inv (fst (pr_store now key hdr payload ?e ?pr))"
    if "length (pr_packets pr) < maxPendingPacketAssemblies"
    using that e not_malformed(1) [OF ok] tgt
    by (intro pr_store_inv) (auto simp: new_assembly_def)
  with None inv show ?thesis by (auto simp: pr_collect_def Let_def)
next
  case (Some e)
  then have e: "entry_ok (pr_maxPacketSize pr) e"
    using inv by (force simp: reassembler_inv_def dest: map_of_SomeD)
  have "reassembler_inv (fst (pr_store now key hdr payload e pr))" if "pa_total e = ph_FragTotal hdr"
    using inv e Some not_malformed(1) [OF ok] tgt that by (intro pr_store_inv) auto
  with Some inv show ?thesis by (auto simp: pr_collect_def)
qed

lemma pr_feed_inv [intro]:
  assumes "reassembler_inv pr"
  shows "reassembler_inv (fst (pr_feed now transport hdr payload pr))"
proof (cases hdr)
  case None
  with assms show ?thesis by (simp add: pr_feed_def)
next
  case (Some h)
  have "reassembler_inv (pr_expire now pr)" using assms by (rule inv_expire)
  then show ?thesis
    using assms pr_collect_inv [of "pr_expire now pr" h payload now "fragment_key transport h"]
    unfolding Some pr_feed_Some by (auto simp: Let_def)
qed

lemma pr_store_result:
  assumes "snd (pr_store now key hdr payload e pr) = Some (a, p)"
    and "entry_ok (pr_maxPacketSize pr) e" and "unat (ph_FragID hdr) < unat (pa_total e)"
  shows "isPacketTarget (Some a) \<and> length p \<le> pr_maxPacketSize pr"
  using assms assembled_update [of "unat (ph_FragID hdr)" "pa_frags e" payload]
  by (auto simp: pr_store_unfold Let_def stored_entry_def entry_ok_def isPacketTarget_def
      split: option.splits if_splits)

lemma pr_feed_result:
  assumes "snd (pr_feed now transport hdr payload pr) = Some (a, p)" and inv: "reassembler_inv pr"
  shows "isPacketTarget (Some a) \<and> length p \<le> pr_maxPacketSize pr"
proof (cases hdr)
  case None
  with assms show ?thesis by (simp add: pr_feed_def)
next
  case (Some h)
  let ?pr = "pr_expire now pr"
  let ?k = "fragment_key transport h"
  from assms have ok: "\<not> malformed_fragment (pr_maxPacketSize pr) h payload"
    by (auto simp: Some pr_feed_Some split: if_splits)
  show ?thesis
  proof (cases "ph_FragTotal h = 1")
    case True
    with assms ok not_malformed(2) [OF ok] show ?thesis
      by (auto simp: Some pr_feed_Some Let_def isPacketTarget_def split: if_splits option.splits)
  next
    case False
    then have c: "snd (pr_collect now ?k h payload ?pr) = Some (a, p)"
      using assms ok by (auto simp: Some pr_feed_Some Let_def split: if_splits)
    have inv': "reassembler_inv ?pr" using inv by (rule inv_expire)
    show ?thesis
    proof (cases "map_of (pr_packets ?pr) ?k")
      case None
      let ?e = "new_assembly now (ph_FragTotal h)"
      let ?pr' = "?pr\<lparr>pr_packets := AList.update ?k ?e (pr_packets ?pr)\<rparr>"
      have "entry_ok (pr_maxPacketSize pr) ?e"
        using not_malformed(4) [OF ok False] by (rule entry_ok_new)
      moreover have "snd (pr_store now ?k h payload ?e ?pr') = Some (a, p)"
        using None c by (auto simp: pr_collect_def Let_def split: if_splits)
      ultimately show ?thesis
        using pr_store_result [of now ?k h payload ?e ?pr' a p] not_malformed(1) [OF ok] by simp
    next
      case e: (Some e)
      then have "entry_ok (pr_maxPacketSize pr) e"
        using inv' by (force simp: reassembler_inv_def dest: map_of_SomeD)
      with c e show ?thesis
        using pr_store_result [of now ?k h payload e ?pr a p] not_malformed(1) [OF ok]
        by (auto simp: pr_collect_def split: if_splits)
    qed
  qed
qed


subsection \<open>The interface the association registry relies on\<close>

text \<open>
  A collector of datagrams that anybody may send: whatever is fed to it, it stays well
  formed, holds a bounded number of bytes and only ever delivers good messages. Clearing
  it, for one association or altogether, keeps it well formed.
\<close>

locale packet_collector =
  fixes inv :: "'s \<Rightarrow> bool"
    and feed :: "'m \<Rightarrow> 's \<Rightarrow> 's \<times> 'o option"
    and clear :: "'a \<Rightarrow> 's \<Rightarrow> 's"
    and reset :: "'s \<Rightarrow> 's"
    and weight :: "'s \<Rightarrow> nat"
    and bound :: nat
    and good :: "'o \<Rightarrow> bool"
  assumes feed_inv: "inv s \<Longrightarrow> inv (fst (feed m s))"
    and clear_inv: "inv s \<Longrightarrow> inv (clear a s)"
    and reset_inv: "inv s \<Longrightarrow> inv (reset s)"
    and reset_empty: "weight (reset s) = 0"
    and weight_bound: "inv s \<Longrightarrow> weight s \<le> bound"
    and feed_good: "inv s \<Longrightarrow> snd (feed m s) = Some out \<Longrightarrow> good out"
begin

lemma feeds_inv: "inv s \<Longrightarrow> inv (fold (\<lambda>m s. fst (feed m s)) ms s)"
  by (induction ms arbitrary: s) (simp_all add: feed_inv)

lemma feeds_bounded: "inv s \<Longrightarrow> weight (fold (\<lambda>m s. fst (feed m s)) ms s) \<le> bound"
  by (intro weight_bound feeds_inv)

lemma feeds_good:
  "inv s \<Longrightarrow> snd (feed m (fold (\<lambda>m s. fst (feed m s)) ms s)) = Some out \<Longrightarrow> good out"
  by (rule feed_good [OF feeds_inv])

end

type_synonym datagram = "int \<times> byte \<times> packet_header option \<times> bytes"

definition feed_datagram :: "datagram \<Rightarrow> packetReassembler \<Rightarrow> packetReassembler \<times> (address \<times> bytes) option" where
  "feed_datagram = (\<lambda>(now, transport, hdr, payload). pr_feed now transport hdr payload)"

interpretation reassembler: packet_collector reassembler_inv feed_datagram pr_clearAssociation
  pr_clearAll buffered "maxPendingPacketAssemblies * maxUdpRelayPacketSize"
  "\<lambda>(a, p). a_Type a \<noteq> AddrTypeNone \<and> length p \<le> maxUdpRelayPacketSize"
proof unfold_locales
  show "buffered s \<le> maxPendingPacketAssemblies * maxUdpRelayPacketSize" if "reassembler_inv s" for s
    using buffered_bound [OF that] that
    by (meson le_trans mult_le_mono2 reassembler_inv_def)
  show "case out of (a, p) \<Rightarrow> a_Type a \<noteq> AddrTypeNone \<and> length p \<le> maxUdpRelayPacketSize"
    if "reassembler_inv s" "snd (feed_datagram m s) = Some out" for s m out
  proof -
    obtain a p where o: "out = (a, p)" by fastforce
    obtain now tr hdr payload where m: "m = (now, tr, hdr, payload)" by (cases m)
    have "isPacketTarget (Some a) \<and> length p \<le> pr_maxPacketSize s"
      using that by (intro pr_feed_result) (simp_all add: o m feed_datagram_def)
    moreover have "pr_maxPacketSize s \<le> maxUdpRelayPacketSize"
      using that(1) by (simp add: reassembler_inv_def)
    ultimately show ?thesis by (simp add: o isPacketTarget_def)
  qed
  show "buffered (pr_clearAll s) = 0" for s
    by (simp add: buffered_def pr_clearAll_def)
qed (auto simp: feed_datagram_def split: prod.splits)

subsection \<open>Fragments in any order\<close>

definition frag_header ::
  "16 word \<Rightarrow> 16 word \<Rightarrow> bytes list \<Rightarrow> address \<Rightarrow> address option \<Rightarrow> nat \<Rightarrow> packet_header" where
  "frag_header assoc pkt fr a noaddr i =
     \<lparr>ph_AssocID = assoc, ph_PktID = pkt, ph_FragTotal = of_nat (length fr), ph_FragID = of_nat i,
      ph_Size = of_nat (length (fr ! i)), ph_Addr = (if i = 0 then Some a else noaddr)\<rparr>"

definition partial_entry :: "bytes list \<Rightarrow> address \<Rightarrow> nat set \<Rightarrow> int \<Rightarrow> packetReassembly" where
  "partial_entry fr a S t =
     \<lparr>pa_total = of_nat (length fr), pa_received = of_nat (card S),
      pa_size = (\<Sum>i\<in>S. length (fr ! i)),
      pa_frags = map (\<lambda>i. if i \<in> S then Some (fr ! i) else None) [0..<length fr],
      pa_addr = (if 0 \<in> S then Some a else None), pa_updatedAt = t\<rparr>"

fun pr_feed_all ::
  "byte \<Rightarrow> (int \<times> packet_header \<times> bytes) list \<Rightarrow> packetReassembler
   \<Rightarrow> packetReassembler \<times> (address \<times> bytes) option list" where
  "pr_feed_all tr [] pr = (pr, [])"
| "pr_feed_all tr ((now, hdr, payload) # ms) pr =
     (let (pr1, out) = pr_feed now tr (Some hdr) payload pr;
          (pr2, outs) = pr_feed_all tr ms pr1 in (pr2, out # outs))"

lemma concat_length_sum: "length (concat fr) = (\<Sum>i<length fr. length (fr ! i))"
  by (simp add: length_concat sum_list_sum_nth atLeast0LessThan)

lemma partial_size_le:
  "finite S \<Longrightarrow> S \<subseteq> {..<length fr} \<Longrightarrow> (\<Sum>i\<in>S. length (fr ! i)) \<le> length (concat fr)"
  unfolding concat_length_sum by (rule sum_mono2) auto

lemma assembled_complete:
  "assembled (map (\<lambda>i. if i \<in> {..<length fr} then Some (fr ! i) else None) [0..<length fr]) = concat fr"
proof -
  have "map (case_option [] (\<lambda>b. b)) (map (\<lambda>i. if i \<in> {..<length fr} then Some (fr ! i) else None) [0..<length fr])
      = fr" by (rule nth_equalityI) auto
  then show ?thesis by (simp add: assembled_def)
qed

lemma new_assembly_partial:
  "length fr \<le> 255 \<Longrightarrow> new_assembly now (of_nat (length fr)) = partial_entry fr a {} now"
  by (simp add: new_assembly_def partial_entry_def map_replicate_const)

lemma stored_partial:
  assumes "finite S" "i \<notin> S" "i < length fr" "length fr \<le> 255"
  shows "stored_entry now (frag_header assoc pkt fr a noaddr i) (fr ! i) (partial_entry fr a S t)
    = partial_entry fr a (insert i S) now"
proof -
  have i: "unat (of_nat i :: byte) = i" using assms by simp
  have i0: "(of_nat i :: byte) = 0 \<longleftrightarrow> i = 0"
  proof
    assume "(of_nat i :: byte) = 0"
    then have "unat (of_nat i :: byte) = unat (0 :: byte)" by (simp only:)
    then show "i = 0" unfolding i by simp
  qed simp
  have "(map (\<lambda>i. if i \<in> S then Some (fr ! i) else None) [0..<length fr])[i := Some (fr ! i)]
      = map (\<lambda>j. if j \<in> insert i S then Some (fr ! j) else None) [0..<length fr]"
    using assms(3) by (intro nth_equalityI) (auto simp: nth_list_update)
  then show ?thesis
    using assms i i0 by (simp add: stored_entry_def partial_entry_def frag_header_def add.commute)
qed


text \<open>The assembly of one packet after the fragments in \<open>S\<close> arrived.\<close>

definition collecting :: "packetReassembler \<Rightarrow> packetFragmentKey \<Rightarrow> packetReassembly \<Rightarrow> bool" where
  "collecting pr key e \<longleftrightarrow> wf_map (pr_packets pr) \<and> map_of (pr_packets pr) key = Some e"

lemma collecting_expire:
  "collecting pr key e \<Longrightarrow> now - pa_updatedAt e \<le> packetAssemblyTimeout \<Longrightarrow>
   collecting (pr_expire now pr) key e"
  by (auto simp: collecting_def pr_expire_def map_of_filter_wf)

lemma frag_header_ok:
  assumes "i < length fr" "2 \<le> length fr" "length fr \<le> 255" "length (concat fr) \<le> m" "m < 65536"
  shows "\<not> malformed_fragment m (frag_header assoc pkt fr a noaddr i) (fr ! i)"
    "ph_FragTotal (frag_header assoc pkt fr a noaddr i) \<noteq> 1"
    "(ph_FragID (frag_header assoc pkt fr a noaddr i) = 0) = (i = 0)"
proof -
  have n: "unat (of_nat (length fr) :: byte) = length fr" "unat (of_nat i :: byte) = i"
    using assms by simp_all
  have l: "length (fr ! i) \<le> length (concat fr)"
    using partial_size_le [of "{i}" fr] assms(1) by simp
  then have "unat (of_nat (length (fr ! i)) :: 16 word) = length (fr ! i)"
    using assms by (simp add: unat_of_nat)
  moreover have nz: "(of_nat (length fr) :: byte) \<noteq> 0" "(of_nat (length fr) :: byte) \<noteq> 1"
    using n(1) assms(2) by auto
  ultimately show "\<not> malformed_fragment m (frag_header assoc pkt fr a noaddr i) (fr ! i)"
    using l n assms by (auto simp: malformed_fragment_def frag_header_def word_le_nat_alt)
  show "ph_FragTotal (frag_header assoc pkt fr a noaddr i) \<noteq> 1"
    using nz(2) by (simp add: frag_header_def)
  show "(ph_FragID (frag_header assoc pkt fr a noaddr i) = 0) = (i = 0)"
    using n(2) by (auto simp: frag_header_def)
qed

lemma store_partial:
  assumes fin: "finite S" and S: "S \<subseteq> {..<length fr}" and i: "i \<notin> S" "i < length fr"
    and n: "2 \<le> length fr" "length fr \<le> 255" and max: "length (concat fr) \<le> pr_maxPacketSize pr"
    and tgt: "isPacketTarget (Some a)"
  shows "pr_store now key (frag_header assoc pkt fr a noaddr i) (fr ! i) (partial_entry fr a S t) pr =
     (if insert i S = {..<length fr} then (pr_drop key pr, Some (a, concat fr))
      else (pr\<lparr>pr_packets := AList.update key (partial_entry fr a (insert i S) now) (pr_packets pr)\<rparr>, None))"
proof -
  let ?h = "frag_header assoc pkt fr a noaddr i"
  have ui: "unat (ph_FragID ?h) = i" using i n by (simp add: frag_header_def)
  have none: "pa_frags (partial_entry fr a S t) ! i = None" using i by (simp add: partial_entry_def)
  have sub: "insert i S \<subseteq> {..<length fr}" using S i by simp
  have "pa_size (partial_entry fr a S t) + length (fr ! i) = (\<Sum>j\<in>insert i S. length (fr ! j))"
    using fin i by (simp add: partial_entry_def)
  also have "\<dots> \<le> length (concat fr)" using fin sub by (intro partial_size_le) auto
  finally have size: "\<not> pr_maxPacketSize pr < pa_size (partial_entry fr a S t) + length (fr ! i)"
    using max by simp
  have st: "stored_entry now ?h (fr ! i) (partial_entry fr a S t) = partial_entry fr a (insert i S) now"
    using fin i n by (intro stored_partial) auto
  have card: "card (insert i S) \<le> length fr"
    using card_mono [OF _ sub] by simp
  have "insert i S = {..<length fr} \<longleftrightarrow> card (insert i S) = length fr"
  proof
    assume "card (insert i S) = length fr"
    then show "insert i S = {..<length fr}" using card_subset_eq [OF finite_lessThan sub] by simp
  qed (metis card_lessThan)
  also have "\<dots> \<longleftrightarrow> pa_received (partial_entry fr a (insert i S) now) = pa_total (partial_entry fr a (insert i S) now)"
    using of_nat_byte_eq [of "card (insert i S)" "length fr"] card n by (simp add: partial_entry_def)
  finally have full: "pa_received (partial_entry fr a (insert i S) now) = pa_total (partial_entry fr a (insert i S) now)
      \<longleftrightarrow> insert i S = {..<length fr}" by simp
  have whole: "pa_addr (partial_entry fr a {..<length fr} now) = Some a
      \<and> assembled (pa_frags (partial_entry fr a {..<length fr} now)) = concat fr"
  proof -
    have "fr \<noteq> []" using n(1) by auto
    then show ?thesis using assembled_complete [of fr] by (simp add: partial_entry_def)
  qed
  show ?thesis
    using size tgt whole by (auto simp: pr_store_unfold ui none st full Let_def)
qed


text \<open>One more fragment: the first one opens the assembly, the last one completes it.\<close>

definition assembly_of ::
  "packetReassembler \<Rightarrow> packetFragmentKey \<Rightarrow> bytes list \<Rightarrow> address \<Rightarrow> nat set \<Rightarrow> int \<Rightarrow> bool" where
  "assembly_of pr key fr a S t \<longleftrightarrow> wf_map (pr_packets pr) \<and>
     (if S = {} then map_of (pr_packets pr) key = None \<and> length (pr_packets pr) < maxPendingPacketAssemblies
      else map_of (pr_packets pr) key = Some (partial_entry fr a S t))"

lemma assembly_of_expire:
  assumes "assembly_of pr key fr a S t" "now - t \<le> packetAssemblyTimeout"
  shows "assembly_of (pr_expire now pr) key fr a S t"
proof (cases "S = {}")
  case True
  with assms(1) show ?thesis
    by (auto simp: assembly_of_def pr_expire_def map_of_filter_wf intro: le_less_trans [OF length_filter_le])
next
  case False
  with assms show ?thesis
    by (auto simp: assembly_of_def pr_expire_def map_of_filter_wf partial_entry_def)
qed

lemma feed_partial:
  fixes fr a noaddr assoc pkt tr
  defines "h \<equiv> frag_header assoc pkt fr a noaddr"
    and "key \<equiv> \<lparr>fk_assocID = assoc, fk_pktID = pkt, fk_transport = tr\<rparr>"
  assumes n: "2 \<le> length fr" "length fr \<le> 255"
    and max: "length (concat fr) \<le> pr_maxPacketSize pr" "pr_maxPacketSize pr < 65536"
    and tgt: "isPacketTarget (Some a)" "\<not> isPacketTarget noaddr"
    and S: "S \<subseteq> {..<length fr}" "i \<notin> S" "i < length fr"
    and st: "assembly_of pr key fr a S t" and now: "now - t \<le> packetAssemblyTimeout"
  shows "\<exists>pr' out. pr_feed now tr (Some (h i)) (fr ! i) pr = (pr', out)
    \<and> pr_maxPacketSize pr' = pr_maxPacketSize pr
    \<and> (if insert i S = {..<length fr} then out = Some (a, concat fr) \<and> map_of (pr_packets pr') key = None
       else out = None \<and> assembly_of pr' key fr a (insert i S) now)"
proof -
  let ?pr = "pr_expire now pr"
  note ok = frag_header_ok [OF S(3) n max, of assoc pkt a noaddr, folded h_def]
  have fin: "finite S" using S(1) finite_subset by blast
  have st': "assembly_of ?pr key fr a S t" using st now by (rule assembly_of_expire)
  then have wf: "wf_map (pr_packets ?pr)" by (simp add: assembly_of_def)
  have addr: "(ph_FragID (h i) = 0) = isPacketTarget (ph_Addr (h i))"
    using ok(3) tgt by (auto simp: h_def frag_header_def)
  have k: "fragment_key tr (h i) = key" by (simp add: fragment_key_def key_def h_def frag_header_def)
  have feed: "pr_feed now tr (Some (h i)) (fr ! i) pr = pr_collect now key (h i) (fr ! i) ?pr"
    using ok(1,2) addr by (simp add: pr_feed_Some Let_def k)
  have tot: "ph_FragTotal (h i) = of_nat (length fr)" by (simp add: h_def frag_header_def)
  let ?base = "if S = {} then ?pr\<lparr>pr_packets := AList.update key (partial_entry fr a {} now) (pr_packets ?pr)\<rparr> else ?pr"
  let ?t = "if S = {} then now else t"
  have col: "pr_collect now key (h i) (fr ! i) ?pr = pr_store now key (h i) (fr ! i) (partial_entry fr a S ?t) ?base"
    using st' n new_assembly_partial [of fr now a]
    by (auto simp: pr_collect_def assembly_of_def Let_def tot partial_entry_def split: if_splits)
  have m0: "length (concat fr) \<le> pr_maxPacketSize ?base" using max(1) by simp
  have "pr_store now key (h i) (fr ! i) (partial_entry fr a S ?t) ?base =
     (if insert i S = {..<length fr} then (pr_drop key ?base, Some (a, concat fr))
      else (?base\<lparr>pr_packets := AList.update key (partial_entry fr a (insert i S) now) (pr_packets ?base)\<rparr>, None))"
    unfolding h_def by (rule store_partial [OF fin S n m0 tgt(1)])
  with trans [OF feed col] show ?thesis
    using wf by (auto simp: pr_drop_def assembly_of_def)
qed

lemma feed_partial_list:
  fixes fr a noaddr assoc pkt tr
  defines "h \<equiv> frag_header assoc pkt fr a noaddr"
    and "key \<equiv> \<lparr>fk_assocID = assoc, fk_pktID = pkt, fk_transport = tr\<rparr>"
  assumes n: "2 \<le> length fr" "length fr \<le> 255"
    and tgt: "isPacketTarget (Some a)" "\<not> isPacketTarget noaddr"
  shows "length (concat fr) \<le> pr_maxPacketSize pr \<Longrightarrow> pr_maxPacketSize pr < 65536 \<Longrightarrow>
    distinct js \<Longrightarrow> js \<noteq> [] \<Longrightarrow> set js \<union> S = {..<length fr} \<Longrightarrow> set js \<inter> S = {} \<Longrightarrow> length ts = length js \<Longrightarrow>
    (\<forall>x \<in> set (t # ts). \<forall>y \<in> set (t # ts). x - y \<le> packetAssemblyTimeout) \<Longrightarrow>
    assembly_of pr key fr a S t \<Longrightarrow>
    \<exists>pr'. pr_feed_all tr (zip ts (map (\<lambda>i. (h i, fr ! i)) js)) pr
        = (pr', replicate (length js - 1) None @ [Some (a, concat fr)])
      \<and> map_of (pr_packets pr') key = None"
proof (induction js arbitrary: pr S t ts)
  case Nil
  then show ?case by simp
next
  case (Cons i js)
  from Cons.prems obtain now ts' where ts: "ts = now # ts'" by (cases ts) auto
  have S: "S \<subseteq> {..<length fr}" "i \<notin> S" "i < length fr" and now: "now - t \<le> packetAssemblyTimeout"
    using Cons.prems by (auto simp: ts)
  obtain pr1 out where f: "pr_feed now tr (Some (h i)) (fr ! i) pr = (pr1, out)"
    and m: "pr_maxPacketSize pr1 = pr_maxPacketSize pr"
    and o: "if insert i S = {..<length fr} then out = Some (a, concat fr) \<and> map_of (pr_packets pr1) key = None
       else out = None \<and> assembly_of pr1 key fr a (insert i S) now"
    using feed_partial [OF n Cons.prems(1,2) tgt S, of assoc pkt tr t now] Cons.prems(9) now
    unfolding h_def key_def by blast
  show ?case
  proof (cases js)
    case Nil
    then have "insert i S = {..<length fr}" using Cons.prems by auto
    with o Nil show ?thesis by (simp add: ts f)
  next
    case j: (Cons j js')
    then have "j \<in> {..<length fr}" "j \<notin> insert i S" using Cons.prems by auto
    then have "insert i S \<noteq> {..<length fr}" by blast
    with o have out: "out = None" and st: "assembly_of pr1 key fr a (insert i S) now" by auto
    have "\<exists>pr'. pr_feed_all tr (zip ts' (map (\<lambda>i. (h i, fr ! i)) js)) pr1
        = (pr', replicate (length js - 1) None @ [Some (a, concat fr)])
      \<and> map_of (pr_packets pr') key = None"
      using Cons.prems m j by (intro Cons.IH [OF _ _ _ _ _ _ _ _ st]) (auto simp: ts)
    then show ?thesis using f out j by (auto simp: ts)
  qed
qed


lemma feed_any_order:
  assumes "reassembler_inv pr" and "length (pr_packets pr) < 32"
    and "map_of (pr_packets pr) \<lparr>fk_assocID = assoc, fk_pktID = pkt, fk_transport = tr\<rparr> = None"
    and "2 \<le> length fr" and "length fr \<le> 255" and "length (concat fr) \<le> pr_maxPacketSize pr"
    and "isPacketTarget (Some a)" and "\<not> isPacketTarget noaddr"
    and "distinct order" and "set order = {..<length fr}" and "length ts = length order"
    and "\<forall>x \<in> set ts. \<forall>y \<in> set ts. x - y \<le> packetAssemblyTimeout"
  shows "\<exists>pr'. pr_feed_all tr (zip ts (map (\<lambda>i. (frag_header assoc pkt fr a noaddr i, fr ! i)) order)) pr
        = (pr', replicate (length fr - 1) None @ [Some (a, concat fr)])
      \<and> map_of (pr_packets pr') \<lparr>fk_assocID = assoc, fk_pktID = pkt, fk_transport = tr\<rparr> = None"
proof -
  have len: "length order = length fr"
    using distinct_card [OF assms(9)] assms(10) by simp
  with assms(4,11) obtain t ts' where ts: "ts = t # ts'" by (cases ts) auto
  have st: "assembly_of pr \<lparr>fk_assocID = assoc, fk_pktID = pkt, fk_transport = tr\<rparr> fr a {} t"
    using assms(1-3) by (simp add: assembly_of_def reassembler_inv_def maxPendingPacketAssemblies_def)
  have max: "pr_maxPacketSize pr < 65536"
    using assms(1) by (simp add: reassembler_inv_def maxUdpRelayPacketSize_def maxSafeUdpRelayPacketSize_def)
  have ne: "order \<noteq> []" using len assms(4) by auto
  have "set order \<union> {} = {..<length fr}" "set order \<inter> {} = {}" using assms(10) by auto
  moreover have "\<forall>x \<in> set (t # ts). \<forall>y \<in> set (t # ts). x - y \<le> packetAssemblyTimeout"
    using assms(12) by (simp add: ts)
  ultimately show ?thesis
    using feed_partial_list [OF assms(4,5,7,8,6) max assms(9) ne _ _ assms(11) _ st] len by simp
qed


subsection \<open>Properties\<close>

text \<open>
  C37: a client cannot make the reassembler hold more than a fixed amount of memory. After
  any sequence of datagrams whatsoever (malformed, conflicting, replayed, of any
  association, at any times) it tracks at most 32 unfinished packets and buffers at most
  32 times the maximal packet size.
\<close>

theorem reassembler_memory_bound:
  "length (pr_packets (fold (\<lambda>d pr. fst (feed_datagram d pr)) ds (newPacketReassembler n))) \<le> 32
   \<and> buffered (fold (\<lambda>d pr. fst (feed_datagram d pr)) ds (newPacketReassembler n)) \<le> 32 * 65245"
  using reassembler.feeds_inv [OF inv_new, of ds n] reassembler.feeds_bounded [OF inv_new, of ds n]
  by (simp add: reassembler_inv_def maxPendingPacketAssemblies_def maxUdpRelayPacketSize_def
      maxSafeUdpRelayPacketSize_def)

text \<open>
  C36: reassembly is correct for every arrival order. If the fragments of one packet arrive
  in any order, each once, within the assembly timeout, while the reassembler has room,
  then nothing is delivered until the last one, which delivers the target address and the
  fragments concatenated in fragment order; and the reassembler forgets the packet.
\<close>

theorem reassembly_any_order:
  assumes "reassembler_inv pr" and "length (pr_packets pr) < 32"
    and "map_of (pr_packets pr) \<lparr>fk_assocID = assoc, fk_pktID = pkt, fk_transport = tr\<rparr> = None"
    and "2 \<le> length fr" and "length fr \<le> 255" and "length (concat fr) \<le> pr_maxPacketSize pr"
    and "isPacketTarget (Some a)" and "\<not> isPacketTarget noaddr"
    and "distinct order" and "set order = {..<length fr}" and "length ts = length order"
    and "\<forall>x \<in> set ts. \<forall>y \<in> set ts. x - y \<le> packetAssemblyTimeout"
  shows "\<exists>pr'. pr_feed_all tr (zip ts (map (\<lambda>i. (frag_header assoc pkt fr a noaddr i, fr ! i)) order)) pr
        = (pr', replicate (length fr - 1) None @ [Some (a, concat fr)])
      \<and> map_of (pr_packets pr') \<lparr>fk_assocID = assoc, fk_pktID = pkt, fk_transport = tr\<rparr> = None"
  by (rule feed_any_order [OF assms])

theorem reassembly_any_order_witness:
  "\<exists>pr'. pr_feed_all 0 (zip [5, 7] (map (\<lambda>i. (frag_header 1 2 [[10], [20, 30]]
        \<lparr>a_Type = AddrTypeIPv4, a_Host = [], a_IP = [9, 9, 9, 9], a_Port = 53\<rparr> None i, [[10], [20, 30]] ! i)) [1, 0]))
        (newPacketReassembler 1500)
      = (pr', replicate (length [[10], [20, 30 :: byte]] - 1) None
          @ [Some (\<lparr>a_Type = AddrTypeIPv4, a_Host = [], a_IP = [9, 9, 9, 9], a_Port = 53\<rparr>, concat [[10], [20, 30]])])
    \<and> map_of (pr_packets pr') \<lparr>fk_assocID = 1, fk_pktID = 2, fk_transport = 0\<rparr> = None"
proof (rule reassembly_any_order)
  show "reassembler_inv (newPacketReassembler 1500)" by (rule inv_new)
qed (auto simp: newPacketReassembler_def isPacketTarget_def tuic_consts packetAssemblyTimeout_def
    maxUdpRelayPacketSize_def maxSafeUdpRelayPacketSize_def)

end
