(* ===== verification/Tuic_Udp.thy ===== *)
theory Tuic_Udp
  imports Tuic_Reassembly
begin

text \<open>
  \<open>internal/tuic/udp_associations.go\<close> and \<open>udp_pending.go\<close>: the UDP associations of one
  QUIC connection, the relay session of each, and the packets that wait while a session is
  being opened.

  The code compares \<open>*udpAssociation\<close> pointers, since a goroutine may still hold an
  association that was removed and replaced under the same id. So associations live in an
  explicit heap: a reference is a number, \<open>ur_heap\<close> is what it points to, and
  \<open>ur_associations\<close> is the map from ids to references. Relay sessions and contexts are
  numbers too; \<open>ur_closed\<close> and \<open>ur_cancelled\<close> record the sessions closed and the contexts
  cancelled so far. \<open>ur_budget\<close> is the counter shared with the other connections of the
  inbound, when there is one.
\<close>

definition maxUdpAssociations :: nat where "maxUdpAssociations = 256"
definition udpAssociationIdleTimeout :: int where "udpAssociationIdleTimeout = 5 * 60 * 10 ^ 9"
definition maxPendingUdpBytesPerInbound :: int where "maxPendingUdpBytesPerInbound = 1048576"
definition maxPendingUdpBytesPerConn :: int where "maxPendingUdpBytesPerConn = 131072"
definition maxPendingUdpPackets :: nat where "maxPendingUdpPackets = 16"
definition udpPacketOverhead :: int where "udpPacketOverhead = 256"

record pendingUdpPacket =
  pp_target :: address
  pp_payload :: bytes

record udpRelaySession =
  us_relay :: nat
  us_responseTransport :: byte

record udpAssociation =
  ua_responseTransport :: byte
  ua_relay :: "udpRelaySession option"
  ua_lastActive :: int
  ua_opening :: bool
  ua_openCancel :: "nat option"
  ua_pending :: "pendingUdpPacket list"

record udpRegistry =
  ur_associations :: "(16 word \<times> nat) list"
  ur_heap :: "nat \<Rightarrow> udpAssociation"
  ur_next :: nat
  ur_datagramReassembler :: packetReassembler
  ur_streamReassembler :: packetReassembler
  ur_maxPacketSize :: int
  ur_pendingBytes :: int
  ur_pendingBudget :: "int option"
  ur_closed :: "nat list"
  ur_cancelled :: "nat list"

datatype udp_err = errUdpAssociationClosed | errUdpQueueFull

definition blank_association :: udpAssociation where
  "blank_association = \<lparr>ua_responseTransport = 0, ua_relay = None, ua_lastActive = 0,
     ua_opening = False, ua_openCancel = None, ua_pending = []\<rparr>"

definition newUdpAssociationRegistry :: "int \<Rightarrow> int option \<Rightarrow> udpRegistry" where
  "newUdpAssociationRegistry maxPacketSize budget =
     \<lparr>ur_associations = [], ur_heap = (\<lambda>_. blank_association), ur_next = 0,
      ur_datagramReassembler = newPacketReassembler maxPacketSize,
      ur_streamReassembler = newPacketReassembler maxPacketSize,
      ur_maxPacketSize = maxPacketSize, ur_pendingBytes = 0, ur_pendingBudget = budget,
      ur_closed = [], ur_cancelled = []\<rparr>"

abbreviation modify :: "nat \<Rightarrow> (udpAssociation \<Rightarrow> udpAssociation) \<Rightarrow> udpRegistry \<Rightarrow> udpRegistry" where
  "modify ref f r \<equiv> r\<lparr>ur_heap := (ur_heap r)(ref := f (ur_heap r ref))\<rparr>"

subsection \<open>Pending packets\<close>

definition charge :: "pendingUdpPacket \<Rightarrow> int" where
  "charge p = int (length (pp_payload p)) + udpPacketOverhead"

definition budget_reserve :: "int option \<Rightarrow> int \<Rightarrow> int option \<times> bool" where
  "budget_reserve b sz =
     (case b of
        None \<Rightarrow> (None, True)
      | Some used \<Rightarrow>
          if maxPendingUdpBytesPerInbound < used + sz then (Some used, False)
          else (Some (used + sz), True))"

definition releasePendingPacket :: "pendingUdpPacket \<Rightarrow> udpRegistry \<Rightarrow> udpRegistry" where
  "releasePendingPacket packet r = r\<lparr>
     ur_pendingBytes := ur_pendingBytes r - charge packet,
     ur_pendingBudget := map_option (\<lambda>b. b - charge packet) (ur_pendingBudget r)\<rparr>"

definition cancelOpen :: "nat \<Rightarrow> udpRegistry \<Rightarrow> udpRegistry" where
  "cancelOpen ref r =
     (case ua_openCancel (ur_heap r ref) of
        None \<Rightarrow> r
      | Some c \<Rightarrow> modify ref (\<lambda>a. a\<lparr>ua_openCancel := None\<rparr>) (r\<lparr>ur_cancelled := c # ur_cancelled r\<rparr>))"

definition clearPending :: "nat \<Rightarrow> udpRegistry \<Rightarrow> udpRegistry" where
  "clearPending ref r =
     cancelOpen ref
       (modify ref (\<lambda>a. a\<lparr>ua_pending := [], ua_opening := False\<rparr>)
         (fold releasePendingPacket (ua_pending (ur_heap r ref)) r))"

definition failPending :: "nat \<Rightarrow> udpRegistry \<Rightarrow> udpRegistry" where
  "failPending expected r = clearPending expected r"

datatype queue_result = SendNow udpRelaySession | Queued | OpenRelay nat

text \<open>\<open>opening\<close> is the context the code derives for the relay it is about to open.\<close>

definition queuePacket ::
  "nat \<Rightarrow> 16 word \<Rightarrow> nat \<Rightarrow> address \<Rightarrow> bytes \<Rightarrow> udpRegistry \<Rightarrow> udpRegistry \<times> (udp_err + queue_result)" where
  "queuePacket opening i expected target payload r =
     (if map_of (ur_associations r) i \<noteq> Some expected then (r, Inl errUdpAssociationClosed)
      else let a = ur_heap r expected; packet = \<lparr>pp_target = target, pp_payload = payload\<rparr>;
               c = charge packet in
        case (if ua_opening a then None else ua_relay a) of
          Some relay \<Rightarrow> (r, Inr (SendNow relay))
        | None \<Rightarrow>
            if maxPendingUdpPackets \<le> length (ua_pending a)
               \<or> maxPendingUdpBytesPerConn < ur_pendingBytes r + c then (r, Inl errUdpQueueFull)
            else (case budget_reserve (ur_pendingBudget r) c of
                (_, False) \<Rightarrow> (r, Inl errUdpQueueFull)
              | (b, True) \<Rightarrow>
                  let r = modify expected (\<lambda>a. a\<lparr>ua_pending := ua_pending a @ [packet]\<rparr>)
                        (r\<lparr>ur_pendingBytes := ur_pendingBytes r + c, ur_pendingBudget := b\<rparr>) in
                  if ua_opening a then (r, Inr Queued)
                  else (modify expected (\<lambda>a. a\<lparr>ua_opening := True, ua_openCancel := Some opening\<rparr>) r,
                        Inr (OpenRelay opening))))"

definition nextPending ::
  "16 word \<Rightarrow> nat \<Rightarrow> udpRegistry \<Rightarrow> udpRegistry \<times> pendingUdpPacket option" where
  "nextPending i expected r =
     (case (if map_of (ur_associations r) i \<noteq> Some expected then []
            else ua_pending (ur_heap r expected)) of
        [] \<Rightarrow> (cancelOpen expected (modify expected (\<lambda>a. a\<lparr>ua_opening := False\<rparr>) r), None)
      | packet # rest \<Rightarrow> (modify expected (\<lambda>a. a\<lparr>ua_pending := rest\<rparr>) r, Some packet))"

subsection \<open>Associations\<close>

definition closeRelay :: "nat \<Rightarrow> udpRegistry \<Rightarrow> udpRegistry" where
  "closeRelay ref r =
     (case ua_relay (ur_heap r ref) of
        None \<Rightarrow> r
      | Some s \<Rightarrow> r\<lparr>ur_closed := us_relay s # ur_closed r\<rparr>)"

definition clearReassembly :: "16 word \<Rightarrow> udpRegistry \<Rightarrow> udpRegistry" where
  "clearReassembly i r = r\<lparr>
     ur_datagramReassembler := pr_clearAssociation i (ur_datagramReassembler r),
     ur_streamReassembler := pr_clearAssociation i (ur_streamReassembler r)\<rparr>"

text \<open>Removing a registered association: its pending packets, its map entry, its fragments.\<close>

definition unregister :: "16 word \<Rightarrow> nat \<Rightarrow> udpRegistry \<Rightarrow> udpRegistry" where
  "unregister i ref r =
     clearReassembly i
       ((clearPending ref r)\<lparr>ur_associations := AList.delete i (ur_associations r)\<rparr>)"

definition expireLocked :: "int \<Rightarrow> udpRegistry \<Rightarrow> udpRegistry" where
  "expireLocked now r =
     fold (\<lambda>(i, ref) r.
         if now - ua_lastActive (ur_heap r ref) \<le> udpAssociationIdleTimeout then r
         else closeRelay ref (unregister i ref r))
       (ur_associations r) r"

definition reapIdle :: "int \<Rightarrow> udpRegistry \<Rightarrow> udpRegistry" where
  "reapIdle now r = expireLocked now r"

definition validPacketFragment :: "packet_header option \<Rightarrow> bytes \<Rightarrow> int \<Rightarrow> bool" where
  "validPacketFragment hdr payload maxPacketSize \<longleftrightarrow>
     (case hdr of
        None \<Rightarrow> False
      | Some h \<Rightarrow>
          if ph_FragTotal h = 0 \<or> ph_FragTotal h \<le> ph_FragID h \<or> unat (ph_Size h) \<noteq> length payload
             \<or> maxPacketSize < int (length payload) then False
          else if ph_FragTotal h = 1 then ph_FragID h = 0 \<and> isPacketTarget (ph_Addr h)
          else (ph_FragID h \<noteq> 0 \<or> isPacketTarget (ph_Addr h))
               \<and> (ph_FragID h = 0 \<or> \<not> isPacketTarget (ph_Addr h)))"

definition allocate :: "byte \<Rightarrow> int \<Rightarrow> 16 word \<Rightarrow> udpRegistry \<Rightarrow> udpRegistry" where
  "allocate transport now i r = r\<lparr>
     ur_heap := (ur_heap r)(ur_next r := blank_association\<lparr>ua_responseTransport := transport, ua_lastActive := now\<rparr>),
     ur_associations := AList.update i (ur_next r) (ur_associations r),
     ur_next := Suc (ur_next r)\<rparr>"

definition feedReassembler ::
  "int \<Rightarrow> byte \<Rightarrow> packet_header option \<Rightarrow> bytes \<Rightarrow> udpRegistry \<Rightarrow> udpRegistry \<times> (address \<times> bytes) option" where
  "feedReassembler now transport hdr payload r =
     (if transport = packetTransportStream then
        (case pr_feed now transport hdr payload (ur_streamReassembler r) of
           (pr, out) \<Rightarrow> (r\<lparr>ur_streamReassembler := pr\<rparr>, out))
      else
        (case pr_feed now transport hdr payload (ur_datagramReassembler r) of
           (pr, out) \<Rightarrow> (r\<lparr>ur_datagramReassembler := pr\<rparr>, out)))"

definition registry_feed ::
  "int \<Rightarrow> byte \<Rightarrow> packet_header option \<Rightarrow> bytes \<Rightarrow> udpRegistry
   \<Rightarrow> udpRegistry \<times> nat option \<times> (address \<times> bytes) option" where
  "registry_feed now transport hdr payload r =
     (if \<not> validPacketFragment hdr payload (ur_maxPacketSize r) then (r, None, None)
      else
        let r = expireLocked now r; i = ph_AssocID (the hdr) in
        case (case map_of (ur_associations r) i of
                Some ref \<Rightarrow> Some (ref, r)
              | None \<Rightarrow>
                  if maxUdpAssociations \<le> length (ur_associations r) then None
                  else Some (ur_next r, allocate transport now i r)) of
          None \<Rightarrow> (r, None, None)
        | Some (ref, r) \<Rightarrow>
            (case feedReassembler now transport hdr payload
                    (modify ref (\<lambda>a. a\<lparr>ua_lastActive := now\<rparr>) r) of
               (r, out) \<Rightarrow> (r, Some ref, out)))"

definition touch :: "16 word \<Rightarrow> nat \<Rightarrow> int \<Rightarrow> udpRegistry \<Rightarrow> udpRegistry \<times> bool" where
  "touch i expected now r =
     (if map_of (ur_associations r) i \<noteq> Some expected then (r, False)
      else (modify expected (\<lambda>a. a\<lparr>ua_lastActive := now\<rparr>) r, True))"

text \<open>
  \<open>ensureRelay\<close> releases the lock while it dials: \<open>ensure_check\<close> is the part before
  (\<open>Inr True\<close>: a relay exists), \<open>ensure_commit\<close> the part after, with the session dialled
  (\<open>Inr True\<close>: this call created the relay).
\<close>

definition ensure_check :: "16 word \<Rightarrow> nat \<Rightarrow> int \<Rightarrow> udpRegistry \<Rightarrow> udpRegistry \<times> (udp_err + bool)" where
  "ensure_check i expected now r =
     (if map_of (ur_associations r) i \<noteq> Some expected then (r, Inl errUdpAssociationClosed)
      else if ua_relay (ur_heap r expected) \<noteq> None then
        (modify expected (\<lambda>a. a\<lparr>ua_lastActive := now\<rparr>) r, Inr True)
      else (r, Inr False))"

definition ensure_commit ::
  "16 word \<Rightarrow> nat \<Rightarrow> nat \<Rightarrow> int \<Rightarrow> udpRegistry \<Rightarrow> udpRegistry \<times> (udp_err + bool)" where
  "ensure_commit i expected session now r =
     (if map_of (ur_associations r) i \<noteq> Some expected then
        (r\<lparr>ur_closed := session # ur_closed r\<rparr>, Inl errUdpAssociationClosed)
      else if ua_relay (ur_heap r expected) \<noteq> None then
        (modify expected (\<lambda>a. a\<lparr>ua_lastActive := now\<rparr>) (r\<lparr>ur_closed := session # ur_closed r\<rparr>), Inr False)
      else
        (modify expected (\<lambda>a. a\<lparr>ua_relay := Some \<lparr>us_relay = session,
             us_responseTransport = ua_responseTransport a\<rparr>, ua_lastActive := now\<rparr>) r, Inr True))"

definition dissociate :: "16 word \<Rightarrow> udpRegistry \<Rightarrow> udpRegistry \<times> bool" where
  "dissociate i r =
     (case map_of (ur_associations r) i of
        None \<Rightarrow> (clearReassembly i r, False)
      | Some ref \<Rightarrow> (closeRelay ref (unregister i ref r), True))"

definition closeAll :: "udpRegistry \<Rightarrow> udpRegistry" where
  "closeAll r =
     (let r = fold (\<lambda>(i, ref) r. closeRelay ref (clearPending ref r)) (ur_associations r) r in
      r\<lparr>ur_associations := [],
        ur_datagramReassembler := pr_clearAll (ur_datagramReassembler r),
        ur_streamReassembler := pr_clearAll (ur_streamReassembler r)\<rparr>)"

definition release :: "16 word \<Rightarrow> nat \<Rightarrow> udpRegistry \<Rightarrow> udpRegistry" where
  "release i expected r =
     closeRelay expected
       (if map_of (ur_associations r) i = Some expected then unregister i expected r else r)"


subsection \<open>What the operations do to the heap and the counters\<close>

definition pend_charge :: "udpAssociation \<Rightarrow> int" where
  "pend_charge a = sum_list (map charge (ua_pending a))"

definition acct :: "udpRegistry \<Rightarrow> int" where
  "acct r = (\<Sum>ref<ur_next r. pend_charge (ur_heap r ref))"

lemma charge_pos: "0 < charge p"
  by (simp add: charge_def udpPacketOverhead_def)

lemma pend_charge_nonneg: "0 \<le> pend_charge a"
  unfolding pend_charge_def by (rule sum_list_nonneg) (auto simp: less_imp_le charge_pos)

lemma fold_release:
  "fold releasePendingPacket ps r = r\<lparr>
     ur_pendingBytes := ur_pendingBytes r - sum_list (map charge ps),
     ur_pendingBudget := map_option (\<lambda>b. b - sum_list (map charge ps)) (ur_pendingBudget r)\<rparr>"
proof (induction ps arbitrary: r)
  case Nil
  then show ?case by (cases "ur_pendingBudget r") simp_all
next
  case (Cons p ps)
  then show ?case
    by (cases "ur_pendingBudget r") (simp_all add: releasePendingPacket_def algebra_simps)
qed

lemma clearPending_unfold:
  "clearPending ref r = r\<lparr>
     ur_heap := (ur_heap r)(ref := (ur_heap r ref)\<lparr>ua_opening := False, ua_openCancel := None, ua_pending := []\<rparr>),
     ur_pendingBytes := ur_pendingBytes r - pend_charge (ur_heap r ref),
     ur_pendingBudget := map_option (\<lambda>b. b - pend_charge (ur_heap r ref)) (ur_pendingBudget r),
     ur_cancelled := (case ua_openCancel (ur_heap r ref) of None \<Rightarrow> ur_cancelled r | Some c \<Rightarrow> c # ur_cancelled r)\<rparr>"
  by (cases "ur_heap r ref")
    (simp add: clearPending_def cancelOpen_def fold_release pend_charge_def split: option.split)

definition retire :: "16 word \<Rightarrow> nat \<Rightarrow> udpRegistry \<Rightarrow> udpRegistry" where
  "retire i ref r = closeRelay ref (unregister i ref r)"

lemma retire_fields [simp]:
  "ur_associations (retire i ref r) = AList.delete i (ur_associations r)"
  "ur_heap (retire i ref r) = (ur_heap r)(ref := (ur_heap r ref)\<lparr>ua_opening := False, ua_openCancel := None, ua_pending := []\<rparr>)"
  "ur_next (retire i ref r) = ur_next r"
  "ur_pendingBytes (retire i ref r) = ur_pendingBytes r - pend_charge (ur_heap r ref)"
  "ur_pendingBudget (retire i ref r) = map_option (\<lambda>b. b - pend_charge (ur_heap r ref)) (ur_pendingBudget r)"
  "ur_closed (retire i ref r) = (case ua_relay (ur_heap r ref) of None \<Rightarrow> ur_closed r | Some s \<Rightarrow> us_relay s # ur_closed r)"
  "ur_datagramReassembler (retire i ref r) = pr_clearAssociation i (ur_datagramReassembler r)"
  "ur_streamReassembler (retire i ref r) = pr_clearAssociation i (ur_streamReassembler r)"
  "ur_maxPacketSize (retire i ref r) = ur_maxPacketSize r"
  by (simp_all add: retire_def closeRelay_def unregister_def clearReassembly_def clearPending_unfold split: option.split)

lemma acct_upd:
  "ref < ur_next r \<Longrightarrow>
   (\<Sum>j<ur_next r. pend_charge (((ur_heap r)(ref := a)) j)) = acct r - pend_charge (ur_heap r ref) + pend_charge a"
  unfolding acct_def by (rule sum_heap_upd)

subsection \<open>The registry as a system of concurrent steps\<close>

text \<open>
  The goroutines of one connection share the registry, and each of its operations runs
  under the lock, so an execution is an interleaving of operations. \<open>sy_inflight\<close> are the
  packets popped by \<open>nextPending\<close> and not yet given back by \<open>releasePendingPacket\<close>;
  \<open>sy_inhand\<close> are sessions dialled by \<open>ensureRelay\<close> before it takes the lock again;
  \<open>sy_dialed\<close> are all sessions ever dialled; \<open>sy_others\<close> is the share of the inbound's
  budget that other connections hold, which changes freely. A goroutine that drains an
  association passes the id it got it under (\<open>st_drained\<close>).
\<close>

record udpSystem =
  sy_reg :: udpRegistry
  sy_inflight :: "pendingUdpPacket list"
  sy_inhand :: "nat list"
  sy_dialed :: "nat list"
  sy_others :: "int option"

inductive udp_step :: "udpSystem \<Rightarrow> udpSystem \<Rightarrow> bool" where
  st_feed: "udp_step s (s\<lparr>sy_reg := fst (registry_feed now tr hdr payload (sy_reg s))\<rparr>)"
| st_check: "udp_step s (s\<lparr>sy_reg := fst (ensure_check i ref now (sy_reg s))\<rparr>)"
| st_dial: "sid \<notin> set (sy_dialed s) \<Longrightarrow>
    udp_step s (s\<lparr>sy_inhand := sid # sy_inhand s, sy_dialed := sid # sy_dialed s\<rparr>)"
| st_commit: "sid \<in> set (sy_inhand s) \<Longrightarrow>
    udp_step s (s\<lparr>sy_reg := fst (ensure_commit i ref sid now (sy_reg s)), sy_inhand := remove1 sid (sy_inhand s)\<rparr>)"
| st_queue: "udp_step s (s\<lparr>sy_reg := fst (queuePacket ctx i ref target payload (sy_reg s))\<rparr>)"
| st_next: "nextPending i ref (sy_reg s) = (r, Some p) \<Longrightarrow>
    udp_step s (s\<lparr>sy_reg := r, sy_inflight := p # sy_inflight s\<rparr>)"
| st_drained: "nextPending i ref (sy_reg s) = (r, None) \<Longrightarrow>
    (\<forall>j. (j, ref) \<in> set (ur_associations (sy_reg s)) \<longrightarrow> j = i) \<Longrightarrow> udp_step s (s\<lparr>sy_reg := r\<rparr>)"
| st_finish: "p \<in> set (sy_inflight s) \<Longrightarrow>
    udp_step s (s\<lparr>sy_reg := releasePendingPacket p (sy_reg s), sy_inflight := remove1 p (sy_inflight s)\<rparr>)"
| st_dissociate: "udp_step s (s\<lparr>sy_reg := fst (dissociate i (sy_reg s))\<rparr>)"
| st_touch: "udp_step s (s\<lparr>sy_reg := fst (touch i ref now (sy_reg s))\<rparr>)"
| st_reap: "udp_step s (s\<lparr>sy_reg := reapIdle now (sy_reg s)\<rparr>)"
| st_closeAll: "udp_step s (s\<lparr>sy_reg := closeAll (sy_reg s)\<rparr>)"
| st_release: "ref < ur_next (sy_reg s) \<Longrightarrow> udp_step s (s\<lparr>sy_reg := release i ref (sy_reg s)\<rparr>)"
| st_fail: "ref < ur_next (sy_reg s) \<Longrightarrow> udp_step s (s\<lparr>sy_reg := failPending ref (sy_reg s)\<rparr>)"
| st_others: "sy_others s = Some b \<Longrightarrow> 0 \<le> b' \<Longrightarrow>
    b' + ur_pendingBytes (sy_reg s) \<le> maxPendingUdpBytesPerInbound \<Longrightarrow>
    udp_step s (s\<lparr>sy_others := Some b',
      sy_reg := (sy_reg s)\<lparr>ur_pendingBudget := Some (b' + ur_pendingBytes (sy_reg s))\<rparr>\<rparr>)"

definition initial_system :: "int \<Rightarrow> int option \<Rightarrow> udpSystem" where
  "initial_system maxSize others =
     \<lparr>sy_reg = newUdpAssociationRegistry maxSize others, sy_inflight = [], sy_inhand = [],
      sy_dialed = [], sy_others = others\<rparr>"

inductive udp_reachable :: "int \<Rightarrow> udpSystem \<Rightarrow> bool" for maxSize where
  start: "(\<forall>b. others = Some b \<longrightarrow> 0 \<le> b \<and> b \<le> maxPendingUdpBytesPerInbound) \<Longrightarrow>
    udp_reachable maxSize (initial_system maxSize others)"
| step: "udp_reachable maxSize s \<Longrightarrow> udp_step s t \<Longrightarrow> udp_reachable maxSize t"

definition registry_inv :: "udpRegistry \<Rightarrow> bool" where
  "registry_inv r \<longleftrightarrow>
     wf_map (ur_associations r)
     \<and> distinct (map snd (ur_associations r))
     \<and> (\<forall>(i, ref) \<in> set (ur_associations r). ref < ur_next r)
     \<and> length (ur_associations r) \<le> maxUdpAssociations
     \<and> (\<forall>ref. ref \<notin> snd ` set (ur_associations r) \<longrightarrow>
          ua_pending (ur_heap r ref) = [] \<and> ua_openCancel (ur_heap r ref) = None)
     \<and> (\<forall>ref. length (ua_pending (ur_heap r ref)) \<le> maxPendingUdpPackets)
     \<and> reassembler_inv (ur_datagramReassembler r)
     \<and> reassembler_inv (ur_streamReassembler r)"

definition sessions_of :: "udpRegistry \<Rightarrow> nat set" where
  "sessions_of r = {us_relay s | i ref s. (i, ref) \<in> set (ur_associations r) \<and> ua_relay (ur_heap r ref) = Some s}"

definition accounts_inv :: "udpRegistry \<Rightarrow> pendingUdpPacket list \<Rightarrow> int option \<Rightarrow> bool" where
  "accounts_inv r inflight others \<longleftrightarrow>
     ur_pendingBytes r = acct r + sum_list (map charge inflight)
     \<and> ur_pendingBytes r \<le> maxPendingUdpBytesPerConn
     \<and> ur_pendingBudget r = map_option (\<lambda>b. b + ur_pendingBytes r) others
     \<and> (\<forall>b. others = Some b \<longrightarrow> 0 \<le> b \<and> b + ur_pendingBytes r \<le> maxPendingUdpBytesPerInbound)"

definition no_leak :: "udpRegistry \<Rightarrow> nat set \<Rightarrow> nat set \<Rightarrow> bool" where
  "no_leak r inhand dialed \<longleftrightarrow> dialed \<subseteq> inhand \<union> set (ur_closed r) \<union> sessions_of r"

definition system_inv :: "udpSystem \<Rightarrow> bool" where
  "system_inv s \<longleftrightarrow>
     registry_inv (sy_reg s)
     \<and> accounts_inv (sy_reg s) (sy_inflight s) (sy_others s)
     \<and> no_leak (sy_reg s) (set (sy_inhand s)) (set (sy_dialed s))"


subsection \<open>Preservation, operation by operation\<close>

lemma registered_lt: "registry_inv r \<Longrightarrow> map_of (ur_associations r) i = Some ref \<Longrightarrow> ref < ur_next r"
  by (auto simp: registry_inv_def dest!: map_of_SomeD)

lemma registered_in: "map_of (ur_associations r) i = Some ref \<Longrightarrow> ref \<in> snd ` set (ur_associations r)"
  by (force dest: map_of_SomeD)

lemma distinct_snd_delete: "distinct (map snd m) \<Longrightarrow> distinct (map snd (AList.delete i m))"
  by (induction m) (auto simp: set_delete)

lemma other_key_other_ref:
  "distinct (map snd m) \<Longrightarrow> (i, ref) \<in> set m \<Longrightarrow> (j, ref) \<in> set m \<Longrightarrow> i = j"
  by (induction m) force+

text \<open>Changing an association without touching its pending packets or its session.\<close>

lemma modify_keeps:
  assumes "ua_pending (f (ur_heap r ref)) = ua_pending (ur_heap r ref)"
  shows "acct (modify ref f r) = acct r"
  unfolding acct_def using assms by (intro sum.cong) (auto simp: pend_charge_def)

lemma modify_registry:
  assumes "registry_inv r" and "ua_pending (f (ur_heap r ref)) = ua_pending (ur_heap r ref)"
    and "ref \<in> snd ` set (ur_associations r) \<or> ua_openCancel (f (ur_heap r ref)) = None"
  shows "registry_inv (modify ref f r)"
  using assms by (auto simp: registry_inv_def)

lemma modify_accounts:
  assumes "accounts_inv r infl oth" and "ua_pending (f (ur_heap r ref)) = ua_pending (ur_heap r ref)"
  shows "accounts_inv (modify ref f r) infl oth"
  using assms(1) modify_keeps [of f r ref, OF assms(2)] by (auto simp: accounts_inv_def)

lemma modify_leak:
  assumes "no_leak r hand dialed"
    and "\<And>s. ua_relay (ur_heap r ref) = Some s \<Longrightarrow> ua_relay (f (ur_heap r ref)) = Some s"
  shows "no_leak (modify ref f r) hand dialed"
proof -
  have "sessions_of r \<subseteq> sessions_of (modify ref f r)"
    using assms(2) by (fastforce simp: sessions_of_def)
  with assms(1) show ?thesis by (auto simp: no_leak_def)
qed

text \<open>Retiring a registered association.\<close>

lemma retire_registry:
  assumes inv: "registry_inv r" and reg: "map_of (ur_associations r) i = Some ref"
  shows "registry_inv (retire i ref r)"
proof -
  let ?m = "AList.delete i (ur_associations r)"
  have wf: "wf_map ?m" "distinct (map snd ?m)" "\<forall>(j, x) \<in> set ?m. x < ur_next r"
    "length ?m \<le> maxUdpAssociations"
    using inv by (auto simp: registry_inv_def distinct_snd_delete set_delete
        intro: order_trans [OF length_delete_le])
  have gone: "x = ref \<or> x \<notin> snd ` set (ur_associations r)" if "x \<notin> snd ` set ?m" for x
  proof (cases "x \<in> snd ` set (ur_associations r)")
    case True
    then obtain j where j: "(j, x) \<in> set (ur_associations r)" by auto
    with that have "j = i" by (force simp: set_delete)
    with j inv reg show ?thesis by (simp add: registry_inv_def map_of_wf [symmetric])
  qed simp
  have idle: "ua_pending (ur_heap r x) = [] \<and> ua_openCancel (ur_heap r x) = None"
    if "x \<notin> snd ` set (ur_associations r)" for x
    using inv that by (simp add: registry_inv_def)
  have few: "length (ua_pending (ur_heap r x)) \<le> maxPendingUdpPackets" for x
    using inv by (simp add: registry_inv_def)
  have re: "reassembler_inv (ur_datagramReassembler r)" "reassembler_inv (ur_streamReassembler r)"
    using inv by (simp_all add: registry_inv_def)
  show ?thesis
    unfolding registry_inv_def
  proof (intro conjI allI impI)
    fix x assume x: "x \<notin> snd ` set (ur_associations (retire i ref r))"
    then show "ua_pending (ur_heap (retire i ref r) x) = []" "ua_openCancel (ur_heap (retire i ref r) x) = None"
      using gone [of x] idle [of x] by auto
  qed (use wf few re in auto)
qed

lemma acct_retire: "ref < ur_next r \<Longrightarrow> acct (retire i ref r) = acct r - pend_charge (ur_heap r ref)"
proof -
  assume "ref < ur_next r"
  let ?a = "(ur_heap r ref)\<lparr>ua_opening := False, ua_openCancel := None, ua_pending := []\<rparr>"
  have "acct (retire i ref r) = (\<Sum>j<ur_next r. pend_charge (((ur_heap r)(ref := ?a)) j))"
    by (simp add: acct_def del: fun_upd_apply)
  also have "\<dots> = acct r - pend_charge (ur_heap r ref) + pend_charge ?a"
    by (rule acct_upd) fact
  finally show ?thesis by (simp add: pend_charge_def)
qed

lemma drop_charges_accounts:
  assumes "accounts_inv r infl oth" and "acct r' = acct r - c" and "0 \<le> c"
    and "ur_pendingBytes r' = ur_pendingBytes r - c"
    and "ur_pendingBudget r' = map_option (\<lambda>b. b - c) (ur_pendingBudget r)"
  shows "accounts_inv r' infl oth"
  using assms by (cases oth) (auto simp: accounts_inv_def)

lemma same_accounts:
  assumes "accounts_inv r infl oth" and "acct r' = acct r"
    and "ur_pendingBytes r' = ur_pendingBytes r" and "ur_pendingBudget r' = ur_pendingBudget r"
  shows "accounts_inv r' infl oth"
  using assms by (cases oth) (auto simp: accounts_inv_def)

lemma retire_accounts:
  assumes "accounts_inv r infl oth" and "ref < ur_next r"
  shows "accounts_inv (retire i ref r) infl oth"
  by (rule drop_charges_accounts [OF assms(1) acct_retire [OF assms(2)] pend_charge_nonneg]) simp_all

lemma retire_leak:
  assumes "no_leak r hand dialed" and "registry_inv r" and "map_of (ur_associations r) i = Some ref"
  shows "no_leak (retire i ref r) hand dialed"
proof -
  have "sessions_of r \<subseteq> sessions_of (retire i ref r) \<union> set (ur_closed (retire i ref r))"
  proof
    fix x assume "x \<in> sessions_of r"
    then obtain j ref' s where j: "(j, ref') \<in> set (ur_associations r)"
      and s: "ua_relay (ur_heap r ref') = Some s" "x = us_relay s"
      by (auto simp: sessions_of_def)
    show "x \<in> sessions_of (retire i ref r) \<union> set (ur_closed (retire i ref r))"
    proof (cases "j = i")
      case True
      with j assms(2) have "map_of (ur_associations r) i = Some ref'"
        by (simp add: registry_inv_def map_of_wf)
      with assms(3) have "ref' = ref" by simp
      with s show ?thesis by simp
    next
      case False
      with j s show ?thesis by (fastforce simp: sessions_of_def set_delete)
    qed
  qed
  moreover have "set (ur_closed r) \<subseteq> set (ur_closed (retire i ref r))"
    by (auto split: option.split)
  ultimately show ?thesis using assms(1) unfolding no_leak_def by blast
qed

text \<open>The three parts together, for the registry inside a system.\<close>

definition part_inv :: "pendingUdpPacket list \<Rightarrow> int option \<Rightarrow> nat set \<Rightarrow> nat set \<Rightarrow> udpRegistry \<Rightarrow> bool" where
  "part_inv infl oth hand dialed r \<longleftrightarrow> registry_inv r \<and> accounts_inv r infl oth \<and> no_leak r hand dialed"

lemma system_inv_part: "system_inv s \<longleftrightarrow>
    part_inv (sy_inflight s) (sy_others s) (set (sy_inhand s)) (set (sy_dialed s)) (sy_reg s)"
  by (simp add: system_inv_def part_inv_def)

lemma part_retire:
  "part_inv infl oth hand dialed r \<Longrightarrow> map_of (ur_associations r) i = Some ref \<Longrightarrow>
   part_inv infl oth hand dialed (retire i ref r)"
  by (simp add: part_inv_def retire_registry retire_accounts retire_leak registered_lt)

lemma part_modify:
  assumes "part_inv infl oth hand dialed r"
    and "ua_pending (f (ur_heap r ref)) = ua_pending (ur_heap r ref)"
    and "ref \<in> snd ` set (ur_associations r) \<or> ua_openCancel (f (ur_heap r ref)) = None"
    and "\<And>s. ua_relay (ur_heap r ref) = Some s \<Longrightarrow> ua_relay (f (ur_heap r ref)) = Some s"
  shows "part_inv infl oth hand dialed (modify ref f r)"
  using assms modify_registry [of r f ref] modify_accounts [of r infl oth f ref]
    modify_leak [of r hand dialed ref f] by (simp add: part_inv_def)

text \<open>Operations that only write the logs of closed sessions and cancelled contexts.\<close>

lemma part_logs:
  "part_inv infl oth hand dialed r \<Longrightarrow>
   part_inv infl oth hand dialed (r\<lparr>ur_cancelled := c\<rparr>)"
  "part_inv infl oth hand dialed r \<Longrightarrow> set (ur_closed r) \<subseteq> set cl \<Longrightarrow>
   part_inv infl oth hand dialed (r\<lparr>ur_closed := cl\<rparr>)"
  by (auto simp: part_inv_def registry_inv_def accounts_inv_def no_leak_def acct_def sessions_of_def)

lemma part_reassemblers:
  "part_inv infl oth hand dialed r \<Longrightarrow> reassembler_inv d \<Longrightarrow> reassembler_inv t \<Longrightarrow>
   part_inv infl oth hand dialed (r\<lparr>ur_datagramReassembler := d, ur_streamReassembler := t\<rparr>)"
  by (auto simp: part_inv_def registry_inv_def accounts_inv_def no_leak_def acct_def sessions_of_def)

lemma part_reass: "part_inv infl oth hand dialed r \<Longrightarrow>
    reassembler_inv (ur_datagramReassembler r) \<and> reassembler_inv (ur_streamReassembler r)"
  by (simp add: part_inv_def registry_inv_def)

lemma part_closeRelay:
  "part_inv infl oth hand dialed r \<Longrightarrow> part_inv infl oth hand dialed (closeRelay ref r)"
  by (auto simp: closeRelay_def split: option.split intro: part_logs)


lemma part_clearPending:
  assumes "part_inv infl oth hand dialed r" and "ref < ur_next r"
  shows "part_inv infl oth hand dialed (clearPending ref r)"
proof -
  let ?a = "(ur_heap r ref)\<lparr>ua_opening := False, ua_openCancel := None, ua_pending := []\<rparr>"
  have reg: "registry_inv r" and acc: "accounts_inv r infl oth" and leak: "no_leak r hand dialed"
    using assms(1) by (simp_all add: part_inv_def)
  have "acct (clearPending ref r) = (\<Sum>j<ur_next r. pend_charge (((ur_heap r)(ref := ?a)) j))"
    by (simp add: acct_def clearPending_unfold del: fun_upd_apply)
  then have "acct (clearPending ref r) = acct r - pend_charge (ur_heap r ref)"
    by (simp only: acct_upd [OF assms(2)]) (simp add: pend_charge_def)
  from drop_charges_accounts [OF acc this pend_charge_nonneg]
  have "accounts_inv (clearPending ref r) infl oth" by (simp add: clearPending_unfold)
  moreover have "registry_inv (clearPending ref r)"
    using reg by (auto simp: registry_inv_def clearPending_unfold)
  moreover have "ua_relay (ur_heap (clearPending ref r) x) = ua_relay (ur_heap r x)" for x
    by (simp add: clearPending_unfold)
  then have "sessions_of (clearPending ref r) = sessions_of r"
    by (simp add: sessions_of_def) (simp add: clearPending_unfold)
  then have "no_leak (clearPending ref r) hand dialed"
    using leak by (simp add: no_leak_def clearPending_unfold)
  ultimately show ?thesis by (simp add: part_inv_def)
qed

lemma part_clearReassembly:
  "part_inv infl oth hand dialed r \<Longrightarrow> part_inv infl oth hand dialed (clearReassembly i r)"
  unfolding clearReassembly_def
  using part_reass [of infl oth hand dialed r]
  by (intro part_reassemblers) auto

lemma part_allocate:
  assumes "part_inv infl oth hand dialed r" and free: "map_of (ur_associations r) i = None"
    and room: "length (ur_associations r) < maxUdpAssociations"
  shows "part_inv infl oth hand dialed (allocate tr now i r)"
proof -
  let ?m = "ur_associations r"
  have reg: "registry_inv r" and acc: "accounts_inv r infl oth" and leak: "no_leak r hand dialed"
    using assms(1) by (simp_all add: part_inv_def)
  have lt: "x < ur_next r" if "(j, x) \<in> set ?m" for j x
    using reg that by (auto simp: registry_inv_def)
  have new: "AList.update i (ur_next r) ?m = ?m @ [(i, ur_next r)]"
    using free by (rule update_new)
  have "acct (allocate tr now i r) = acct r"
    by (simp add: acct_def allocate_def pend_charge_def blank_association_def)
  then have "accounts_inv (allocate tr now i r) infl oth"
    by (rule same_accounts [OF acc]) (simp_all add: allocate_def)
  moreover have "registry_inv (allocate tr now i r)"
    using reg free room lt unfolding registry_inv_def
    by (auto simp: allocate_def new wf_map_def blank_association_def less_Suc_eq map_of_eq_None_iff
        maxUdpAssociations_def)
  moreover have "sessions_of r \<subseteq> sessions_of (allocate tr now i r)"
  proof
    fix x assume "x \<in> sessions_of r"
    then obtain j ref s where e: "(j, ref) \<in> set ?m" "ua_relay (ur_heap r ref) = Some s" "x = us_relay s"
      by (auto simp: sessions_of_def)
    with lt [of j ref] have "(j, ref) \<in> set (ur_associations (allocate tr now i r))"
      "ua_relay (ur_heap (allocate tr now i r) ref) = Some s"
      by (auto simp: allocate_def new)
    with e(3) show "x \<in> sessions_of (allocate tr now i r)"
      unfolding sessions_of_def by blast
  qed
  then have "no_leak (allocate tr now i r) hand dialed"
    using leak by (auto simp: no_leak_def allocate_def)
  ultimately show ?thesis by (simp add: part_inv_def)
qed


lemma part_expireLocked:
  assumes "part_inv infl oth hand dialed r"
  shows "part_inv infl oth hand dialed (expireLocked now r)"
proof -
  have "part_inv infl oth hand dialed
      (fold (\<lambda>(i, ref) r.
         if now - ua_lastActive (ur_heap r ref) \<le> udpAssociationIdleTimeout then r
         else closeRelay ref (unregister i ref r)) xs r)"
    if "part_inv infl oth hand dialed r" "distinct (keys xs)"
      "\<forall>(i, ref) \<in> set xs. map_of (ur_associations r) i = Some ref" for xs r
    using that
  proof (induction xs arbitrary: r)
    case (Cons x xs)
    obtain i ref where x: "x = (i, ref)" by (cases x)
    have "map_of (ur_associations r) i = Some ref" using Cons.prems x by simp
    then have "part_inv infl oth hand dialed (retire i ref r)"
      by (rule part_retire [OF Cons.prems(1)])
    moreover have "\<forall>(j, ref') \<in> set xs. map_of (ur_associations (retire i ref r)) j = Some ref'"
      using Cons.prems x by (force simp: map_of_delete image_iff)
    ultimately show ?case
      using Cons.IH [of r] Cons.IH [of "retire i ref r"] Cons.prems x by (simp add: retire_def)
  qed simp
  then show ?thesis
    using assms by (auto simp: expireLocked_def part_inv_def registry_inv_def wf_map_def)
qed

lemma expireLocked_fields:
  "ur_maxPacketSize (expireLocked now r) = ur_maxPacketSize r"
proof -
  have "ur_maxPacketSize (fold (\<lambda>(i, ref) r.
         if now - ua_lastActive (ur_heap r ref) \<le> udpAssociationIdleTimeout then r
         else closeRelay ref (unregister i ref r)) xs r) = ur_maxPacketSize r" for xs
    by (induction xs arbitrary: r) (auto simp: retire_def [symmetric])
  then show ?thesis by (simp add: expireLocked_def)
qed

lemma part_feedReassembler:
  assumes "part_inv infl oth hand dialed r"
  shows "part_inv infl oth hand dialed (fst (feedReassembler now tr hdr payload r))"
proof -
  have "reassembler_inv (ur_datagramReassembler r)" "reassembler_inv (ur_streamReassembler r)"
    using part_reass [OF assms] by simp_all
  then have "reassembler_inv (fst (pr_feed now tr hdr payload (ur_datagramReassembler r)))"
    "reassembler_inv (fst (pr_feed now tr hdr payload (ur_streamReassembler r)))" by auto
  then show ?thesis
    using assms
    by (auto simp: feedReassembler_def part_inv_def registry_inv_def accounts_inv_def no_leak_def
        acct_def sessions_of_def split: prod.splits)
qed

lemma part_touch_now:
  "part_inv infl oth hand dialed r \<Longrightarrow> ref \<in> snd ` set (ur_associations r) \<Longrightarrow>
   part_inv infl oth hand dialed (modify ref (\<lambda>a. a\<lparr>ua_lastActive := now\<rparr>) r)"
  by (rule part_modify) simp_all

lemma allocate_registers:
  "map_of (ur_associations (allocate tr now i r)) i = Some (ur_next r)"
  by (simp add: allocate_def map_of_update)

lemma part_registry_feed:
  assumes "part_inv infl oth hand dialed r"
  shows "part_inv infl oth hand dialed (fst (registry_feed now tr hdr payload r))"
proof (cases "validPacketFragment hdr payload (ur_maxPacketSize r)")
  case True
  let ?r = "expireLocked now r" and ?i = "ph_AssocID (the hdr)"
  have inv: "part_inv infl oth hand dialed ?r" using assms by (rule part_expireLocked)
  have fed: "part_inv infl oth hand dialed
      (fst (feedReassembler now tr hdr payload (modify ref (\<lambda>a. a\<lparr>ua_lastActive := now\<rparr>) r)))"
    if "part_inv infl oth hand dialed r" "map_of (ur_associations r) ?i = Some ref" for ref r
    using that by (intro part_feedReassembler part_touch_now registered_in)
  show ?thesis
  proof (cases "map_of (ur_associations ?r) ?i")
    case None
    show ?thesis
    proof (cases "maxUdpAssociations \<le> length (ur_associations ?r)")
      case False
      then have "part_inv infl oth hand dialed (allocate tr now ?i ?r)"
        by (intro part_allocate inv None) simp
      from fed [OF this allocate_registers] show ?thesis
        using True None False by (simp add: registry_feed_def Let_def case_prod_beta)
    qed (use True None inv in \<open>simp add: registry_feed_def Let_def\<close>)
  next
    case (Some ref)
    from fed [OF inv Some] True Some show ?thesis
      by (simp add: registry_feed_def Let_def case_prod_beta)
  qed
qed (use assms in \<open>simp add: registry_feed_def\<close>)


lemma part_ensure_check:
  "part_inv infl oth hand dialed r \<Longrightarrow> part_inv infl oth hand dialed (fst (ensure_check i ref now r))"
  by (auto simp: ensure_check_def intro: part_touch_now registered_in)

lemma part_touch:
  "part_inv infl oth hand dialed r \<Longrightarrow> part_inv infl oth hand dialed (fst (touch i ref now r))"
  by (auto simp: touch_def intro: part_touch_now registered_in)

lemma part_dissociate:
  "part_inv infl oth hand dialed r \<Longrightarrow> part_inv infl oth hand dialed (fst (dissociate i r))"
  using part_retire [of infl oth hand dialed r i]
  by (auto simp: dissociate_def retire_def part_clearReassembly split: option.split)

lemma part_release:
  "part_inv infl oth hand dialed r \<Longrightarrow> part_inv infl oth hand dialed (release i ref r)"
  using part_retire [of infl oth hand dialed r i ref]
  by (simp add: release_def part_closeRelay retire_def [symmetric])

text \<open>A session leaves the hands of its dialler: closed, or attached to a registered association.\<close>

lemma part_ensure_commit:
  assumes inv: "part_inv infl oth hand dialed r"
  shows "part_inv infl oth (hand - {sid}) dialed (fst (ensure_commit i ref sid now r))"
proof -
  have closed: "part_inv infl oth (hand - {sid}) dialed (r\<lparr>ur_closed := sid # ur_closed r\<rparr>)"
    using inv by (auto simp: part_inv_def registry_inv_def accounts_inv_def no_leak_def acct_def sessions_of_def)
  have attached: "part_inv infl oth (hand - {sid}) dialed (modify ref (\<lambda>a. a\<lparr>ua_relay := Some s, ua_lastActive := now\<rparr>) r)"
    if reg: "map_of (ur_associations r) i = Some ref" and none: "ua_relay (ur_heap r ref) = None"
      and s: "us_relay s = sid" for s
  proof -
    let ?f = "\<lambda>a. a\<lparr>ua_relay := Some s, ua_lastActive := now\<rparr>"
    have "part_inv infl oth hand dialed (modify ref ?f r)"
      using none by (intro part_modify inv registered_in [THEN disjI1, OF reg]) simp_all
    moreover have "(i, ref) \<in> set (ur_associations r)" using reg by (rule map_of_SomeD)
    then have "sid \<in> sessions_of (modify ref ?f r)"
      using s by (fastforce simp: sessions_of_def)
    ultimately show ?thesis by (auto simp: part_inv_def no_leak_def)
  qed
  show ?thesis
    using closed attached part_touch_now [OF closed, of ref now]
    by (auto simp: ensure_commit_def intro: registered_in)
qed

lemma part_dial:
  "part_inv infl oth hand dialed r \<Longrightarrow> part_inv infl oth (insert sid hand) (insert sid dialed) r"
  by (auto simp: part_inv_def no_leak_def)

subsection \<open>Pending packets\<close>

lemma part_push:
  assumes inv: "part_inv infl oth hand dialed r" and reg: "map_of (ur_associations r) i = Some ref"
    and room: "length (ua_pending (ur_heap r ref)) < maxPendingUdpPackets"
    and conn: "ur_pendingBytes r + charge p \<le> maxPendingUdpBytesPerConn"
    and budget: "budget_reserve (ur_pendingBudget r) (charge p) = (b, True)"
  shows "part_inv infl oth hand dialed
    (modify ref (\<lambda>a. a\<lparr>ua_pending := ua_pending a @ [p]\<rparr>)
      (r\<lparr>ur_pendingBytes := ur_pendingBytes r + charge p, ur_pendingBudget := b\<rparr>))"
    (is "part_inv _ _ _ _ ?r")
proof -
  let ?a = "(ur_heap r ref)\<lparr>ua_pending := ua_pending (ur_heap r ref) @ [p]\<rparr>"
  have ref: "ref \<in> snd ` set (ur_associations r)" using reg by (rule registered_in)
  have lt: "ref < ur_next r" using inv reg by (simp add: part_inv_def registered_lt)
  have "acct ?r = (\<Sum>j<ur_next r. pend_charge (((ur_heap r)(ref := ?a)) j))"
    by (simp add: acct_def del: fun_upd_apply)
  also have "\<dots> = acct r - pend_charge (ur_heap r ref) + pend_charge ?a" by (rule acct_upd [OF lt])
  finally have acct: "acct ?r = acct r + charge p" by (simp add: pend_charge_def)
  have acc: "accounts_inv r infl oth" using inv by (simp add: part_inv_def)
  have "accounts_inv ?r infl oth"
    unfolding accounts_inv_def acct
    using acc conn budget
    by (cases oth) (auto simp: accounts_inv_def budget_reserve_def split: if_splits)
  moreover have "registry_inv ?r"
    using inv room ref by (auto simp: part_inv_def registry_inv_def)
  moreover have "ua_relay (ur_heap ?r x) = ua_relay (ur_heap r x)" for x by simp
  then have "sessions_of ?r = sessions_of r"
    by (simp add: sessions_of_def)
  then have "no_leak ?r hand dialed"
    using inv by (simp add: part_inv_def no_leak_def del: fun_upd_apply)
  ultimately show ?thesis by (simp add: part_inv_def)
qed

lemma part_queuePacket:
  assumes inv: "part_inv infl oth hand dialed r"
  shows "part_inv infl oth hand dialed (fst (queuePacket ctx i ref target payload r))"
proof -
  let ?p = "\<lparr>pp_target = target, pp_payload = payload\<rparr>" and ?a = "ur_heap r ref"
  let ?full = "maxPendingUdpPackets \<le> length (ua_pending ?a)
    \<or> maxPendingUdpBytesPerConn < ur_pendingBytes r + charge ?p"
  show ?thesis
  proof (cases "map_of (ur_associations r) i = Some ref \<and> (ua_opening ?a \<or> ua_relay ?a = None) \<and> \<not> ?full
      \<and> snd (budget_reserve (ur_pendingBudget r) (charge ?p))")
    case True
    then have reg: "map_of (ur_associations r) i = Some ref" by simp
    obtain b where b: "budget_reserve (ur_pendingBudget r) (charge ?p) = (b, True)"
      using True by (cases "budget_reserve (ur_pendingBudget r) (charge ?p)") auto
    let ?r = "modify ref (\<lambda>a. a\<lparr>ua_pending := ua_pending a @ [?p]\<rparr>)
      (r\<lparr>ur_pendingBytes := ur_pendingBytes r + charge ?p, ur_pendingBudget := b\<rparr>)"
    have pushed: "part_inv infl oth hand dialed ?r"
      using True b by (intro part_push [OF inv reg]) auto
    have "part_inv infl oth hand dialed
        (modify ref (\<lambda>a. a\<lparr>ua_opening := True, ua_openCancel := Some ctx\<rparr>) ?r)"
      using registered_in [OF reg] by (intro part_modify pushed) simp_all
    then show ?thesis
      using True b pushed by (cases "ua_opening ?a") (simp_all add: queuePacket_def Let_def)
  next
    case False
    then have "fst (queuePacket ctx i ref target payload r) = r"
      by (auto simp: queuePacket_def Let_def split: option.splits prod.splits bool.splits)
    then show ?thesis using inv by simp
  qed
qed


lemma part_nextPending_None:
  assumes inv: "part_inv infl oth hand dialed r" and nxt: "nextPending i ref r = (r', None)"
  shows "part_inv infl oth hand dialed r'"
proof -
  let ?f = "\<lambda>a. a\<lparr>ua_opening := False, ua_openCancel := None\<rparr>"
  have idle: "part_inv infl oth hand dialed (modify ref ?f r)"
    using inv by (intro part_modify) simp_all
  have "r' = (modify ref ?f r)\<lparr>ur_cancelled :=
      (case ua_openCancel (ur_heap r ref) of None \<Rightarrow> ur_cancelled r | Some c \<Rightarrow> c # ur_cancelled r)\<rparr>"
    using nxt by (cases "ur_heap r ref")
      (auto simp: nextPending_def cancelOpen_def split: list.splits option.splits if_splits)
  with part_logs(1) [OF idle] show ?thesis by simp
qed

lemma part_nextPending_Some:
  assumes inv: "part_inv infl oth hand dialed r" and nxt: "nextPending i ref r = (r', Some p)"
  shows "part_inv (p # infl) oth hand dialed r'"
proof -
  obtain rest where reg: "map_of (ur_associations r) i = Some ref"
    and pend: "ua_pending (ur_heap r ref) = p # rest"
    and r': "r' = modify ref (\<lambda>a. a\<lparr>ua_pending := rest\<rparr>) r"
    using nxt by (auto simp: nextPending_def split: list.splits if_splits)
  let ?a = "(ur_heap r ref)\<lparr>ua_pending := rest\<rparr>"
  have ref: "ref \<in> snd ` set (ur_associations r)" using reg by (rule registered_in)
  have lt: "ref < ur_next r" using inv reg by (simp add: part_inv_def registered_lt)
  have "acct r' = (\<Sum>j<ur_next r. pend_charge (((ur_heap r)(ref := ?a)) j))"
    by (simp add: acct_def r' del: fun_upd_apply)
  also have "\<dots> = acct r - pend_charge (ur_heap r ref) + pend_charge ?a" by (rule acct_upd [OF lt])
  finally have acct: "acct r' = acct r - charge p" by (simp add: pend_charge_def pend)
  have acc: "accounts_inv r infl oth" using inv by (simp add: part_inv_def)
  then have "accounts_inv r' (p # infl) oth"
    unfolding accounts_inv_def acct by (cases oth) (auto simp: r')
  moreover have "length rest \<le> maxPendingUdpPackets"
    using inv pend unfolding part_inv_def registry_inv_def
    by (metis Suc_leD length_Cons)
  then have "registry_inv r'"
    using inv ref by (auto simp: r' part_inv_def registry_inv_def)
  moreover have "ua_relay (ur_heap r' x) = ua_relay (ur_heap r x)" for x by (simp add: r')
  then have "sessions_of r' = sessions_of r"
    by (simp add: sessions_of_def) (simp add: r')
  then have "no_leak r' hand dialed"
    using inv by (simp add: part_inv_def no_leak_def r')
  ultimately show ?thesis by (simp add: part_inv_def)
qed

lemma part_releasePendingPacket:
  assumes inv: "part_inv infl oth hand dialed r" and p: "p \<in> set infl"
  shows "part_inv (remove1 p infl) oth hand dialed (releasePendingPacket p r)"
proof -
  have acc: "accounts_inv r infl oth" using inv by (simp add: part_inv_def)
  have "acct (releasePendingPacket p r) = acct r" by (simp add: acct_def releasePendingPacket_def)
  moreover have "sum_list (map charge infl) = charge p + sum_list (map charge (remove1 p infl))"
    by (rule sum_list_map_remove1 [OF p])
  ultimately have "accounts_inv (releasePendingPacket p r) (remove1 p infl) oth"
    using acc charge_pos [of p]
    by (cases oth) (auto simp: accounts_inv_def releasePendingPacket_def)
  moreover have "registry_inv (releasePendingPacket p r)" "no_leak (releasePendingPacket p r) hand dialed"
    using inv by (simp_all add: part_inv_def registry_inv_def no_leak_def sessions_of_def releasePendingPacket_def)
  ultimately show ?thesis by (simp add: part_inv_def)
qed

subsection \<open>Closing all associations\<close>

definition close_entries :: "(16 word \<times> nat) list \<Rightarrow> udpRegistry \<Rightarrow> udpRegistry" where
  "close_entries xs r = fold (\<lambda>(i, ref) r. closeRelay ref (clearPending ref r)) xs r"

lemma closeRelay_fields [simp]:
  "ur_associations (closeRelay ref r) = ur_associations r" "ur_heap (closeRelay ref r) = ur_heap r"
  "ur_next (closeRelay ref r) = ur_next r" "ur_pendingBytes (closeRelay ref r) = ur_pendingBytes r"
  "ur_pendingBudget (closeRelay ref r) = ur_pendingBudget r"
  "ur_closed (closeRelay ref r) = (case ua_relay (ur_heap r ref) of None \<Rightarrow> ur_closed r | Some s \<Rightarrow> us_relay s # ur_closed r)"
  by (simp_all add: closeRelay_def split: option.split)

lemma close_entries_keeps:
  "ur_associations (close_entries xs r) = ur_associations r \<and> ur_next (close_entries xs r) = ur_next r
   \<and> ua_relay (ur_heap (close_entries xs r) ref) = ua_relay (ur_heap r ref)
   \<and> set (ur_closed r) \<subseteq> set (ur_closed (close_entries xs r))
   \<and> (ua_pending (ur_heap r ref) = [] \<and> ua_openCancel (ur_heap r ref) = None \<longrightarrow>
       ua_pending (ur_heap (close_entries xs r) ref) = [] \<and> ua_openCancel (ur_heap (close_entries xs r) ref) = None)"
proof (induction xs arbitrary: r)
  case (Cons x xs)
  then show ?case
    using Cons.IH [of "closeRelay (snd x) (clearPending (snd x) r)"]
    by (cases x) (auto simp: close_entries_def clearPending_unfold split: option.splits)
qed (simp add: close_entries_def)

lemma part_close_entries:
  "part_inv infl oth hand dialed r \<Longrightarrow> \<forall>(i, ref) \<in> set xs. ref < ur_next r \<Longrightarrow>
   part_inv infl oth hand dialed (close_entries xs r)"
proof (induction xs arbitrary: r)
  case (Cons x xs)
  obtain i ref where x: "x = (i, ref)" by (cases x)
  have "part_inv infl oth hand dialed (closeRelay ref (clearPending ref r))"
    using Cons.prems x by (intro part_closeRelay part_clearPending) auto
  then show ?case
    using Cons.IH [of "closeRelay ref (clearPending ref r)"] Cons.prems x
    by (simp add: close_entries_def clearPending_unfold)
qed (simp add: close_entries_def)

lemma close_entries_done:
  "(i, ref) \<in> set xs \<Longrightarrow>
   ua_pending (ur_heap (close_entries xs r) ref) = [] \<and> ua_openCancel (ur_heap (close_entries xs r) ref) = None
   \<and> (\<forall>s. ua_relay (ur_heap r ref) = Some s \<longrightarrow> us_relay s \<in> set (ur_closed (close_entries xs r)))"
proof (induction xs arbitrary: r)
  case (Cons x xs)
  let ?r = "closeRelay (snd x) (clearPending (snd x) r)"
  have step: "close_entries (x # xs) r = close_entries xs ?r"
    by (cases x) (simp add: close_entries_def)
  have relay: "ua_relay (ur_heap ?r ref) = ua_relay (ur_heap r ref)"
    by (simp add: clearPending_unfold)
  show ?case
  proof (cases "x = (i, ref)")
    case True
    then have "ua_pending (ur_heap ?r ref) = []" "ua_openCancel (ur_heap ?r ref) = None"
      "\<forall>s. ua_relay (ur_heap r ref) = Some s \<longrightarrow> us_relay s \<in> set (ur_closed ?r)"
      by (simp_all add: clearPending_unfold)
    then show ?thesis
      unfolding step using close_entries_keeps [of xs ?r ref] by blast
  next
    case False
    then have "(i, ref) \<in> set xs" using Cons.prems by auto
    from Cons.IH [OF this, of ?r] show ?thesis unfolding step relay .
  qed
qed simp


lemma part_closeAll:
  assumes inv: "part_inv infl oth hand dialed r"
  shows "part_inv infl oth hand dialed (closeAll r)"
proof -
  let ?m = "ur_associations r" and ?r = "close_entries (ur_associations r) r"
  have all: "closeAll r = ?r\<lparr>ur_associations := [],
      ur_datagramReassembler := pr_clearAll (ur_datagramReassembler ?r),
      ur_streamReassembler := pr_clearAll (ur_streamReassembler ?r)\<rparr>"
    by (simp add: closeAll_def close_entries_def Let_def)
  have part: "part_inv infl oth hand dialed ?r"
    using inv by (intro part_close_entries) (auto simp: part_inv_def registry_inv_def)
  have cleared: "ua_pending (ur_heap ?r ref) = [] \<and> ua_openCancel (ur_heap ?r ref) = None" for ref
  proof (cases "ref \<in> snd ` set ?m")
    case True
    then obtain i where "(i, ref) \<in> set ?m" by auto
    from close_entries_done [OF this, of r] show ?thesis by simp
  next
    case False
    then show ?thesis
      using inv close_entries_keeps [of ?m r ref] by (simp add: part_inv_def registry_inv_def)
  qed
  have "sessions_of ?r \<subseteq> set (ur_closed ?r)"
  proof
    fix x assume "x \<in> sessions_of ?r"
    then obtain i ref s where "(i, ref) \<in> set ?m" "ua_relay (ur_heap r ref) = Some s" "x = us_relay s"
      using close_entries_keeps [of ?m r] by (auto simp: sessions_of_def)
    then show "x \<in> set (ur_closed ?r)" using close_entries_done [of i ref ?m r] by simp
  qed
  then have "no_leak (closeAll r) hand dialed"
    using part unfolding part_inv_def no_leak_def all by auto
  moreover have "accounts_inv (closeAll r) infl oth"
  proof (rule same_accounts)
    show "accounts_inv ?r infl oth" using part by (simp add: part_inv_def)
  qed (simp_all add: all acct_def)
  moreover have "registry_inv (closeAll r)"
    using part cleared unfolding part_inv_def
    by (simp add: all registry_inv_def inv_clearAll)
  ultimately show ?thesis by (simp add: part_inv_def)
qed

lemma inv_initial:
  "(\<forall>b. others = Some b \<longrightarrow> 0 \<le> b \<and> b \<le> maxPendingUdpBytesPerInbound) \<Longrightarrow>
   system_inv (initial_system maxSize others)"
  by (cases others)
    (auto simp: system_inv_def initial_system_def newUdpAssociationRegistry_def registry_inv_def
      accounts_inv_def no_leak_def acct_def pend_charge_def blank_association_def inv_new
      maxPendingUdpBytesPerConn_def)

lemma part_others:
  "part_inv infl (Some b) hand dialed r \<Longrightarrow> 0 \<le> b' \<Longrightarrow>
   b' + ur_pendingBytes r \<le> maxPendingUdpBytesPerInbound \<Longrightarrow>
   part_inv infl (Some b') hand dialed (r\<lparr>ur_pendingBudget := Some (b' + ur_pendingBytes r)\<rparr>)"
  by (auto simp: part_inv_def registry_inv_def accounts_inv_def no_leak_def acct_def sessions_of_def)

lemma part_less_hands:
  "part_inv infl oth (hand - {sid}) dialed r \<Longrightarrow> hand - {sid} \<subseteq> hand' \<Longrightarrow> part_inv infl oth hand' dialed r"
  by (auto simp: part_inv_def no_leak_def)

lemma udp_step_inv: "udp_step s t \<Longrightarrow> system_inv s \<Longrightarrow> system_inv t"
proof (induction rule: udp_step.induct)
  case (st_commit sid s i ref now)
  have "set (sy_inhand s) - {sid} \<subseteq> set (remove1 sid (sy_inhand s))"
    by (metis DiffE in_set_remove1 singletonI subsetI)
  with st_commit show ?case
    by (auto simp: system_inv_part intro: part_less_hands part_ensure_commit)
qed (auto simp: system_inv_part reapIdle_def failPending_def
    intro: part_registry_feed part_ensure_check part_dial part_queuePacket part_nextPending_Some
      part_nextPending_None part_releasePendingPacket part_dissociate part_touch part_expireLocked
      part_closeAll part_release part_clearPending part_others)

lemma reachable_inv: "udp_reachable maxSize s \<Longrightarrow> system_inv s"
  by (induction rule: udp_reachable.induct) (auto intro: inv_initial udp_step_inv)


subsection \<open>Order of delivery\<close>

text \<open>Packets wait only while a goroutine is opening the session and draining them.\<close>

definition order_inv :: "udpRegistry \<Rightarrow> bool" where
  "order_inv r \<longleftrightarrow> (\<forall>ref. ua_pending (ur_heap r ref) \<noteq> [] \<longrightarrow> ua_opening (ur_heap r ref))"

lemma order_clear: "order_inv r \<Longrightarrow> order_inv (closeRelay ref (clearPending ref r))"
  "order_inv r \<Longrightarrow> order_inv (clearPending ref r)" "order_inv r \<Longrightarrow> order_inv (retire i ref r)"
  by (simp_all add: order_inv_def clearPending_unfold)

lemma order_fold:
  assumes "\<And>x r. order_inv r \<Longrightarrow> order_inv (f x r)"
  shows "order_inv r \<Longrightarrow> order_inv (fold f xs r)"
  by (induction xs arbitrary: r) (auto intro: assms)

lemma order_expire: "order_inv r \<Longrightarrow> order_inv (expireLocked now r)"
  unfolding expireLocked_def
  by (rule order_fold) (auto simp: retire_def [symmetric] order_clear split: prod.split)

lemma order_closeAll: "order_inv r \<Longrightarrow> order_inv (closeAll r)"
proof -
  assume "order_inv r"
  then have "order_inv (fold (\<lambda>(i, ref) r. closeRelay ref (clearPending ref r)) (ur_associations r) r)"
    by (intro order_fold) (auto simp: order_clear split: prod.split)
  then show ?thesis by (simp add: closeAll_def Let_def order_inv_def)
qed

lemma order_feed:
  assumes "order_inv r"
  shows "order_inv (fst (registry_feed now tr hdr payload r))"
  using assms order_expire [OF assms, of now]
  by (auto simp: registry_feed_def Let_def feedReassembler_def allocate_def order_inv_def
      blank_association_def split: option.splits prod.splits if_splits)

lemma order_next:
  assumes order: "order_inv r" and reg: "registry_inv r" and nxt: "nextPending i ref r = (r', out)"
    and id: "out = None \<Longrightarrow> \<forall>j. (j, ref) \<in> set (ur_associations r) \<longrightarrow> j = i"
  shows "order_inv r'"
proof (cases out)
  case None
  have "ua_pending (ur_heap r ref) = []"
  proof (cases "map_of (ur_associations r) i = Some ref")
    case True
    with nxt None show ?thesis by (auto simp: nextPending_def split: list.splits)
  next
    case False
    with reg id [OF None] have "ref \<notin> snd ` set (ur_associations r)"
      by (auto simp: registry_inv_def map_of_wf)
    with reg show ?thesis by (simp add: registry_inv_def)
  qed
  with order nxt None show ?thesis
    by (auto simp: nextPending_def cancelOpen_def order_inv_def split: list.splits option.splits if_splits)
next
  case (Some p)
  with order nxt show ?thesis
    by (auto simp: nextPending_def order_inv_def split: list.splits if_splits)
qed

lemma order_queue: "order_inv r \<Longrightarrow> order_inv (fst (queuePacket ctx i ref target payload r))"
  by (auto simp: queuePacket_def Let_def order_inv_def split: option.splits prod.splits bool.splits)

lemma udp_step_order:
  "udp_step s t \<Longrightarrow> system_inv s \<Longrightarrow> order_inv (sy_reg s) \<Longrightarrow> order_inv (sy_reg t)"
proof (induction rule: udp_step.induct)
  case (st_next i ref s r p)
  then show ?case by (auto simp: system_inv_def intro: order_next)
next
  case (st_drained i ref s r)
  then show ?case by (auto simp: system_inv_def intro: order_next)
next
  case (st_check s i ref now)
  then show ?case by (simp add: ensure_check_def order_inv_def)
next
  case (st_commit sid s i ref now)
  then show ?case by (simp add: ensure_commit_def order_inv_def)
next
  case (st_dissociate s i)
  then show ?case
    by (simp add: dissociate_def order_clear retire_def [symmetric] split: option.split)
      (simp add: clearReassembly_def order_inv_def)
next
  case (st_release ref s i)
  then show ?case
    by (simp add: release_def order_clear retire_def [symmetric]) (simp add: order_inv_def)
qed (simp_all add: order_feed order_queue reapIdle_def order_expire order_closeAll failPending_def
    order_clear, simp_all add: order_inv_def touch_def releasePendingPacket_def)

lemma reachable_order: "udp_reachable maxSize s \<Longrightarrow> order_inv (sy_reg s)"
proof (induction rule: udp_reachable.induct)
  case (start others)
  then show ?case
    by (simp add: initial_system_def newUdpAssociationRegistry_def order_inv_def blank_association_def)
next
  case (step s t)
  show ?case by (rule udp_step_order [OF step.hyps(2) reachable_inv [OF step.hyps(1)] step.IH])
qed

lemma order_SendNow:
  "order_inv r \<Longrightarrow> snd (queuePacket ctx i ref target payload r) = Inr (SendNow s) \<Longrightarrow>
   fst (queuePacket ctx i ref target payload r) = r \<and> ua_pending (ur_heap r ref) = []
   \<and> ua_relay (ur_heap r ref) = Some s"
  by (auto simp: queuePacket_def Let_def order_inv_def split: option.splits prod.splits bool.splits if_splits)

text \<open>The goroutine that opened the session drains the queue in a loop.\<close>

fun queue_all :: "nat \<Rightarrow> 16 word \<Rightarrow> nat \<Rightarrow> (address \<times> bytes) list \<Rightarrow> udpRegistry \<Rightarrow> udpRegistry option" where
  "queue_all ctx i ref [] r = Some r"
| "queue_all ctx i ref ((target, payload) # ps) r =
     (case queuePacket ctx i ref target payload r of
        (r', Inr Queued) \<Rightarrow> queue_all ctx i ref ps r'
      | (r', Inr (OpenRelay c)) \<Rightarrow> queue_all ctx i ref ps r'
      | _ \<Rightarrow> None)"

fun drain :: "nat \<Rightarrow> 16 word \<Rightarrow> nat \<Rightarrow> udpRegistry \<Rightarrow> udpRegistry \<times> (address \<times> bytes) list" where
  "drain 0 i ref r = (r, [])"
| "drain (Suc n) i ref r =
     (case nextPending i ref r of
        (r', None) \<Rightarrow> (r', [])
      | (r', Some p) \<Rightarrow>
          (case drain n i ref (releasePendingPacket p r') of
             (r'', ps) \<Rightarrow> (r'', (pp_target p, pp_payload p) # ps)))"

definition waiting :: "udpRegistry \<Rightarrow> nat \<Rightarrow> (address \<times> bytes) list" where
  "waiting r ref = map (\<lambda>p. (pp_target p, pp_payload p)) (ua_pending (ur_heap r ref))"

lemma queuePacket_appends:
  assumes "queuePacket ctx i ref target payload r = (r', Inr res)" and "\<nexists>s. res = SendNow s"
  shows "waiting r' ref = waiting r ref @ [(target, payload)] \<and> map_of (ur_associations r') i = Some ref"
  using assms
  by (auto simp: queuePacket_def Let_def waiting_def split: option.splits prod.splits bool.splits if_splits)

lemma queue_all_appends:
  "queue_all ctx i ref ps r = Some r' \<Longrightarrow> map_of (ur_associations r) i = Some ref \<Longrightarrow>
   waiting r' ref = waiting r ref @ ps \<and> map_of (ur_associations r') i = Some ref"
proof (induction ctx i ref ps r rule: queue_all.induct)
  case (2 ctx i ref target payload ps r)
  obtain r1 res where q: "queuePacket ctx i ref target payload r = (r1, res)" by fastforce
  from 2 q show ?case
    by (auto split: sum.splits queue_result.splits dest!: queuePacket_appends)
qed simp

lemma drain_all:
  "length (waiting r ref) < n \<Longrightarrow> map_of (ur_associations r) i = Some ref \<Longrightarrow>
   snd (drain n i ref r) = waiting r ref \<and> waiting (fst (drain n i ref r)) ref = []
   \<and> \<not> ua_opening (ur_heap (fst (drain n i ref r)) ref)"
proof (induction n i ref r rule: drain.induct)
  case (2 n i ref r)
  show ?case
  proof (cases "ua_pending (ur_heap r ref)")
    case Nil
    with 2 show ?thesis
      by (auto simp: nextPending_def waiting_def cancelOpen_def split: option.splits)
  next
    case (Cons p rest)
    let ?r = "modify ref (\<lambda>a. a\<lparr>ua_pending := rest\<rparr>) r"
    have next_step: "nextPending i ref r = (?r, Some p)"
      using Cons 2 by (simp add: nextPending_def)
    have w: "waiting r ref = (pp_target p, pp_payload p) # waiting (releasePendingPacket p ?r) ref"
      using Cons by (simp add: waiting_def releasePendingPacket_def)
    have "map_of (ur_associations (releasePendingPacket p ?r)) i = Some ref"
      using 2 by (simp add: releasePendingPacket_def)
    with 2(1) [OF next_step [symmetric] refl, of] 2(2) w show ?thesis
      by (simp add: next_step case_prod_beta)
  qed
qed simp


subsection \<open>Expiry\<close>

definition fresh :: "int \<Rightarrow> udpRegistry \<Rightarrow> 16 word \<times> nat \<Rightarrow> bool" where
  "fresh now r e \<longleftrightarrow> now - ua_lastActive (ur_heap r (snd e)) \<le> udpAssociationIdleTimeout"

lemma fresh_retire [simp]: "fresh now (retire i ref r) e = fresh now r e"
  by (simp add: fresh_def)

lemma expire_fold:
  "distinct (keys m) \<Longrightarrow> distinct (keys xs) \<Longrightarrow> set xs \<subseteq> set m \<Longrightarrow> ur_associations r = m \<Longrightarrow>
   ur_associations (fold (\<lambda>(i, ref) r. if fresh now r (i, ref) then r else retire i ref r) xs r)
     = filter (\<lambda>e. e \<in> set xs \<longrightarrow> fresh now r e) m"
proof (induction xs arbitrary: r m)
  case Nil
  then show ?case by simp
next
  case (Cons x xs)
  obtain i ref where x: "x = (i, ref)" by (cases x)
  let ?m = "filter (\<lambda>e. fst e \<noteq> i) m"
  have i: "e = x" if "e \<in> set m" "fst e = i" for e
  proof -
    have "x \<in> set m" using Cons.prems(3) by simp
    moreover have "inj_on fst (set m)" using Cons.prems(1) by (simp add: distinct_map)
    moreover have "fst e = fst x" using that x by simp
    ultimately show ?thesis using that(1) by (metis inj_onD)
  qed
  have new: "x \<notin> set xs" using Cons.prems(2) x by force
  show ?case
  proof (cases "fresh now r x")
    case True
    have "filter (\<lambda>e. e \<in> set xs \<longrightarrow> fresh now r e) m = filter (\<lambda>e. e \<in> set (x # xs) \<longrightarrow> fresh now r e) m"
      using True by (auto intro: filter_cong)
    with Cons.IH [of m r] Cons.prems True x show ?thesis by auto
  next
    case False
    have "set xs \<subseteq> set ?m" using Cons.prems x by (force simp: image_iff)
    moreover have "ur_associations (retire i ref r) = ?m"
      using Cons.prems by (auto simp: AList.delete_eq intro: filter_cong)
    ultimately have "ur_associations (fold (\<lambda>(i, ref) r. if fresh now r (i, ref) then r else retire i ref r) (x # xs) r)
        = filter (\<lambda>e. e \<in> set xs \<longrightarrow> fresh now r e) ?m"
      using Cons.IH [of ?m "retire i ref r"] Cons.prems False x by (simp add: distinct_map_filter)
    also have "\<dots> = filter (\<lambda>e. e \<in> set (x # xs) \<longrightarrow> fresh now r e) m"
      unfolding filter_filter
    proof (rule filter_cong [OF refl])
      fix e assume "e \<in> set m"
      then have "fst e = i \<longleftrightarrow> e = x" using i [of e] x by (metis fst_conv)
      with False show "(fst e \<noteq> i \<and> (e \<in> set xs \<longrightarrow> fresh now r e)) = (e \<in> set (x # xs) \<longrightarrow> fresh now r e)"
        by auto
    qed
    finally show ?thesis .
  qed
qed

lemma expireLocked_exact:
  "wf_map (ur_associations r) \<Longrightarrow>
   ur_associations (expireLocked now r) = filter (fresh now r) (ur_associations r)"
proof -
  assume "wf_map (ur_associations r)"
  moreover have "expireLocked now r
      = fold (\<lambda>(i, ref) r. if fresh now r (i, ref) then r else retire i ref r) (ur_associations r) r"
    unfolding expireLocked_def fresh_def retire_def by simp
  ultimately show ?thesis
    using expire_fold [of "ur_associations r" "ur_associations r" r now]
    by (auto simp: wf_map_def intro: filter_cong)
qed

section \<open>Properties\<close>

text \<open>A reachable state with one association and one packet waiting for its session.\<close>

definition demo_target :: address where
  "demo_target = \<lparr>a_Type = AddrTypeIPv4, a_Host = [], a_IP = [10, 0, 0, 1], a_Port = 53\<rparr>"

definition demo_header :: packet_header where
  "demo_header = \<lparr>ph_AssocID = 7, ph_PktID = 1, ph_FragTotal = 1, ph_FragID = 0, ph_Size = 2,
     ph_Addr = Some demo_target\<rparr>"

definition demo_fed :: udpSystem where
  "demo_fed = (let s = initial_system 1500 (Some 1000) in
     s\<lparr>sy_reg := fst (registry_feed 5 packetTransportDatagram (Some demo_header) [1, 2] (sy_reg s))\<rparr>)"

definition demo_queued :: udpSystem where
  "demo_queued = demo_fed\<lparr>sy_reg := fst (queuePacket 1 7 0 demo_target [1, 2] (sy_reg demo_fed))\<rparr>"

lemma demo_reachable: "udp_reachable 1500 demo_queued"
proof -
  have "udp_reachable 1500 (initial_system 1500 (Some 1000))"
    by (rule udp_reachable.start) (simp add: maxPendingUdpBytesPerInbound_def)
  then have "udp_reachable 1500 demo_fed"
    unfolding demo_fed_def Let_def by (rule udp_reachable.step) (rule udp_step.st_feed)
  then show ?thesis
    unfolding demo_queued_def by (rule udp_reachable.step) (rule udp_step.st_queue)
qed

lemmas udp_demo_defs = demo_queued_def demo_fed_def demo_header_def demo_target_def initial_system_def
  newUdpAssociationRegistry_def registry_feed_def validPacketFragment_def isPacketTarget_def
  expireLocked_def allocate_def blank_association_def feedReassembler_def queuePacket_def
  charge_def budget_reserve_def udpPacketOverhead_def maxUdpAssociations_def maxPendingUdpPackets_def
  maxPendingUdpBytesPerConn_def maxPendingUdpBytesPerInbound_def packetTransportDatagram_def
  packetTransportStream_def Let_def

lemma demo_state:
  "ur_pendingBytes (sy_reg demo_queued) = 258" "ur_associations (sy_reg demo_queued) = [(7, 0)]"
  "sy_inflight demo_queued = []" "sy_inhand demo_queued = []" "sy_others demo_queued = Some 1000"
  "ua_lastActive (ur_heap (sy_reg demo_queued) 0) = 5"
  "waiting (sy_reg demo_queued) 0 = [(demo_target, [1, 2])]"
  by (simp_all add: udp_demo_defs waiting_def AddrTypeIPv4_def AddrTypeNone_def split: prod.split)


text \<open>
  C34: whatever the interleaving of the goroutines of a connection, it holds at most 256 UDP
  associations with at most 16 waiting packets each; the bytes it accounts for waiting packets
  lie between 0 and 128 KiB, and the inbound's shared budget between 0 and 1 MiB.
\<close>

theorem udp_registry_bounds:
  assumes "udp_reachable maxSize s"
  shows "length (ur_associations (sy_reg s)) \<le> 256
    \<and> length (ua_pending (ur_heap (sy_reg s) ref)) \<le> 16
    \<and> 0 \<le> ur_pendingBytes (sy_reg s) \<and> ur_pendingBytes (sy_reg s) \<le> 131072
    \<and> (\<forall>b \<in> set_option (ur_pendingBudget (sy_reg s)). 0 \<le> b \<and> b \<le> 1048576)"
proof -
  have reg: "registry_inv (sy_reg s)" and acc: "accounts_inv (sy_reg s) (sy_inflight s) (sy_others s)"
    using reachable_inv [OF assms] by (simp_all add: system_inv_def)
  have "0 \<le> acct (sy_reg s)"
    unfolding acct_def by (rule sum_nonneg) (rule pend_charge_nonneg)
  moreover have "0 \<le> sum_list (map charge (sy_inflight s))"
    by (rule sum_list_nonneg) (auto simp: less_imp_le charge_pos)
  ultimately have "0 \<le> ur_pendingBytes (sy_reg s)" using acc by (simp add: accounts_inv_def)
  moreover have "b \<le> 1048576 \<and> 0 \<le> b" if "ur_pendingBudget (sy_reg s) = Some b" for b
    using acc that calculation
    by (cases "sy_others s") (auto simp: accounts_inv_def maxPendingUdpBytesPerInbound_def)
  ultimately show ?thesis
    using reg acc
    by (auto simp: registry_inv_def accounts_inv_def maxUdpAssociations_def maxPendingUdpPackets_def
        maxPendingUdpBytesPerConn_def)
qed

theorem udp_registry_bounds_witness:
  "length (ur_associations (sy_reg demo_queued)) = 1
   \<and> ur_pendingBytes (sy_reg demo_queued) = 258 \<and> 0 \<le> ur_pendingBytes (sy_reg demo_queued)"
  using udp_registry_bounds [OF demo_reachable] by (simp add: demo_state)

text \<open>
  C33: the accounting of waiting packets is exact. Closing the connection in any reachable
  state leaves charged exactly the packets a goroutine has popped and not yet given back, and
  the shared budget is what the other connections hold plus these; with none in flight the
  connection gives back everything it took.
\<close>

theorem udp_pending_accounting:
  assumes "udp_reachable maxSize s"
  shows "ur_pendingBytes (closeAll (sy_reg s)) = sum_list (map charge (sy_inflight s))
    \<and> ur_pendingBudget (closeAll (sy_reg s))
      = map_option (\<lambda>b. b + sum_list (map charge (sy_inflight s))) (sy_others s)"
proof -
  have "udp_reachable maxSize (s\<lparr>sy_reg := closeAll (sy_reg s)\<rparr>)"
    using assms by (rule udp_reachable.step) (rule udp_step.st_closeAll)
  from reachable_inv [OF this]
  have reg: "registry_inv (closeAll (sy_reg s))"
    and acc: "accounts_inv (closeAll (sy_reg s)) (sy_inflight s) (sy_others s)"
    by (simp_all add: system_inv_def)
  have "ur_associations (closeAll (sy_reg s)) = []" by (simp add: closeAll_def Let_def)
  with reg have "acct (closeAll (sy_reg s)) = 0"
    by (simp add: registry_inv_def acct_def pend_charge_def)
  with acc show ?thesis by (cases "sy_others s") (simp_all add: accounts_inv_def)
qed

theorem udp_pending_accounting_witness:
  "ur_pendingBytes (sy_reg demo_queued) = 258
   \<and> ur_pendingBytes (closeAll (sy_reg demo_queued)) = 0
   \<and> ur_pendingBudget (closeAll (sy_reg demo_queued)) = Some 1000"
  using udp_pending_accounting [OF demo_reachable] by (simp add: demo_state)

text \<open>
  C32: no relay session leaks. In any reachable state every SOCKS session ever dialled is in
  the hands of the goroutine that dialled it, closed, or attached to a registered association;
  so after the connection's \<open>closeAll\<close> all sessions not in hand are closed.
\<close>

theorem udp_sessions_not_leaked:
  assumes "udp_reachable maxSize s"
  shows "set (sy_dialed s) \<subseteq> set (sy_inhand s) \<union> set (ur_closed (sy_reg s)) \<union> sessions_of (sy_reg s)
    \<and> set (sy_dialed s) - set (sy_inhand s) \<subseteq> set (ur_closed (closeAll (sy_reg s)))"
proof -
  have "udp_reachable maxSize (s\<lparr>sy_reg := closeAll (sy_reg s)\<rparr>)"
    using assms by (rule udp_reachable.step) (rule udp_step.st_closeAll)
  then have "no_leak (closeAll (sy_reg s)) (set (sy_inhand s)) (set (sy_dialed s))"
    using reachable_inv by (fastforce simp: system_inv_def)
  moreover have "sessions_of (closeAll (sy_reg s)) = {}"
    by (simp add: sessions_of_def closeAll_def Let_def)
  ultimately show ?thesis
    using reachable_inv [OF assms] by (auto simp: system_inv_def no_leak_def)
qed

definition demo_dialed :: udpSystem where
  "demo_dialed = demo_queued\<lparr>sy_dialed := [4],
     sy_reg := fst (ensure_commit 7 0 4 6 (sy_reg demo_queued)), sy_inhand := []\<rparr>"

lemma demo_dialed_reachable: "udp_reachable 1500 demo_dialed"
proof -
  let ?s = "demo_queued\<lparr>sy_inhand := 4 # sy_inhand demo_queued, sy_dialed := 4 # sy_dialed demo_queued\<rparr>"
  have none: "sy_dialed demo_queued = []"
    by (simp add: demo_queued_def demo_fed_def initial_system_def Let_def)
  then have "udp_reachable 1500 ?s"
    by (intro udp_reachable.step [OF demo_reachable] udp_step.st_dial) simp
  then have "udp_reachable 1500 (?s\<lparr>sy_reg := fst (ensure_commit 7 0 4 6 (sy_reg ?s)),
      sy_inhand := remove1 4 (sy_inhand ?s)\<rparr>)"
    by (rule udp_reachable.step) (rule udp_step.st_commit, simp)
  then show ?thesis by (simp add: demo_dialed_def demo_state none)
qed

theorem udp_sessions_not_leaked_witness:
  "{4} \<subseteq> set (ur_closed (closeAll (sy_reg demo_dialed)))"
  using udp_sessions_not_leaked [OF demo_dialed_reachable]
  by (simp add: demo_dialed_def demo_state)



text \<open>
  reaping removes exactly the associations idle for more than five minutes, and closes the
  session of each one it removes.
\<close>

theorem reapIdle_exact:
  assumes "udp_reachable maxSize s"
  shows "ur_associations (reapIdle now (sy_reg s))
      = filter (\<lambda>(i, ref). now - ua_lastActive (ur_heap (sy_reg s) ref) \<le> 300 * 10 ^ 9) (ur_associations (sy_reg s))
    \<and> sessions_of (sy_reg s) \<subseteq> set (ur_closed (reapIdle now (sy_reg s))) \<union> sessions_of (reapIdle now (sy_reg s))"
proof -
  have inv: "system_inv s" by (rule reachable_inv [OF assms])
  then have "part_inv (sy_inflight s) (sy_others s) {} (sessions_of (sy_reg s)) (sy_reg s)"
    by (simp add: part_inv_def system_inv_def no_leak_def)
  from part_expireLocked [OF this, of now]
  have "no_leak (reapIdle now (sy_reg s)) {} (sessions_of (sy_reg s))"
    by (simp add: part_inv_def reapIdle_def)
  moreover have "wf_map (ur_associations (sy_reg s))"
    using inv by (simp add: system_inv_def registry_inv_def)
  ultimately show ?thesis
    using expireLocked_exact [of "sy_reg s" now]
    by (auto simp: reapIdle_def no_leak_def fresh_def udpAssociationIdleTimeout_def intro: filter_cong)
qed

theorem reapIdle_exact_witness:
  "ur_associations (reapIdle (300 * 10 ^ 9 + 5) (sy_reg demo_queued)) = [(7, 0)]
   \<and> ur_associations (reapIdle (300 * 10 ^ 9 + 6) (sy_reg demo_queued)) = []"
  using reapIdle_exact [OF demo_reachable] by (simp add: demo_state)

end
