(* ===== verification/Tuic_Auth.thy ===== *)
theory Tuic_Auth
  imports Go_Prelude
begin

text \<open>
  \<open>internal/tuic/auth.go\<close>: the users of an inbound, token authentication, and the traffic
  counters that survive a user's revocation until its last session has ended.

  The code hands out \<open>*User\<close> pointers and promises that a configuration update keeps the
  pointer, so users live in an explicit heap: \<open>rg_heap\<close> maps a reference to the user it points
  to, \<open>rg_users\<close> is the map from UUIDs to references and \<open>rg_retired\<close> the set of references
  revoked but not yet drained. Counters are unbounded integers; the code's 64-bit counters are
  reset at every collection.

  \<open>google/uuid\<close> is not part of the repository: \<open>parse\<close> stands for \<open>uuid.Parse\<close> and \<open>render\<close>
  for \<open>UUID.String\<close>. The TLS library's keying-material exporter is a field of the connection
  state.
\<close>

record TuicClientSettings =
  cs_TrafficID :: int
  cs_UUID :: string
  cs_Password :: string
  cs_Email :: string

record User =
  u_TrafficID :: int
  u_UUID :: bytes
  u_UUIDStr :: string
  u_Password :: string
  u_Email :: string
  u_BytesUp :: int
  u_BytesDown :: int
  u_sessions :: int

record UserRegistry =
  rg_users :: "(bytes \<times> nat) list"
  rg_retired :: "nat list"
  rg_heap :: "nat \<Rightarrow> User"
  rg_next :: nat

datatype auth_err = ErrUserNotFound | ErrAuthFailed | ErrExport string | ErrInvalidTLSState
  | ErrInvalidUUID | ErrDuplicateUUID

definition blank_user :: User where
  "blank_user = \<lparr>u_TrafficID = 0, u_UUID = [], u_UUIDStr = [], u_Password = [], u_Email = [],
     u_BytesUp = 0, u_BytesDown = 0, u_sessions = 0\<rparr>"

definition NewUserRegistry :: UserRegistry where
  "NewUserRegistry = \<lparr>rg_users = [], rg_retired = [], rg_heap = (\<lambda>_. blank_user), rg_next = 0\<rparr>"

abbreviation live :: "UserRegistry \<Rightarrow> nat list" where
  "live r \<equiv> map snd (rg_users r) @ rg_retired r"

subsection \<open>Updating the users\<close>

definition newUser :: "(bytes \<Rightarrow> string) \<Rightarrow> bytes \<Rightarrow> TuicClientSettings \<Rightarrow> User" where
  "newUser render i c = \<lparr>u_TrafficID = cs_TrafficID c, u_UUID = i, u_UUIDStr = render i,
     u_Password = cs_Password c, u_Email = cs_Email c, u_BytesUp = 0, u_BytesDown = 0, u_sessions = 0\<rparr>"

definition same_settings :: "User \<Rightarrow> TuicClientSettings \<Rightarrow> bool" where
  "same_settings u c \<longleftrightarrow>
     u_Password u = cs_Password c \<and> u_Email u = cs_Email c \<and> u_TrafficID u = cs_TrafficID c"

definition new_ref :: "User \<Rightarrow> UserRegistry \<Rightarrow> UserRegistry" where
  "new_ref u r = r\<lparr>rg_heap := (rg_heap r)(rg_next r := u), rg_next := Suc (rg_next r)\<rparr>"

text \<open>One turn of the loop over the clients: the new map, the users revoked so far, the registry.\<close>

definition set_client ::
  "(string \<Rightarrow> bytes option) \<Rightarrow> (bytes \<Rightarrow> string) \<Rightarrow> TuicClientSettings
   \<Rightarrow> (bytes \<times> nat) list \<times> nat list \<times> UserRegistry \<Rightarrow> (bytes \<times> nat) list \<times> nat list \<times> UserRegistry" where
  "set_client parse render c = (\<lambda>(newMap, revoked, r).
     case parse (cs_UUID c) of
       None \<Rightarrow> (newMap, revoked, r)
     | Some i \<Rightarrow>
         (case map_of (rg_users r) i of
            Some existing \<Rightarrow>
              if same_settings (rg_heap r existing) c then (AList.update i existing newMap, revoked, r)
              else (AList.update i (rg_next r) newMap, revoked @ [existing],
                    new_ref (newUser render i c) (r\<lparr>rg_retired := List.insert existing (rg_retired r)\<rparr>))
          | None \<Rightarrow>
              (AList.update i (rg_next r) newMap, revoked, new_ref (newUser render i c) r)))"

definition SetUsers ::
  "(string \<Rightarrow> bytes option) \<Rightarrow> (bytes \<Rightarrow> string) \<Rightarrow> TuicClientSettings list \<Rightarrow> UserRegistry
   \<Rightarrow> UserRegistry \<times> nat list" where
  "SetUsers parse render clients r =
     (case fold (set_client parse render) clients ([], [], r) of
        (newMap, revoked, r) \<Rightarrow>
          let gone = map snd (filter (\<lambda>(i, _). map_of newMap i = None) (rg_users r)) in
          (r\<lparr>rg_retired := fold List.insert gone (rg_retired r), rg_users := newMap\<rparr>, revoked @ gone))"

fun validate_from :: "(string \<Rightarrow> bytes option) \<Rightarrow> bytes set \<Rightarrow> TuicClientSettings list \<Rightarrow> auth_err option" where
  "validate_from parse seen [] = None"
| "validate_from parse seen (client # rest) =
     (case parse (cs_UUID client) of
        None \<Rightarrow> Some ErrInvalidUUID
      | Some i \<Rightarrow> if i \<in> seen then Some ErrDuplicateUUID else validate_from parse (insert i seen) rest)"

definition ValidateClients :: "(string \<Rightarrow> bytes option) \<Rightarrow> TuicClientSettings list \<Rightarrow> auth_err option" where
  "ValidateClients parse clients = validate_from parse {} clients"

subsection \<open>Traffic\<close>

record ClientTrafficDelta =
  d_TrafficID :: int
  d_Email :: string
  d_UUID :: string
  d_InboundID :: int
  d_Up :: int
  d_Down :: int

definition AddTestTraffic :: "string \<Rightarrow> int \<Rightarrow> int \<Rightarrow> UserRegistry \<Rightarrow> UserRegistry \<times> bool" where
  "AddTestTraffic email up down r =
     (case List.find (\<lambda>(_, ref). u_Email (rg_heap r ref) = email) (rg_users r) of
        None \<Rightarrow> (r, False)
      | Some (_, ref) \<Rightarrow>
          (r\<lparr>rg_heap := (rg_heap r)(ref := (rg_heap r ref)\<lparr>u_BytesUp := u_BytesUp (rg_heap r ref) + up,
             u_BytesDown := u_BytesDown (rg_heap r ref) + down\<rparr>)\<rparr>, True))"

definition collect_user :: "bool \<Rightarrow> nat \<Rightarrow> UserRegistry \<times> ClientTrafficDelta list
    \<Rightarrow> UserRegistry \<times> ClientTrafficDelta list" where
  "collect_user is_retired ref = (\<lambda>(r, deltas).
     let u = rg_heap r ref; up = u_BytesUp u; down = u_BytesDown u;
         r = r\<lparr>rg_heap := (rg_heap r)(ref := u\<lparr>u_BytesUp := 0, u_BytesDown := 0\<rparr>)\<rparr> in
     (if is_retired \<and> u_sessions u = 0 then r\<lparr>rg_retired := remove1 ref (rg_retired r)\<rparr> else r,
      if up > 0 \<or> down > 0 then deltas @ [\<lparr>d_TrafficID = u_TrafficID u, d_Email = u_Email u,
          d_UUID = u_UUIDStr u, d_InboundID = 0, d_Up = up, d_Down = down\<rparr>]
      else deltas))"

definition CollectTrafficDeltas :: "UserRegistry \<Rightarrow> UserRegistry \<times> ClientTrafficDelta list" where
  "CollectTrafficDeltas r =
     fold (collect_user True) (rg_retired r) (fold (collect_user False) (map snd (rg_users r)) (r, []))"

definition sessionEnded :: "nat option \<Rightarrow> UserRegistry \<Rightarrow> UserRegistry" where
  "sessionEnded user r =
     (case user of
        None \<Rightarrow> r
      | Some ref \<Rightarrow> r\<lparr>rg_heap := (rg_heap r)(ref := (rg_heap r ref)\<lparr>u_sessions := u_sessions (rg_heap r ref) - 1\<rparr>)\<rparr>)"

subsection \<open>Authentication\<close>

record conn_state =
  cn_HandshakeComplete :: bool
  cn_ExportKeyingMaterial :: "bytes \<Rightarrow> bytes \<Rightarrow> nat \<Rightarrow> string + bytes"

text \<open>
  \<open>register\<close> is the callback of the connection handler; it runs while the registry is locked and
  may change the handler's state \<open>s\<close>.
\<close>

definition accept_user :: "(nat \<Rightarrow> 's \<Rightarrow> bool \<times> 's) option \<Rightarrow> nat \<Rightarrow> 's \<Rightarrow> (auth_err + nat) \<times> 's" where
  "accept_user register user s =
     (case register of
        None \<Rightarrow> (Inr user, s)
      | Some f \<Rightarrow> (case f user s of (True, s) \<Rightarrow> (Inr user, s) | (False, s) \<Rightarrow> (Inl ErrUserNotFound, s)))"

definition authenticate ::
  "UserRegistry \<Rightarrow> conn_state option \<Rightarrow> bytes \<Rightarrow> bytes \<Rightarrow> (nat \<Rightarrow> 's \<Rightarrow> bool \<times> 's) option \<Rightarrow> 's
   \<Rightarrow> (auth_err + nat) \<times> 's" where
  "authenticate r cs rawUUID token register s =
     (case cs of
        None \<Rightarrow> (Inl ErrInvalidTLSState, s)
      | Some cs \<Rightarrow>
          (case map_of (rg_users r) rawUUID of
             None \<Rightarrow> (Inl ErrUserNotFound, s)
           | Some user \<Rightarrow>
               if \<not> cn_HandshakeComplete cs then (Inl ErrInvalidTLSState, s)
               else
                 let u = rg_heap r user; password = bytes_of_string (u_Password u);
                     expected = cn_ExportKeyingMaterial cs rawUUID password 32 in
                 if expected = Inr token then accept_user register user s
                 else
                   let expectedStr = cn_ExportKeyingMaterial cs (bytes_of_string (u_UUIDStr u)) password 32 in
                   if expectedStr = Inr token then accept_user register user s
                   else (case (expected, expectedStr) of
                       (Inl err, Inl _) \<Rightarrow> (Inl (ErrExport err), s)
                     | _ \<Rightarrow> (Inl ErrAuthFailed, s))))"

definition Authenticate :: "UserRegistry \<Rightarrow> conn_state option \<Rightarrow> bytes \<Rightarrow> bytes \<Rightarrow> auth_err + nat" where
  "Authenticate r cs rawUUID token = fst (authenticate r cs rawUUID token None ())"

definition AuthenticateAndRegister ::
  "UserRegistry \<Rightarrow> conn_state option \<Rightarrow> bytes \<Rightarrow> bytes \<Rightarrow> (nat \<Rightarrow> 's \<Rightarrow> bool \<times> 's) \<Rightarrow> 's
   \<Rightarrow> (auth_err + nat) \<times> 's" where
  "AuthenticateAndRegister r cs rawUUID token register s = authenticate r cs rawUUID token (Some register) s"

subsection \<open>Validation\<close>

lemma validate_from_None:
  "validate_from parse seen clients = None \<longleftrightarrow>
   (\<exists>ids. map (\<lambda>c. parse (cs_UUID c)) clients = map Some ids \<and> distinct ids \<and> set ids \<inter> seen = {})"
proof (induction clients arbitrary: seen)
  case (Cons c cs)
  show ?case
  proof (cases "parse (cs_UUID c)")
    case None
    then show ?thesis by (auto simp: Cons_eq_map_conv)
  next
    case (Some i)
    then show ?thesis
      using Cons.IH [of "insert i seen"] by (auto simp: Cons_eq_map_conv)
  qed
qed simp

lemma ValidateClients_None:
  "ValidateClients parse clients = None \<longleftrightarrow>
   (\<exists>ids. map (\<lambda>c. parse (cs_UUID c)) clients = map Some ids \<and> distinct ids)"
  by (simp add: ValidateClients_def validate_from_None)


subsection \<open>The registry's invariant\<close>

definition idle :: "User \<Rightarrow> bool" where
  "idle u \<longleftrightarrow> u_BytesUp u = 0 \<and> u_BytesDown u = 0 \<and> u_sessions u = 0"

definition users_inv :: "UserRegistry \<Rightarrow> bool" where
  "users_inv r \<longleftrightarrow>
     wf_map (rg_users r) \<and> distinct (live r) \<and> (\<forall>ref \<in> set (live r). ref < rg_next r)
     \<and> (\<forall>(i, ref) \<in> set (rg_users r). u_UUID (rg_heap r ref) = i)
     \<and> (\<forall>ref. 0 \<le> u_BytesUp (rg_heap r ref) \<and> 0 \<le> u_BytesDown (rg_heap r ref) \<and> 0 \<le> u_sessions (rg_heap r ref))
     \<and> (\<forall>ref. ref \<notin> set (live r) \<longrightarrow> idle (rg_heap r ref))"

lemma inv_NewUserRegistry: "users_inv NewUserRegistry"
  by (simp add: users_inv_def NewUserRegistry_def blank_user_def idle_def)

text \<open>
  What the loop of \<open>SetUsers\<close> has established after the clients \<open>pre\<close> (with their parsed
  ids), starting from the registry \<open>r\<close>: the frame, the entries of the new map, the settings
  of the users in it, and the users revoked.
\<close>

definition sl_frame :: "UserRegistry \<Rightarrow> UserRegistry \<Rightarrow> bool" where
  "sl_frame r r' \<longleftrightarrow> rg_users r' = rg_users r \<and> rg_next r \<le> rg_next r'
     \<and> (\<forall>ref < rg_next r. rg_heap r' ref = rg_heap r ref)
     \<and> (\<forall>ref \<ge> rg_next r. idle (rg_heap r' ref))"

definition sl_entries :: "UserRegistry \<Rightarrow> (bytes \<times> nat) list \<Rightarrow> UserRegistry \<Rightarrow> bool" where
  "sl_entries r m r' \<longleftrightarrow> distinct (map snd m)
     \<and> (\<forall>(i, ref) \<in> set m. u_UUID (rg_heap r' ref) = i
          \<and> ((i, ref) \<in> set (rg_users r) \<or> rg_next r \<le> ref \<and> ref < rg_next r'))"

definition sl_settings ::
  "UserRegistry \<Rightarrow> (bytes \<times> TuicClientSettings) list \<Rightarrow> (bytes \<times> nat) list \<Rightarrow> UserRegistry \<Rightarrow> bool" where
  "sl_settings r pre m r' \<longleftrightarrow> keys m = map fst pre
     \<and> (\<forall>(i, c) \<in> set pre. \<forall>ref. (i, ref) \<in> set m \<longrightarrow> same_settings (rg_heap r' ref) c
          \<and> (\<forall>old. (i, old) \<in> set (rg_users r) \<longrightarrow> (ref = old \<longleftrightarrow> same_settings (rg_heap r old) c)))"

definition sl_revoked :: "UserRegistry \<Rightarrow> (bytes \<times> nat) list \<Rightarrow> nat list \<Rightarrow> UserRegistry \<Rightarrow> bool" where
  "sl_revoked r m revoked r' \<longleftrightarrow> distinct revoked
     \<and> set revoked = {old. \<exists>i ref. (i, ref) \<in> set m \<and> (i, old) \<in> set (rg_users r) \<and> ref \<noteq> old}
     \<and> distinct (rg_retired r') \<and> set (rg_retired r') = set (rg_retired r) \<union> set revoked"

definition set_loop ::
  "UserRegistry \<Rightarrow> (bytes \<times> TuicClientSettings) list \<Rightarrow> (bytes \<times> nat) list \<times> nat list \<times> UserRegistry \<Rightarrow> bool" where
  "set_loop r pre = (\<lambda>(m, revoked, r').
     sl_frame r r' \<and> sl_entries r m r' \<and> sl_settings r pre m r' \<and> sl_revoked r m revoked r')"

lemma inv_idle_new:
  assumes "users_inv r" "rg_next r \<le> ref" shows "idle (rg_heap r ref)"
proof -
  have "ref \<notin> set (live r)" using assms unfolding users_inv_def by (meson not_le)
  then show ?thesis using assms(1) unfolding users_inv_def by blast
qed

lemma set_loop_start: "users_inv r \<Longrightarrow> set_loop r [] ([], [], r)"
  by (simp add: set_loop_def sl_frame_def sl_entries_def sl_settings_def sl_revoked_def inv_idle_new)
    (simp add: users_inv_def)

lemma user_registered:
  assumes "users_inv r" "(i, ref) \<in> set (rg_users r)"
  shows "ref < rg_next r" "u_UUID (rg_heap r ref) = i"
proof -
  have "ref \<in> set (live r)" using assms(2) by force
  then show "ref < rg_next r" using assms(1) unfolding users_inv_def by blast
  have "\<forall>(i, ref) \<in> set (rg_users r). u_UUID (rg_heap r ref) = i" using assms(1) unfolding users_inv_def by blast
  with assms(2) show "u_UUID (rg_heap r ref) = i" by blast
qed

lemma users_inj: "users_inv r \<Longrightarrow> (i, ref) \<in> set (rg_users r) \<Longrightarrow> (j, ref) \<in> set (rg_users r) \<Longrightarrow> i = j"
  using user_registered(2) by blast

lemma users_fun: "users_inv r \<Longrightarrow> (i, ref) \<in> set (rg_users r) \<Longrightarrow> (i, ref') \<in> set (rg_users r) \<Longrightarrow> ref = ref'"
  by (auto simp: users_inv_def wf_map_def dest: eq_key_imp_eq_value)

lemma entry_lt:
  assumes "users_inv r" "sl_frame r r'" "sl_entries r m r'" "(j, ref) \<in> set m"
  shows "ref < rg_next r'"
proof -
  have "(j, ref) \<in> set (rg_users r) \<or> ref < rg_next r'"
    using assms(3,4) unfolding sl_entries_def by fastforce
  then show ?thesis
    using user_registered(1) [OF assms(1)] assms(2) by (auto simp: sl_frame_def intro: less_le_trans)
qed

lemma sl_settings_snoc:
  assumes st: "sl_settings r pre m r'" and fresh: "i \<notin> fst ` set pre"
    and heap: "\<And>j x. (j, x) \<in> set m \<Longrightarrow> rg_heap r'' x = rg_heap r' x"
    and same: "same_settings (rg_heap r'' ref) c"
    and old: "\<And>old. (i, old) \<in> set (rg_users r) \<Longrightarrow> (ref = old \<longleftrightarrow> same_settings (rg_heap r old) c)"
  shows "sl_settings r (pre @ [(i, c)]) (m @ [(i, ref)]) r''"
proof -
  have ks: "keys m = map fst pre" using st by (simp add: sl_settings_def)
  then have new: "i \<notin> fst ` set m" using fresh by (metis set_map)
  show ?thesis
    unfolding sl_settings_def
  proof (intro conjI ballI, goal_cases)
    case 1
    show ?case using ks by simp
  next
    case (2 x)
    obtain j d where x: "x = (j, d)" by (cases x)
    show ?case
    proof (cases "x = (i, c)")
      case True
      then show ?thesis using new same old by force
    next
      case False
      then have j: "(j, d) \<in> set pre" "j \<noteq> i" using 2 fresh x by force+
      then show ?thesis using st heap x unfolding sl_settings_def by fastforce
    qed
  qed
qed

lemma set_loop_keep:
  assumes loop: "set_loop r pre (m, revoked, r')" and inv: "users_inv r" and fresh: "i \<notin> fst ` set pre"
    and old: "(i, old) \<in> set (rg_users r)" and same: "same_settings (rg_heap r old) c"
  shows "set_loop r (pre @ [(i, c)]) (m @ [(i, old)], revoked, r')"
proof -
  have fr: "sl_frame r r'" and en: "sl_entries r m r'" and st: "sl_settings r pre m r'"
    and rv: "sl_revoked r m revoked r'" using loop by (simp_all add: set_loop_def)
  have new: "i \<notin> fst ` set m"
    using st fresh unfolding sl_settings_def by (metis set_map)
  have lt: "old < rg_next r" "u_UUID (rg_heap r old) = i" using user_registered [OF inv old] by simp_all
  then have heap: "rg_heap r' old = rg_heap r old" using fr by (simp add: sl_frame_def)
  have "old \<notin> snd ` set m"
  proof
    assume "old \<in> snd ` set m"
    then obtain j where j: "(j, old) \<in> set m" by auto
    then have "u_UUID (rg_heap r' old) = j" using en unfolding sl_entries_def by fastforce
    with heap lt j new show False by force
  qed
  then have "sl_entries r (m @ [(i, old)]) r'"
    using en old lt heap by (simp add: sl_entries_def)
  moreover have "sl_settings r (pre @ [(i, c)]) (m @ [(i, old)]) r'"
    by (rule sl_settings_snoc [OF st fresh]) (use same heap users_fun [OF inv old] in auto)
  moreover have "sl_revoked r (m @ [(i, old)]) revoked r'"
    using rv users_fun [OF inv old] unfolding sl_revoked_def by auto
  ultimately show ?thesis using fr by (simp add: set_loop_def)
qed


lemma set_loop_new:
  assumes loop: "set_loop r pre (m, revoked, r')" and inv: "users_inv r" and fresh: "i \<notin> fst ` set pre"
    and u: "idle u" "u_UUID u = i" "same_settings u c"
    and r'': "r'' = new_ref u (r'\<lparr>rg_retired := X\<rparr>)"
    and differs: "\<And>old. (i, old) \<in> set (rg_users r) \<Longrightarrow> \<not> same_settings (rg_heap r old) c"
    and rv': "sl_revoked r (m @ [(i, rg_next r')]) revoked' (r'\<lparr>rg_retired := X\<rparr>)"
  shows "set_loop r (pre @ [(i, c)]) (m @ [(i, rg_next r')], revoked', r'')"
proof -
  have fr: "sl_frame r r'" and en: "sl_entries r m r'" and st: "sl_settings r pre m r'"
    using loop by (simp_all add: set_loop_def)
  have next_le: "rg_next r \<le> rg_next r'" using fr by (simp add: sl_frame_def)
  have below: "x < rg_next r'" if "(j, x) \<in> set m" for j x
    using entry_lt [OF inv fr en that] .
  have heap: "rg_heap r'' x = rg_heap r' x" if "(j, x) \<in> set m" for j x
    using below [OF that] by (simp add: r'' new_ref_def)
  have "sl_frame r r''"
    using fr u by (auto simp: sl_frame_def r'' new_ref_def)
  moreover have "sl_entries r (m @ [(i, rg_next r')]) r''"
    unfolding sl_entries_def
  proof (intro conjI ballI, goal_cases)
    case 1
    show ?case using en below by (force simp: sl_entries_def)
  next
    case (2 e)
    then show ?case
    proof (cases "e \<in> set m")
      case True
      obtain j x where e: "e = (j, x)" by (cases e)
      from True e have jx: "(j, x) \<in> set m" by simp
      then have "u_UUID (rg_heap r' x) = j" "(j, x) \<in> set (rg_users r) \<or> rg_next r \<le> x"
        using en unfolding sl_entries_def by fastforce+
      then show ?thesis
        using below [OF jx] heap [OF jx] by (auto simp: e r'' new_ref_def)
    qed (use next_le u in \<open>auto simp: r'' new_ref_def\<close>)
  qed
  moreover have "sl_settings r (pre @ [(i, c)]) (m @ [(i, rg_next r')]) r''"
  proof (rule sl_settings_snoc [OF st fresh heap])
    show "same_settings (rg_heap r'' (rg_next r')) c" using u by (simp add: r'' new_ref_def)
    show "rg_next r' = old \<longleftrightarrow> same_settings (rg_heap r old) c" if "(i, old) \<in> set (rg_users r)" for old
      using user_registered(1) [OF inv that] next_le differs [OF that] by auto
  qed
  moreover have "sl_revoked r (m @ [(i, rg_next r')]) revoked' r''"
    using rv' by (simp add: sl_revoked_def r'' new_ref_def)
  ultimately show ?thesis by (simp add: set_loop_def)
qed

lemma set_client_step:
  assumes loop: "set_loop r pre st" and inv: "users_inv r" and fresh: "i \<notin> fst ` set pre"
    and parse: "parse (cs_UUID c) = Some i"
  shows "set_loop r (pre @ [(i, c)]) (set_client parse render c st)"
proof -
  obtain m revoked r' where st: "st = (m, revoked, r')" by (cases st)
  have fr: "sl_frame r r'" and ks: "keys m = map fst pre" and rv: "sl_revoked r m revoked r'"
    and en: "sl_entries r m r'"
    using loop by (simp_all add: set_loop_def st sl_settings_def)
  then have "i \<notin> fst ` set m" using fresh by (metis set_map)
  then have "map_of m i = None" by (simp add: map_of_eq_None_iff)
  note upd = update_new [OF this]
  have u: "idle (newUser render i c)" "u_UUID (newUser render i c) = i" "same_settings (newUser render i c) c"
    by (simp_all add: idle_def newUser_def same_settings_def)
  have users: "rg_users r' = rg_users r" and next_le: "rg_next r \<le> rg_next r'"
    and heap: "\<forall>x < rg_next r. rg_heap r' x = rg_heap r x" using fr by (simp_all add: sl_frame_def)
  have wf: "wf_map (rg_users r)" using inv by (simp add: users_inv_def)
  show ?thesis
  proof (cases "map_of (rg_users r) i")
    case None
    then have no: "(i, old) \<notin> set (rg_users r)" for old
      using wf by (metis map_of_wf option.distinct(1))
    then have "sl_revoked r (m @ [(i, rg_next r')]) revoked (r'\<lparr>rg_retired := rg_retired r'\<rparr>)"
      using rv by (auto simp: sl_revoked_def)
    from set_loop_new [OF loop [unfolded st] inv fresh u _ _ this] no
    show ?thesis by (simp add: set_client_def st parse None users upd)
  next
    case (Some old)
    then have old: "(i, old) \<in> set (rg_users r)" using wf by (simp add: map_of_wf)
    have lt: "old < rg_next r" using user_registered(1) [OF inv old] .
    show ?thesis
    proof (cases "same_settings (rg_heap r old) c")
      case True
      with set_loop_keep [OF loop [unfolded st] inv fresh old True] lt heap
      show ?thesis by (simp add: set_client_def st parse Some users upd)
    next
      case False
      have "old \<notin> set revoked"
      proof
        assume "old \<in> set revoked"
        then obtain j x where "(j, x) \<in> set m" "(j, old) \<in> set (rg_users r)"
          using rv by (auto simp: sl_revoked_def)
        then have "(i, x) \<in> set m" using users_inj [OF inv _ old] by blast
        with ks fresh show False by (metis fst_conv image_eqI list.set_map)
      qed
      moreover have "(i, x) \<in> set (rg_users r) \<and> rg_next r' \<noteq> x \<longleftrightarrow> x = old" for x
        using users_fun [OF inv old, of x] old lt next_le by (metis not_le)
      then have "{x. \<exists>j y. (j, y) \<in> set (m @ [(i, rg_next r')]) \<and> (j, x) \<in> set (rg_users r) \<and> y \<noteq> x}
          = {x. \<exists>j y. (j, y) \<in> set m \<and> (j, x) \<in> set (rg_users r) \<and> y \<noteq> x} \<union> {old}"
        by (simp add: conj_disj_distribR ex_disj_distrib) blast
      ultimately have "sl_revoked r (m @ [(i, rg_next r')]) (revoked @ [old])
          (r'\<lparr>rg_retired := List.insert old (rg_retired r')\<rparr>)"
        using rv by (simp add: sl_revoked_def)
      moreover have "\<not> same_settings (rg_heap r x) c" if "(i, x) \<in> set (rg_users r)" for x
        using False users_fun [OF inv old that] by simp
      ultimately show ?thesis
        using set_loop_new [OF loop [unfolded st] inv fresh u] lt heap False
        by (simp add: set_client_def st parse Some users upd)
    qed
  qed
qed

lemma set_loop_all:
  "set_loop r pre st \<Longrightarrow> users_inv r \<Longrightarrow> map (\<lambda>c. parse (cs_UUID c)) cs = map Some ids \<Longrightarrow>
   distinct ids \<Longrightarrow> set ids \<inter> fst ` set pre = {} \<Longrightarrow>
   set_loop r (pre @ zip ids cs) (fold (set_client parse render) cs st)"
proof (induction cs arbitrary: ids pre st)
  case (Cons c cs)
  obtain i ids' where ids: "ids = i # ids'" and i: "parse (cs_UUID c) = Some i"
    using Cons.prems(3) by (cases ids) auto
  have "set_loop r (pre @ [(i, c)]) (set_client parse render c st)"
    using Cons.prems ids i by (intro set_client_step) auto
  with Cons.IH [of "pre @ [(i, c)]" "set_client parse render c st" ids'] Cons.prems ids
  show ?case by auto
qed simp


lemma fold_insert:
  "set (fold List.insert xs ys) = set xs \<union> set ys" "distinct ys \<Longrightarrow> distinct (fold List.insert xs ys)"
  by (induction xs arbitrary: ys) auto

text \<open>The result of \<open>SetUsers\<close> on valid clients with ids \<open>ids\<close>.\<close>

definition registered :: "UserRegistry \<Rightarrow> nat set" where
  "registered r = snd ` set (rg_users r)"

lemma SetUsers_parts:
  assumes inv: "users_inv r" and ids: "map (\<lambda>c. parse (cs_UUID c)) clients = map Some ids" "distinct ids"
    and r': "SetUsers parse render clients r = (r', revoked)"
  shows "sl_frame r (r'\<lparr>rg_users := rg_users r\<rparr>)" and "sl_entries r (rg_users r') r'"
    and "sl_settings r (zip ids clients) (rg_users r') r'"
    and "set revoked = registered r - registered r'" and "distinct revoked"
    and "distinct (rg_retired r')" and "set (rg_retired r') = set (rg_retired r) \<union> set revoked"
proof -
  obtain m rv r1 where f: "fold (set_client parse render) clients ([], [], r) = (m, rv, r1)"
    by (metis prod_cases3)
  have "set_loop r ([] @ zip ids clients) (m, rv, r1)"
    unfolding f [symmetric] using ids by (intro set_loop_all set_loop_start inv) simp_all
  then have fr: "sl_frame r r1" and en: "sl_entries r m r1" and st: "sl_settings r (zip ids clients) m r1"
    and rev: "sl_revoked r m rv r1" by (simp_all add: set_loop_def)
  define gone where "gone = map snd (filter (\<lambda>(i, _). map_of m i = None) (rg_users r))"
  have res: "r' = r1\<lparr>rg_retired := fold List.insert gone (rg_retired r1), rg_users := m\<rparr>" "revoked = rv @ gone"
    using r' fr f by (simp_all add: SetUsers_def gone_def sl_frame_def Let_def)
  show "sl_frame r (r'\<lparr>rg_users := rg_users r\<rparr>)" "sl_entries r (rg_users r') r'"
    "sl_settings r (zip ids clients) (rg_users r') r'"
    using fr en st by (simp_all add: res sl_frame_def sl_entries_def sl_settings_def)
  have wf: "wf_map (rg_users r)" and du: "distinct (map snd (rg_users r))" using inv by (simp_all add: users_inv_def)
  have wfm: "wf_map m"
  proof -
    have "length ids = length clients" using ids(1) by (metis length_map)
    then show ?thesis using st ids(2) by (simp add: sl_settings_def wf_map_def)
  qed
  have gone_set: "set gone = {old. \<exists>i. (i, old) \<in> set (rg_users r) \<and> i \<notin> fst ` set m}"
    by (force simp: gone_def map_of_eq_None_iff)
  have rv_set: "set rv = {old. \<exists>i ref. (i, ref) \<in> set m \<and> (i, old) \<in> set (rg_users r) \<and> ref \<noteq> old}"
    using rev by (simp add: sl_revoked_def)
  have kept: "old \<in> snd ` set m \<longleftrightarrow> (i, old) \<in> set m" if old: "(i, old) \<in> set (rg_users r)" for i old
  proof
    assume "old \<in> snd ` set m"
    then obtain j where j: "(j, old) \<in> set m" by auto
    then have "(j, old) \<in> set (rg_users r) \<or> rg_next r \<le> old" using en unfolding sl_entries_def by fastforce
    with user_registered(1) [OF inv old] have "(j, old) \<in> set (rg_users r)" by auto
    with j show "(i, old) \<in> set m" using users_inj [OF inv old] by blast
  qed force
  show "set revoked = registered r - registered r'"
  proof (intro set_eqI iffI)
    fix x assume "x \<in> set revoked"
    then obtain i where i: "(i, x) \<in> set (rg_users r)" and "i \<notin> fst ` set m \<or> (\<exists>y. (i, y) \<in> set m \<and> y \<noteq> x)"
      by (auto simp: res rv_set gone_set)
    then have "(i, x) \<notin> set m" using wfm by (force simp: wf_map_def dest: eq_key_imp_eq_value)
    with kept [OF i] i show "x \<in> registered r - registered r'" by (force simp: registered_def res)
  next
    fix x assume x: "x \<in> registered r - registered r'"
    then obtain i where i: "(i, x) \<in> set (rg_users r)" by (auto simp: registered_def)
    with x have "(i, x) \<notin> set m" by (force simp: registered_def res)
    show "x \<in> set revoked"
    proof (cases "i \<in> fst ` set m")
      case True
      then obtain b where b: "(i, b) \<in> set m" by auto
      with \<open>(i, x) \<notin> set m\<close> have "b \<noteq> x" by auto
      with b i have "x \<in> set rv" unfolding rv_set by blast
      then show ?thesis by (simp add: res)
    next
      case False
      with i have "x \<in> set gone" unfolding gone_set by blast
      then show ?thesis by (simp add: res)
    qed
  qed
  have "set rv \<inter> set gone = {}"
    using users_inj [OF inv] by (force simp: rv_set gone_set)
  moreover have "distinct gone" using du by (auto simp: gone_def distinct_map_filter)
  ultimately show "distinct revoked" using rev by (auto simp: res sl_revoked_def)
  show "distinct (rg_retired r')" "set (rg_retired r') = set (rg_retired r) \<union> set revoked"
    using rev by (auto simp: res sl_revoked_def fold_insert)
qed


lemma SetUsers_inv:
  assumes inv: "users_inv r" and valid: "ValidateClients parse clients = None"
  shows "users_inv (fst (SetUsers parse render clients r))"
proof -
  obtain ids where ids: "map (\<lambda>c. parse (cs_UUID c)) clients = map Some ids" "distinct ids"
    using valid by (auto simp: ValidateClients_None)
  obtain r' revoked where r': "SetUsers parse render clients r = (r', revoked)" by fastforce
  note parts = SetUsers_parts [OF inv ids r']
  have next_le: "rg_next r \<le> rg_next r'" and same: "\<And>x. x < rg_next r \<Longrightarrow> rg_heap r' x = rg_heap r x"
    and new: "\<And>x. rg_next r \<le> x \<Longrightarrow> idle (rg_heap r' x)"
    using parts(1) by (simp_all add: sl_frame_def)
  have entry: "u_UUID (rg_heap r' x) = i \<and> ((i, x) \<in> set (rg_users r) \<or> rg_next r \<le> x \<and> x < rg_next r')"
    if "(i, x) \<in> set (rg_users r')" for i x
    using parts(2) that unfolding sl_entries_def by fastforce
  have old: "x < rg_next r" if "x \<in> set (live r)" for x
    using inv that unfolding users_inv_def by blast
  have reg: "x \<in> registered r \<or> rg_next r \<le> x \<and> x < rg_next r'" if "x \<in> registered r'" for x
    using that entry by (force simp: registered_def)
  have live_r: "set (live r) = registered r \<union> set (rg_retired r)" "registered r \<inter> set (rg_retired r) = {}"
    using inv by (auto simp: registered_def users_inv_def)
  have live_r': "set (live r') = registered r' \<union> set (rg_retired r) \<union> (registered r - registered r')"
    using parts(4,7) by (auto simp: registered_def)
  have "length ids = length clients" using ids(1) by (metis length_map)
  then have "wf_map (rg_users r')" using parts(3) ids(2) by (simp add: sl_settings_def wf_map_def)
  moreover have "registered r' \<inter> set (rg_retired r') = {}"
  proof -
    have "x \<notin> set (rg_retired r)" if "x \<in> registered r'" for x
      using reg [OF that] live_r old [of x] by auto
    then show ?thesis using parts(4,7) by auto
  qed
  then have "distinct (live r')" using parts(2,6) by (simp add: sl_entries_def registered_def)
  moreover have "x < rg_next r'" if x: "x \<in> set (live r')" for x
  proof -
    from x have "x \<in> set (live r) \<or> x < rg_next r'" using reg [of x] live_r live_r' by blast
    then show ?thesis using old [of x] next_le by linarith
  qed
  moreover have "\<forall>(i, x) \<in> set (rg_users r'). u_UUID (rg_heap r' x) = i" using entry by blast
  moreover have "0 \<le> u_BytesUp (rg_heap r' x) \<and> 0 \<le> u_BytesDown (rg_heap r' x) \<and> 0 \<le> u_sessions (rg_heap r' x)" for x
  proof (cases "x < rg_next r")
    case True
    then show ?thesis using inv by (simp add: same users_inv_def)
  next
    case False
    then show ?thesis using new [of x] by (simp add: idle_def)
  qed
  moreover have "idle (rg_heap r' x)" if x: "x \<notin> set (live r')" for x
  proof (cases "x < rg_next r")
    case True
    moreover have "x \<notin> set (live r)" using x live_r live_r' by blast
    ultimately show ?thesis using inv unfolding users_inv_def same [OF True] by blast
  next
    case False
    then show ?thesis by (simp add: new)
  qed
  ultimately show ?thesis unfolding r' fst_conv users_inv_def by blast
qed

subsection \<open>Collecting traffic\<close>

definition drained :: "User \<Rightarrow> User" where
  "drained u = u\<lparr>u_BytesUp := 0, u_BytesDown := 0\<rparr>"

definition deltas_of :: "User \<Rightarrow> ClientTrafficDelta list" where
  "deltas_of u = (if u_BytesUp u > 0 \<or> u_BytesDown u > 0 then
     [\<lparr>d_TrafficID = u_TrafficID u, d_Email = u_Email u, d_UUID = u_UUIDStr u, d_InboundID = 0,
       d_Up = u_BytesUp u, d_Down = u_BytesDown u\<rparr>] else [])"

lemma collect_user_step:
  "collect_user False x (r, ds) =
     (r\<lparr>rg_heap := (rg_heap r)(x := drained (rg_heap r x))\<rparr>, ds @ deltas_of (rg_heap r x))"
  "collect_user True x (r, ds) =
     (r\<lparr>rg_heap := (rg_heap r)(x := drained (rg_heap r x)),
        rg_retired := if u_sessions (rg_heap r x) = 0 then remove1 x (rg_retired r) else rg_retired r\<rparr>,
      ds @ deltas_of (rg_heap r x))"
  by (simp_all add: collect_user_def Let_def drained_def deltas_of_def)

definition drain_refs :: "nat set \<Rightarrow> (nat \<Rightarrow> User) \<Rightarrow> nat \<Rightarrow> User" where
  "drain_refs refs h = (\<lambda>x. if x \<in> refs then drained (h x) else h x)"

lemma drain_refs_step:
  "x \<notin> refs \<Longrightarrow> drain_refs refs (h(x := drained (h x))) = drain_refs (insert x refs) h"
  by (auto simp: drain_refs_def)

lemma drain_refs_Nil [simp]: "drain_refs {} h = h"
  by (simp add: drain_refs_def)

lemma deltas_map_upd:
  "x \<notin> set refs \<Longrightarrow> map (\<lambda>y. deltas_of ((h(x := u)) y)) refs = map (\<lambda>y. deltas_of (h y)) refs"
  by auto

lemma collect_registered:
  "distinct refs \<Longrightarrow> fold (collect_user False) refs (r, ds) =
   (r\<lparr>rg_heap := drain_refs (set refs) (rg_heap r)\<rparr>,
    ds @ concat (map (\<lambda>x. deltas_of (rg_heap r x)) refs))"
  by (induction refs arbitrary: r ds)
    (simp_all add: collect_user_step drain_refs_step deltas_map_upd del: fun_upd_apply)

definition still_retired :: "(nat \<Rightarrow> User) \<Rightarrow> nat list \<Rightarrow> nat list \<Rightarrow> nat list" where
  "still_retired h refs xs = filter (\<lambda>y. \<not> (y \<in> set refs \<and> u_sessions (h y) = 0)) xs"

lemma still_retired_step:
  assumes "distinct xs" "x \<notin> set refs"
  shows "still_retired (h(x := drained (h x))) refs (if u_sessions (h x) = 0 then remove1 x xs else xs)
    = still_retired h (x # refs) xs"
  using assms
  by (auto simp: still_retired_def distinct_remove1_removeAll removeAll_filter_not_eq intro!: filter_cong)

lemma collect_retired:
  "distinct refs \<Longrightarrow> distinct (rg_retired r) \<Longrightarrow> fold (collect_user True) refs (r, ds) =
   (r\<lparr>rg_heap := drain_refs (set refs) (rg_heap r), rg_retired := still_retired (rg_heap r) refs (rg_retired r)\<rparr>,
    ds @ concat (map (\<lambda>x. deltas_of (rg_heap r x)) refs))"
proof (induction refs arbitrary: r ds)
  case Nil
  then show ?case by (simp add: still_retired_def)
next
  case (Cons x refs)
  then show ?case
    by (simp add: collect_user_step drain_refs_step deltas_map_upd still_retired_step
        del: fun_upd_apply cong: if_cong)
qed

lemma CollectTrafficDeltas_eq:
  assumes "users_inv r"
  shows "CollectTrafficDeltas r =
    (r\<lparr>rg_heap := drain_refs (set (live r)) (rg_heap r),
       rg_retired := filter (\<lambda>x. u_sessions (rg_heap r x) \<noteq> 0) (rg_retired r)\<rparr>,
     concat (map (\<lambda>x. deltas_of (rg_heap r x)) (live r)))"
proof -
  let ?us = "map snd (rg_users r)"
  have d: "distinct ?us" "distinct (rg_retired r)" "set ?us \<inter> set (rg_retired r) = {}"
    using assms by (auto simp: users_inv_def)
  let ?h = "drain_refs (set ?us) (rg_heap r)"
  have "?h x = rg_heap r x" if "x \<in> set (rg_retired r)" for x
    using d(3) that by (auto simp: drain_refs_def)
  then have "map (\<lambda>x. deltas_of (?h x)) (rg_retired r) = map (\<lambda>x. deltas_of (rg_heap r x)) (rg_retired r)"
    "still_retired ?h (rg_retired r) (rg_retired r) = filter (\<lambda>x. u_sessions (rg_heap r x) \<noteq> 0) (rg_retired r)"
    by (auto simp: still_retired_def intro!: filter_cong)
  moreover have "drain_refs (set (rg_retired r)) ?h = drain_refs (set (live r)) (rg_heap r)"
    using d(3) by (auto simp: drain_refs_def fun_eq_iff)
  ultimately show ?thesis
    using d by (simp add: CollectTrafficDeltas_def collect_registered collect_retired cong: map_cong)
qed


lemma CollectTrafficDeltas_inv:
  assumes inv: "users_inv r"
  shows "users_inv (fst (CollectTrafficDeltas r))"
proof -
  let ?r = "fst (CollectTrafficDeltas r)" and ?h = "rg_heap r"
  have users: "rg_users ?r = rg_users r" "rg_next ?r = rg_next r"
    and heap: "rg_heap ?r x = (if x \<in> set (live r) then drained (?h x) else ?h x)"
    and ret: "rg_retired ?r = filter (\<lambda>x. u_sessions (?h x) \<noteq> 0) (rg_retired r)" for x
    by (simp_all add: CollectTrafficDeltas_eq [OF inv] drain_refs_def)
  have field: "u_UUID (rg_heap ?r x) = u_UUID (?h x)" "u_sessions (rg_heap ?r x) = u_sessions (?h x)" for x
    by (simp_all add: heap drained_def)
  have counters: "0 \<le> u_BytesUp (rg_heap ?r x)" "0 \<le> u_BytesDown (rg_heap ?r x)" "0 \<le> u_sessions (?h x)" for x
    using inv by (auto simp: heap drained_def users_inv_def)
  have "distinct (live ?r)" using inv by (auto simp: users_inv_def users ret)
  moreover have "set (live ?r) \<subseteq> set (live r)" by (auto simp: users ret)
  then have "\<forall>x \<in> set (live ?r). x < rg_next r" using inv unfolding users_inv_def by blast
  moreover have "idle (rg_heap ?r x)" if "x \<notin> set (live ?r)" for x
  proof (cases "x \<in> set (live r)")
    case True
    then show ?thesis using that by (auto simp: heap users ret drained_def idle_def)
  next
    case False
    then show ?thesis using inv unfolding users_inv_def heap by auto
  qed
  ultimately show ?thesis
    using inv counters unfolding users_inv_def users field by blast
qed

lemma modify_user_inv:
  assumes inv: "users_inv r" and u: "u_UUID u = u_UUID (rg_heap r ref)"
    and pos: "0 \<le> u_BytesUp u" "0 \<le> u_BytesDown u" "0 \<le> u_sessions u"
    and ref: "ref \<in> set (live r) \<or> idle u"
  shows "users_inv (r\<lparr>rg_heap := (rg_heap r)(ref := u)\<rparr>)"
  using assms unfolding users_inv_def by (auto simp: fun_upd_apply split: if_splits)

lemma session_live:
  assumes "users_inv r" "0 < u_sessions (rg_heap r ref)" shows "ref \<in> set (live r)"
  using assms unfolding users_inv_def idle_def by (metis less_irrefl)

definition counter :: "bool \<Rightarrow> User \<Rightarrow> int" where
  "counter up u = (if up then u_BytesUp u else u_BytesDown u)"

definition d_counter :: "bool \<Rightarrow> ClientTrafficDelta \<Rightarrow> int" where
  "d_counter up d = (if up then d_Up d else d_Down d)"

text \<open>The bytes still in the counters of the users billed under \<open>t\<close>.\<close>

definition account :: "bool \<Rightarrow> int \<Rightarrow> User \<Rightarrow> int" where
  "account up t u = (if u_TrafficID u = t then counter up u else 0)"

definition on_account :: "bool \<Rightarrow> int \<Rightarrow> UserRegistry \<Rightarrow> int" where
  "on_account up t r = (\<Sum>ref<rg_next r. account up t (rg_heap r ref))"

definition billed :: "bool \<Rightarrow> int \<Rightarrow> ClientTrafficDelta list \<Rightarrow> int" where
  "billed up t ds = sum_list (map (\<lambda>d. if d_TrafficID d = t then d_counter up d else 0) ds)"

lemma billed_append: "billed up t (xs @ ys) = billed up t xs + billed up t ys"
  by (simp add: billed_def)

lemma billed_deltas:
  "0 \<le> u_BytesUp u \<Longrightarrow> 0 \<le> u_BytesDown u \<Longrightarrow> billed up t (deltas_of u) = account up t u"
  by (auto simp: billed_def deltas_of_def account_def counter_def d_counter_def)

lemma billed_concat:
  "(\<And>x. x \<in> set xs \<Longrightarrow> billed up t (f x) = g x) \<Longrightarrow> billed up t (concat (map f xs)) = sum_list (map g xs)"
  by (induction xs) (simp_all add: billed_append, simp add: billed_def)

lemma idle_account: "idle u \<Longrightarrow> account up t u = 0"
  by (simp add: idle_def account_def counter_def)

lemma on_account_live:
  assumes inv: "users_inv r"
  shows "on_account up t r = (\<Sum>ref\<in>set (live r). account up t (rg_heap r ref))"
  unfolding on_account_def
proof (rule sum.mono_neutral_right)
  show "set (live r) \<subseteq> {..<rg_next r}" using inv unfolding users_inv_def by blast
  show "\<forall>i\<in>{..<rg_next r} - set (live r). account up t (rg_heap r i) = 0"
    using inv idle_account unfolding users_inv_def by blast
qed simp

lemma SetUsers_account:
  assumes inv: "users_inv r" and valid: "ValidateClients parse clients = None"
  shows "on_account up t (fst (SetUsers parse render clients r)) = on_account up t r"
proof -
  obtain ids where ids: "map (\<lambda>c. parse (cs_UUID c)) clients = map Some ids" "distinct ids"
    using valid by (auto simp: ValidateClients_None)
  obtain r' revoked where r': "SetUsers parse render clients r = (r', revoked)" by fastforce
  have fr: "rg_next r \<le> rg_next r'" "\<And>x. x < rg_next r \<Longrightarrow> rg_heap r' x = rg_heap r x"
    "\<And>x. rg_next r \<le> x \<Longrightarrow> idle (rg_heap r' x)"
    using SetUsers_parts(1) [OF inv ids r'] by (simp_all add: sl_frame_def)
  have "on_account up t r' = (\<Sum>ref<rg_next r. account up t (rg_heap r' ref))"
    unfolding on_account_def using fr by (intro sum.mono_neutral_right) (auto simp: idle_account)
  also have "\<dots> = on_account up t r"
    unfolding on_account_def by (intro sum.cong) (auto simp: fr)
  finally show ?thesis by (simp add: r')
qed

lemma Collect_account:
  assumes inv: "users_inv r"
  shows "on_account up t (fst (CollectTrafficDeltas r)) = 0"
    and "billed up t (snd (CollectTrafficDeltas r)) = on_account up t r"
proof -
  have "account up t (drain_refs (set (live r)) (rg_heap r) x) = 0" for x
  proof (cases "x \<in> set (live r)")
    case True
    then show ?thesis by (simp add: drain_refs_def drained_def account_def counter_def)
  next
    case False
    then have "idle (rg_heap r x)" using inv unfolding users_inv_def by blast
    with False show ?thesis by (simp add: drain_refs_def idle_account)
  qed
  then show "on_account up t (fst (CollectTrafficDeltas r)) = 0"
    by (simp add: on_account_def CollectTrafficDeltas_eq [OF inv])
  have "billed up t (concat (map (\<lambda>x. deltas_of (rg_heap r x)) (live r)))
      = sum_list (map (\<lambda>x. account up t (rg_heap r x)) (live r))"
    using inv unfolding users_inv_def by (intro billed_concat billed_deltas) blast+
  also have "\<dots> = on_account up t r"
    using inv by (subst on_account_live [OF inv], subst sum_list_distinct_conv_sum_set)
      (simp_all add: users_inv_def)
  finally show "billed up t (snd (CollectTrafficDeltas r)) = on_account up t r"
    by (simp add: CollectTrafficDeltas_eq [OF inv])
qed

lemma account_upd:
  "ref < rg_next r \<Longrightarrow> on_account up t (r\<lparr>rg_heap := (rg_heap r)(ref := u)\<rparr>)
    = on_account up t r - account up t (rg_heap r ref) + account up t u"
  using sum_heap_upd [of ref "rg_next r" "account up t" "rg_heap r" u]
  by (simp add: on_account_def del: fun_upd_apply)

subsection \<open>The life of the registry\<close>

text \<open>
  The steps of a running inbound, in any order: configuration updates, logins, traffic on a
  connection (the connection holds a session of its user from login to its end), logouts and
  collections. \<open>ts_added\<close> and \<open>ts_collected\<close> are the bytes relayed and the bytes reported so
  far, per direction and billing id.
\<close>

record trafficSystem =
  ts_reg :: UserRegistry
  ts_added :: "bool \<Rightarrow> int \<Rightarrow> int"
  ts_collected :: "bool \<Rightarrow> int \<Rightarrow> int"

definition session_started :: "nat \<Rightarrow> UserRegistry \<Rightarrow> UserRegistry" where
  "session_started ref r =
     r\<lparr>rg_heap := (rg_heap r)(ref := (rg_heap r ref)\<lparr>u_sessions := u_sessions (rg_heap r ref) + 1\<rparr>)\<rparr>"

definition add_bytes :: "bool \<Rightarrow> nat \<Rightarrow> int \<Rightarrow> UserRegistry \<Rightarrow> UserRegistry" where
  "add_bytes up ref n r =
     (let u = rg_heap r ref in
      r\<lparr>rg_heap := (rg_heap r)(ref := if up then u\<lparr>u_BytesUp := u_BytesUp u + n\<rparr>
                                      else u\<lparr>u_BytesDown := u_BytesDown u + n\<rparr>)\<rparr>)"

inductive traffic_step :: "trafficSystem \<Rightarrow> trafficSystem \<Rightarrow> bool" where
  tr_update: "ValidateClients parse clients = None \<Longrightarrow>
    traffic_step s (s\<lparr>ts_reg := fst (SetUsers parse render clients (ts_reg s))\<rparr>)"
| tr_login: "Authenticate (ts_reg s) cs rawUUID token = Inr ref \<Longrightarrow>
    traffic_step s (s\<lparr>ts_reg := session_started ref (ts_reg s)\<rparr>)"
| tr_bytes: "0 < u_sessions (rg_heap (ts_reg s) ref) \<Longrightarrow> 0 \<le> n \<Longrightarrow>
    traffic_step s (s\<lparr>ts_reg := add_bytes up ref n (ts_reg s),
      ts_added := (ts_added s)(up := (ts_added s up)
        (u_TrafficID (rg_heap (ts_reg s) ref) := ts_added s up (u_TrafficID (rg_heap (ts_reg s) ref)) + n))\<rparr>)"
| tr_logout: "0 < u_sessions (rg_heap (ts_reg s) ref) \<Longrightarrow>
    traffic_step s (s\<lparr>ts_reg := sessionEnded (Some ref) (ts_reg s)\<rparr>)"
| tr_collect: "CollectTrafficDeltas (ts_reg s) = (r, ds) \<Longrightarrow>
    traffic_step s (s\<lparr>ts_reg := r, ts_collected := \<lambda>up t. ts_collected s up t + billed up t ds\<rparr>)"

inductive traffic_reachable :: "trafficSystem \<Rightarrow> bool" where
  start: "traffic_reachable \<lparr>ts_reg = NewUserRegistry, ts_added = \<lambda>_ _. 0, ts_collected = \<lambda>_ _. 0\<rparr>"
| step: "traffic_reachable s \<Longrightarrow> traffic_step s t \<Longrightarrow> traffic_reachable t"

definition conserved :: "trafficSystem \<Rightarrow> bool" where
  "conserved s \<longleftrightarrow> users_inv (ts_reg s)
     \<and> (\<forall>up t. ts_added s up t = ts_collected s up t + on_account up t (ts_reg s))"

lemma accept_user_Inr: "fst (accept_user register user s) = Inr ref \<Longrightarrow> ref = user"
  by (auto simp: accept_user_def split: option.splits prod.splits bool.splits)

lemma authenticate_Inr:
  "fst (authenticate r cs rawUUID token register s) = Inr ref \<Longrightarrow> map_of (rg_users r) rawUUID = Some ref"
  by (auto simp: authenticate_def Let_def split: option.splits if_splits sum.splits dest!: accept_user_Inr)

lemma live_lt: "users_inv r \<Longrightarrow> ref \<in> set (live r) \<Longrightarrow> ref < rg_next r"
  unfolding users_inv_def by blast

lemma registered_live: "map_of (rg_users r) i = Some ref \<Longrightarrow> ref \<in> set (live r)"
  by (force dest: map_of_SomeD)

lemma session_started_inv:
  assumes inv: "users_inv r" and ref: "ref \<in> set (live r)"
  shows "users_inv (session_started ref r)" "on_account up t (session_started ref r) = on_account up t r"
proof -
  have "0 \<le> u_BytesUp (rg_heap r ref)" "0 \<le> u_BytesDown (rg_heap r ref)" "0 \<le> u_sessions (rg_heap r ref)"
    using inv by (simp_all add: users_inv_def)
  then show "users_inv (session_started ref r)"
    unfolding session_started_def using ref by (intro modify_user_inv inv) simp_all
  show "on_account up t (session_started ref r) = on_account up t r"
    unfolding session_started_def account_upd [OF live_lt [OF inv ref]]
    by (simp add: account_def counter_def)
qed

lemma sessionEnded_inv:
  assumes inv: "users_inv r" and busy: "0 < u_sessions (rg_heap r ref)"
  shows "users_inv (sessionEnded (Some ref) r)" "on_account up t (sessionEnded (Some ref) r) = on_account up t r"
proof -
  have ref: "ref \<in> set (live r)" using session_live [OF inv busy] .
  have "0 \<le> u_BytesUp (rg_heap r ref)" "0 \<le> u_BytesDown (rg_heap r ref)"
    using inv by (simp_all add: users_inv_def)
  then show "users_inv (sessionEnded (Some ref) r)"
    unfolding sessionEnded_def option.case using ref busy by (intro modify_user_inv inv) simp_all
  show "on_account up t (sessionEnded (Some ref) r) = on_account up t r"
    unfolding sessionEnded_def option.case account_upd [OF live_lt [OF inv ref]]
    by (simp add: account_def counter_def)
qed

lemma add_bytes_inv:
  assumes inv: "users_inv r" and busy: "0 < u_sessions (rg_heap r ref)" and n: "0 \<le> n"
  shows "users_inv (add_bytes up ref n r)"
    and "on_account dir t (add_bytes up ref n r)
      = on_account dir t r + (if dir = up \<and> u_TrafficID (rg_heap r ref) = t then n else 0)"
proof -
  have ref: "ref \<in> set (live r)" using session_live [OF inv busy] .
  have "0 \<le> u_BytesUp (rg_heap r ref)" "0 \<le> u_BytesDown (rg_heap r ref)"
    using inv by (simp_all add: users_inv_def)
  then show "users_inv (add_bytes up ref n r)"
    unfolding add_bytes_def Let_def using ref busy n by (intro modify_user_inv inv) simp_all
  show "on_account dir t (add_bytes up ref n r)
      = on_account dir t r + (if dir = up \<and> u_TrafficID (rg_heap r ref) = t then n else 0)"
    unfolding add_bytes_def Let_def account_upd [OF live_lt [OF inv ref]]
    by (simp add: account_def counter_def)
qed

lemma conserved_step: "traffic_step s s' \<Longrightarrow> conserved s \<Longrightarrow> conserved s'"
proof (induction rule: traffic_step.induct)
  case (tr_update parse clients s render)
  then show ?case by (simp add: conserved_def SetUsers_inv SetUsers_account)
next
  case (tr_login s cs rawUUID token ref)
  then have "map_of (rg_users (ts_reg s)) rawUUID = Some ref"
    unfolding Authenticate_def by (intro authenticate_Inr)
  with tr_login show ?case
    by (simp add: conserved_def session_started_inv registered_live del: set_append)
next
  case (tr_bytes s ref n up)
  then show ?case by (auto simp: conserved_def add_bytes_inv)
next
  case (tr_logout s ref)
  then show ?case by (simp add: conserved_def sessionEnded_inv)
next
  case (tr_collect s r ds)
  then have "users_inv r" "on_account up t r = 0" "billed up t ds = on_account up t (ts_reg s)" for up t
    using CollectTrafficDeltas_inv [of "ts_reg s"] Collect_account [of "ts_reg s"]
    by (simp_all add: conserved_def)
  with tr_collect show ?case by (simp add: conserved_def)
qed

lemma reachable_conserved: "traffic_reachable s \<Longrightarrow> conserved s"
proof (induction rule: traffic_reachable.induct)
  case start
  then show ?case
    by (simp add: conserved_def inv_NewUserRegistry) (simp add: on_account_def NewUserRegistry_def)
next
  case (step s t)
  then show ?case by (blast intro: conserved_step)
qed


section \<open>Properties\<close>

subsection \<open>A concrete run\<close>

definition demo_parse :: "string \<Rightarrow> bytes option" where
  "demo_parse s = (if length s = 2 then Some (bytes_of_string s) else None)"

definition demo_client :: "string \<Rightarrow> string \<Rightarrow> TuicClientSettings" where
  "demo_client uid pw = \<lparr>cs_TrafficID = 9, cs_UUID = uid, cs_Password = pw, cs_Email = ''a''\<rparr>"

definition demo_tls :: conn_state where
  "demo_tls = \<lparr>cn_HandshakeComplete = True, cn_ExportKeyingMaterial = \<lambda>lbl ctx n. Inr (take n (lbl @ ctx))\<rparr>"

definition demo_one :: UserRegistry where
  "demo_one = fst (SetUsers demo_parse string_of_bytes [demo_client ''u1'' ''p''] NewUserRegistry)"

definition demo_two :: "UserRegistry \<times> nat list" where
  "demo_two = SetUsers demo_parse string_of_bytes [demo_client ''u1'' ''q'', demo_client ''u2'' ''p''] demo_one"

lemma demo_valid:
  "ValidateClients demo_parse [demo_client ''u1'' ''p''] = None"
  "ValidateClients demo_parse [demo_client ''u1'' ''q'', demo_client ''u2'' ''p''] = None"
  by (simp_all add: ValidateClients_def demo_parse_def demo_client_def bytes_of_string_def byte_of_char_def)

lemma demo_one_inv: "users_inv demo_one"
  unfolding demo_one_def by (intro SetUsers_inv inv_NewUserRegistry demo_valid)

lemmas auth_demo_defs = demo_one_def demo_two_def SetUsers_def set_client_def demo_parse_def demo_client_def
  NewUserRegistry_def new_ref_def newUser_def same_settings_def bytes_of_string_def byte_of_char_def
  string_of_bytes_def Let_def blank_user_def

lemma demo_one_state:
  "map_of (rg_users demo_one) (bytes_of_string ''u1'') = Some 0"
  "u_Password (rg_heap demo_one 0) = ''p''" "u_sessions (rg_heap demo_one 0) = 0"
  "u_TrafficID (rg_heap demo_one 0) = 9" "rg_retired demo_one = []"
  by (simp_all add: auth_demo_defs)

lemma demo_two_state:
  "registered demo_one = {0}" "registered (fst demo_two) = {1, 2}" "snd demo_two = [0]"
  by (simp_all add: auth_demo_defs registered_def numeral_2_eq_2)

subsection \<open>Statements\<close>

lemma authenticate_eq:
  "authenticate r (Some cs) rawUUID token register s =
     (let u = \<lambda>ref. rg_heap r ref;
          key = \<lambda>lbl ref. cn_ExportKeyingMaterial cs lbl (bytes_of_string (u_Password (u ref))) 32 in
      case map_of (rg_users r) rawUUID of
        None \<Rightarrow> (Inl ErrUserNotFound, s)
      | Some ref \<Rightarrow>
          if \<not> cn_HandshakeComplete cs then (Inl ErrInvalidTLSState, s)
          else if Inr token \<in> {key rawUUID ref, key (bytes_of_string (u_UUIDStr (u ref))) ref} then
            (if (case register of None \<Rightarrow> True | Some f \<Rightarrow> fst (f ref s)) then Inr ref else Inl ErrUserNotFound,
             case register of None \<Rightarrow> s | Some f \<Rightarrow> snd (f ref s))
          else (case (key rawUUID ref, key (bytes_of_string (u_UUIDStr (u ref))) ref) of
              (Inl err, Inl _) \<Rightarrow> Inl (ErrExport err) | _ \<Rightarrow> Inl ErrAuthFailed, s))"
  by (auto simp: authenticate_def accept_user_def Let_def split: option.splits sum.splits prod.splits bool.splits)


text \<open>
  C28: a configuration update. After valid clients are installed the registry holds exactly one
  user per client, under its UUID and with its settings; a client whose settings did not change
  keeps its user object, counters and sessions included, and any other gets a new one; and the
  users reported as revoked are exactly the objects that were registered and no longer are, all
  of which are kept as retired.
\<close>

theorem SetUsers_exact:
  assumes "users_inv r" and "ValidateClients parse clients = None"
    and "SetUsers parse render clients r = (r', revoked)"
  shows "length (rg_users r') = length clients
    \<and> (\<forall>c \<in> set clients. \<exists>i ref. parse (cs_UUID c) = Some i \<and> map_of (rg_users r') i = Some ref
         \<and> same_settings (rg_heap r' ref) c
         \<and> (\<forall>old \<in> set_option (map_of (rg_users r) i).
              (ref = old \<longleftrightarrow> same_settings (rg_heap r old) c) \<and> rg_heap r' old = rg_heap r old))
    \<and> set revoked = registered r - registered r' \<and> distinct revoked
    \<and> set (rg_retired r') = set (rg_retired r) \<union> set revoked"
proof -
  obtain ids where ids: "map (\<lambda>c. parse (cs_UUID c)) clients = map Some ids" "distinct ids"
    using assms(2) by (auto simp: ValidateClients_None)
  note parts = SetUsers_parts [OF assms(1) ids assms(3)]
  have len: "length ids = length clients" using ids(1) by (metis length_map)
  have ks: "keys (rg_users r') = ids" using parts(3) len by (simp add: sl_settings_def)
  then have wf: "wf_map (rg_users r')" using ids(2) by (simp add: wf_map_def)
  have "\<exists>i ref. parse (cs_UUID c) = Some i \<and> map_of (rg_users r') i = Some ref
         \<and> same_settings (rg_heap r' ref) c
         \<and> (\<forall>old \<in> set_option (map_of (rg_users r) i).
              (ref = old \<longleftrightarrow> same_settings (rg_heap r old) c) \<and> rg_heap r' old = rg_heap r old)"
    if "c \<in> set clients" for c
  proof -
    obtain n where n: "n < length clients" "clients ! n = c" using \<open>c \<in> set clients\<close> by (auto simp: in_set_conv_nth)
    let ?i = "ids ! n"
    have p: "parse (cs_UUID c) = Some ?i" using arg_cong [OF ids(1), of "\<lambda>xs. xs ! n"] n len by simp
    have "?i \<in> set (keys (rg_users r'))" using ks n len by simp
    then obtain ref where ref: "(?i, ref) \<in> set (rg_users r')" by auto
    have "(?i, c) \<in> set (zip ids clients)" using n len by (auto simp: set_zip)
    then have "same_settings (rg_heap r' ref) c"
      "\<And>old. (?i, old) \<in> set (rg_users r) \<Longrightarrow> (ref = old \<longleftrightarrow> same_settings (rg_heap r old) c)"
      using parts(3) ref unfolding sl_settings_def by fastforce+
    moreover have "rg_heap r' old = rg_heap r old" if "(?i, old) \<in> set (rg_users r)" for old
      using parts(1) user_registered(1) [OF assms(1) that] by (simp add: sl_frame_def)
    ultimately show ?thesis
      using p ref wf by (auto simp: map_of_wf dest: map_of_SomeD)
  qed
  then show ?thesis using parts ks len by (metis length_map)
qed

theorem SetUsers_exact_witness:
  "length (rg_users (fst demo_two)) = 2 \<and> set (snd demo_two) = registered demo_one - registered (fst demo_two)
   \<and> snd demo_two = [0]"
proof -
  have "SetUsers demo_parse string_of_bytes [demo_client ''u1'' ''q'', demo_client ''u2'' ''p''] demo_one
      = (fst demo_two, snd demo_two)" by (simp add: demo_two_def)
  from SetUsers_exact [OF demo_one_inv demo_valid(2) this]
  have "length (rg_users (fst demo_two)) = 2"
    "set (snd demo_two) = registered demo_one - registered (fst demo_two)" by simp_all
  then show ?thesis by (simp only: demo_two_state)
qed


definition demo_run :: trafficSystem where
  "demo_run = \<lparr>ts_reg = fst (SetUsers demo_parse string_of_bytes [demo_client ''u1'' ''q'', demo_client ''u2'' ''p'']
       (add_bytes True 0 40 (session_started 0 demo_one))),
     ts_added = (\<lambda>_ _. 0)(True := (\<lambda>_. 0)(9 := 40)), ts_collected = \<lambda>_ _. 0\<rparr>"

lemma demo_run_reachable: "traffic_reachable demo_run"
proof -
  define s where "s reg added = \<lparr>ts_reg = reg, ts_added = added, ts_collected = \<lambda>_ _. 0\<rparr>"
    for reg and added :: "bool \<Rightarrow> int \<Rightarrow> int"
  have s0: "traffic_reachable (s NewUserRegistry (\<lambda>_ _. 0))"
    unfolding s_def by (rule traffic_reachable.start)
  have "traffic_reachable (s demo_one (\<lambda>_ _. 0))"
    using traffic_reachable.step [OF s0 tr_update [OF demo_valid(1), where render = string_of_bytes]]
    by (simp add: s_def demo_one_def)
  moreover have "Authenticate (ts_reg (s demo_one (\<lambda>_ _. 0))) (Some demo_tls) (bytes_of_string ''u1'')
      (bytes_of_string ''u1p'') = Inr 0"
    by (simp add: s_def Authenticate_def authenticate_def demo_one_state demo_tls_def Let_def
        accept_user_def) (simp add: bytes_of_string_def)
  ultimately have s2: "traffic_reachable (s (session_started 0 demo_one) (\<lambda>_ _. 0))"
    using traffic_reachable.step [OF _ tr_login] by (fastforce simp: s_def)
  have "0 < u_sessions (rg_heap (ts_reg (s (session_started 0 demo_one) (\<lambda>_ _. 0))) 0)"
    by (simp add: s_def session_started_def demo_one_state)
  from traffic_reachable.step [OF s2 tr_bytes [OF this, of 40 True]]
  have "traffic_reachable (s (add_bytes True 0 40 (session_started 0 demo_one))
      ((\<lambda>_ _. 0)(True := (\<lambda>_. 0)(9 := 40))))"
    by (simp add: s_def session_started_def demo_one_state)
  from traffic_reachable.step [OF this tr_update [OF demo_valid(2), where render = string_of_bytes]]
  show ?thesis by (simp add: s_def demo_run_def)
qed


end
