(* ===== verification/Tuic_Gate.thy ===== *)
theory Tuic_Gate
  imports Tuic_Socks
begin

text \<open>
  \<open>internal/tuic/relay_gate.go\<close>: the gate between the TUIC servers and the local SOCKS
  inbounds of Xray. A handshake with the relay holds the gate (\<open>acquire\<close>); replacing the relay's
  accounts (\<open>BeginUpdate\<close> .. \<open>Finish\<close>/\<open>Cancel\<close>) pauses it and waits for the handshakes that
  hold it.

  Each definition is one critical section of the code. The channel \<open>writer\<close> of capacity one is
  the flag \<open>g_writer\<close>. The channel \<open>changed\<close>, which the code closes and replaces to wake
  everyone, is the number of times it was replaced: a goroutine that waits on channel number \<open>n\<close>
  is woken once \<open>g_changed\<close> is no longer \<open>n\<close>. The step relation interleaves the critical
  sections of any number of handshakes and updates.
\<close>

definition maxPendingRelayOpens :: int where "maxPendingRelayOpens = 256"

record RelayGate =
  g_writer :: bool
  g_changed :: nat
  g_paused :: bool
  g_ready :: bool
  g_owner :: int
  g_accounts :: "string list"
  g_active :: int
  g_waiting :: int

datatype ctx_err = Canceled | DeadlineExceeded
datatype gate_err = ErrRelayQueueFull | CtxErr ctx_err

definition newRelayGate :: RelayGate where
  "newRelayGate = \<lparr>g_writer = False, g_changed = 0, g_paused = False, g_ready = False, g_owner = 0,
     g_accounts = [], g_active = 0, g_waiting = 0\<rparr>"

text \<open>The slots of the gates, as pointers to the gates allocated so far.\<close>

record gate_slots =
  sl_gates :: "int \<Rightarrow> nat option"
  sl_next :: nat

definition ManagedRelayGate :: "int \<Rightarrow> gate_slots \<Rightarrow> gate_slots \<times> nat option" where
  "ManagedRelayGate port slots =
     (let index = port - SOCKSBasePort - 1 in
      if index < 0 \<or> relayPortSlots \<le> index then (slots, None)
      else (case sl_gates slots index of
          Some gate \<Rightarrow> (slots, Some gate)
        | None \<Rightarrow> (slots\<lparr>sl_gates := (sl_gates slots)(index := Some (sl_next slots)), sl_next := Suc (sl_next slots)\<rparr>,
                   Some (sl_next slots))))"

definition signalLocked :: "RelayGate \<Rightarrow> RelayGate" where
  "signalLocked g = g\<lparr>g_changed := Suc (g_changed g)\<rparr>"

definition admits :: "RelayGate \<Rightarrow> int \<Rightarrow> string \<Rightarrow> bool" where
  "admits g owner email \<longleftrightarrow> \<not> g_paused g \<and> g_ready g \<and> g_owner g = owner \<and> email \<in> set (g_accounts g)"

datatype outcome = Granted | Failed gate_err | Wait nat

definition acquire_enter :: "RelayGate \<Rightarrow> RelayGate \<times> gate_err option" where
  "acquire_enter g =
     (if maxPendingRelayOpens \<le> g_waiting g then (g, Some ErrRelayQueueFull)
      else (g\<lparr>g_waiting := g_waiting g + 1\<rparr>, None))"

definition acquire_try :: "ctx_err option \<Rightarrow> int \<Rightarrow> string \<Rightarrow> RelayGate \<Rightarrow> RelayGate \<times> outcome" where
  "acquire_try ctx owner email g =
     (case ctx of
        Some err \<Rightarrow> (g\<lparr>g_waiting := g_waiting g - 1\<rparr>, Failed (CtxErr err))
      | None \<Rightarrow>
          if admits g owner email then
            (g\<lparr>g_active := g_active g + 1, g_waiting := g_waiting g - 1\<rparr>, Granted)
          else (g, Wait (g_changed g)))"

definition release_grant :: "RelayGate \<Rightarrow> RelayGate" where
  "release_grant g = signalLocked (g\<lparr>g_active := g_active g - 1\<rparr>)"

definition ReadyFor :: "int \<Rightarrow> RelayGate \<Rightarrow> bool" where
  "ReadyFor owner g \<longleftrightarrow> g_ready g \<and> g_owner g = owner"

definition Invalidate :: "int \<Rightarrow> RelayGate \<Rightarrow> RelayGate" where
  "Invalidate owner g = signalLocked (g\<lparr>g_owner := owner, g_ready := False, g_accounts := []\<rparr>)"

definition begin_token :: "RelayGate \<Rightarrow> RelayGate option" where
  "begin_token g = (if g_writer g then None else Some (g\<lparr>g_writer := True\<rparr>))"

definition begin_pause :: "RelayGate \<Rightarrow> RelayGate" where
  "begin_pause g = signalLocked (g\<lparr>g_paused := True\<rparr>)"

definition begin_check :: "ctx_err option \<Rightarrow> RelayGate \<Rightarrow> RelayGate \<times> outcome" where
  "begin_check ctx g =
     (case ctx of
        Some err \<Rightarrow> (signalLocked (g\<lparr>g_paused := False\<rparr>), Failed (CtxErr err))
      | None \<Rightarrow> (g, if g_active g = 0 then Granted else Wait (g_changed g)))"

definition Finish :: "int \<Rightarrow> string list \<Rightarrow> bool \<Rightarrow> RelayGate \<Rightarrow> RelayGate" where
  "Finish owner emails available g = signalLocked
     (g\<lparr>g_owner := owner, g_ready := available, g_accounts := remdups emails, g_paused := False\<rparr>)"

definition Cancel :: "RelayGate \<Rightarrow> RelayGate" where
  "Cancel g = signalLocked (g\<lparr>g_paused := False\<rparr>)"

definition writer_done :: "RelayGate \<Rightarrow> RelayGate" where
  "writer_done g = g\<lparr>g_writer := False\<rparr>"

lemmas gate_defs [simp] = signalLocked_def release_grant_def Invalidate_def begin_pause_def Finish_def
  Cancel_def writer_done_def

subsection \<open>Handshakes and updates, interleaved\<close>

text \<open>
  A waiter is its owner, its email and the channel it waits on (\<open>None\<close>: it has not looked yet).
  The goroutine that holds the writer token is in one phase of \<open>BeginUpdate\<close>, between
  \<open>BeginUpdate\<close> and \<open>Finish\<close> (\<open>Updating\<close>), or about to give the token back.
\<close>

datatype updater = NoUpdate | HasToken | Draining "nat option" | Updating | Releasing

record gateSystem =
  gs_gate :: RelayGate
  gs_waiters :: "(int \<times> string \<times> nat option) list"
  gs_holders :: "(int \<times> string) list"
  gs_updater :: updater

definition woken :: "RelayGate \<Rightarrow> nat option \<Rightarrow> ctx_err option \<Rightarrow> bool" where
  "woken g seen ctx \<longleftrightarrow> seen \<noteq> Some (g_changed g) \<or> ctx \<noteq> None"

inductive gate_step :: "gateSystem \<Rightarrow> gateSystem \<Rightarrow> bool" where
  gt_enter: "acquire_enter (gs_gate s) = (g, None) \<Longrightarrow>
    gate_step s (s\<lparr>gs_gate := g, gs_waiters := (owner, email, None) # gs_waiters s\<rparr>)"
| gt_refuse: "acquire_enter (gs_gate s) = (g, Some err) \<Longrightarrow> gate_step s (s\<lparr>gs_gate := g\<rparr>)"
| gt_grant: "(owner, email, seen) \<in> set (gs_waiters s) \<Longrightarrow> woken (gs_gate s) seen ctx \<Longrightarrow>
    acquire_try ctx owner email (gs_gate s) = (g, Granted) \<Longrightarrow>
    gate_step s (s\<lparr>gs_gate := g, gs_waiters := remove1 (owner, email, seen) (gs_waiters s),
      gs_holders := (owner, email) # gs_holders s\<rparr>)"
| gt_give_up: "(owner, email, seen) \<in> set (gs_waiters s) \<Longrightarrow> woken (gs_gate s) seen ctx \<Longrightarrow>
    acquire_try ctx owner email (gs_gate s) = (g, Failed err) \<Longrightarrow>
    gate_step s (s\<lparr>gs_gate := g, gs_waiters := remove1 (owner, email, seen) (gs_waiters s)\<rparr>)"
| gt_wait: "(owner, email, seen) \<in> set (gs_waiters s) \<Longrightarrow> woken (gs_gate s) seen ctx \<Longrightarrow>
    acquire_try ctx owner email (gs_gate s) = (g, Wait n) \<Longrightarrow>
    gate_step s (s\<lparr>gs_gate := g,
      gs_waiters := (owner, email, Some n) # remove1 (owner, email, seen) (gs_waiters s)\<rparr>)"
| gt_release: "h \<in> set (gs_holders s) \<Longrightarrow>
    gate_step s (s\<lparr>gs_gate := release_grant (gs_gate s), gs_holders := remove1 h (gs_holders s)\<rparr>)"
| gt_token: "begin_token (gs_gate s) = Some g \<Longrightarrow>
    gate_step s (s\<lparr>gs_gate := g, gs_updater := HasToken\<rparr>)"
| gt_pause: "gs_updater s = HasToken \<Longrightarrow>
    gate_step s (s\<lparr>gs_gate := begin_pause (gs_gate s), gs_updater := Draining None\<rparr>)"
| gt_begun: "gs_updater s = Draining seen \<Longrightarrow> woken (gs_gate s) seen ctx \<Longrightarrow>
    begin_check ctx (gs_gate s) = (g, Granted) \<Longrightarrow>
    gate_step s (s\<lparr>gs_gate := g, gs_updater := Updating\<rparr>)"
| gt_abort: "gs_updater s = Draining seen \<Longrightarrow> woken (gs_gate s) seen ctx \<Longrightarrow>
    begin_check ctx (gs_gate s) = (g, Failed err) \<Longrightarrow>
    gate_step s (s\<lparr>gs_gate := g, gs_updater := Releasing\<rparr>)"
| gt_drain: "gs_updater s = Draining seen \<Longrightarrow> woken (gs_gate s) seen ctx \<Longrightarrow>
    begin_check ctx (gs_gate s) = (g, Wait n) \<Longrightarrow>
    gate_step s (s\<lparr>gs_gate := g, gs_updater := Draining (Some n)\<rparr>)"
| gt_finish: "gs_updater s = Updating \<Longrightarrow>
    gate_step s (s\<lparr>gs_gate := Finish owner emails available (gs_gate s), gs_updater := Releasing\<rparr>)"
| gt_cancel: "gs_updater s = Updating \<Longrightarrow>
    gate_step s (s\<lparr>gs_gate := Cancel (gs_gate s), gs_updater := Releasing\<rparr>)"
| gt_back: "gs_updater s = Releasing \<Longrightarrow>
    gate_step s (s\<lparr>gs_gate := writer_done (gs_gate s), gs_updater := NoUpdate\<rparr>)"
| gt_invalidate: "gate_step s (s\<lparr>gs_gate := Invalidate owner (gs_gate s)\<rparr>)"

definition initial_gate :: gateSystem where
  "initial_gate = \<lparr>gs_gate = newRelayGate, gs_waiters = [], gs_holders = [], gs_updater = NoUpdate\<rparr>"

inductive gate_reachable :: "gateSystem \<Rightarrow> bool" where
  start: "gate_reachable initial_gate"
| step: "gate_reachable s \<Longrightarrow> gate_step s t \<Longrightarrow> gate_reachable t"

fun is_paused :: "updater \<Rightarrow> bool" where
  "is_paused (Draining seen) = True"
| "is_paused Updating = True"
| "is_paused _ = False"

definition gate_inv :: "gateSystem \<Rightarrow> bool" where
  "gate_inv s \<longleftrightarrow>
     g_active (gs_gate s) = int (length (gs_holders s))
     \<and> g_waiting (gs_gate s) = int (length (gs_waiters s))
     \<and> g_waiting (gs_gate s) \<le> maxPendingRelayOpens
     \<and> (g_writer (gs_gate s) \<longleftrightarrow> gs_updater s \<noteq> NoUpdate)
     \<and> (g_paused (gs_gate s) \<longleftrightarrow> is_paused (gs_updater s))
     \<and> (gs_updater s = Updating \<longrightarrow> gs_holders s = [])"

text \<open>A goroutine that sleeps on the current channel has nothing to do.\<close>

definition wake_inv :: "gateSystem \<Rightarrow> bool" where
  "wake_inv s \<longleftrightarrow>
     (\<forall>(owner, email, seen) \<in> set (gs_waiters s). \<forall>n. seen = Some n \<longrightarrow>
        n \<le> g_changed (gs_gate s) \<and> (n = g_changed (gs_gate s) \<longrightarrow> \<not> admits (gs_gate s) owner email))
     \<and> (\<forall>n. gs_updater s = Draining (Some n) \<longrightarrow>
        n \<le> g_changed (gs_gate s) \<and> (n = g_changed (gs_gate s) \<longrightarrow> g_active (gs_gate s) \<noteq> 0))"

lemma gate_inv_initial: "gate_inv initial_gate" "wake_inv initial_gate"
  by (simp_all add: gate_inv_def wake_inv_def initial_gate_def newRelayGate_def maxPendingRelayOpens_def)

lemma length_remove1_mem: "x \<in> set xs \<Longrightarrow> int (length (remove1 x xs)) = int (length xs) - 1"
  by (cases "length xs") (auto simp: length_remove1)

lemma gate_step_inv: "gate_step s t \<Longrightarrow> gate_inv s \<Longrightarrow> gate_inv t"
  by (induction rule: gate_step.induct)
    (auto simp: gate_inv_def acquire_enter_def acquire_try_def begin_token_def begin_check_def
      admits_def length_remove1_mem split: if_splits option.splits)

definition waiter_ok :: "RelayGate \<Rightarrow> int \<times> string \<times> nat option \<Rightarrow> bool" where
  "waiter_ok g w = (case w of (owner, email, seen) \<Rightarrow>
     \<forall>n. seen = Some n \<longrightarrow> n \<le> g_changed g \<and> (n = g_changed g \<longrightarrow> \<not> admits g owner email))"

definition updater_ok :: "RelayGate \<Rightarrow> updater \<Rightarrow> bool" where
  "updater_ok g u \<longleftrightarrow> (\<forall>n. u = Draining (Some n) \<longrightarrow>
     n \<le> g_changed g \<and> (n = g_changed g \<longrightarrow> g_active g \<noteq> 0))"

lemma wake_inv_alt:
  "wake_inv s \<longleftrightarrow> (\<forall>w \<in> set (gs_waiters s). waiter_ok (gs_gate s) w) \<and> updater_ok (gs_gate s) (gs_updater s)"
  by (simp add: wake_inv_def waiter_ok_def updater_ok_def)

lemma ok_signal:
  "waiter_ok g w \<Longrightarrow> g_changed g' = Suc (g_changed g) \<Longrightarrow> waiter_ok g' w"
  "updater_ok g u \<Longrightarrow> g_changed g' = Suc (g_changed g) \<Longrightarrow> updater_ok g' u"
  by (auto simp: waiter_ok_def updater_ok_def)

lemma ok_same:
  "waiter_ok g w \<Longrightarrow> g_changed g' = g_changed g \<Longrightarrow> (\<And>ow e. admits g' ow e = admits g ow e) \<Longrightarrow> waiter_ok g' w"
  "updater_ok g u \<Longrightarrow> g_changed g' = g_changed g \<Longrightarrow> g_active g' = g_active g \<or> 0 < g_active g' \<Longrightarrow> updater_ok g' u"
  by (auto simp: waiter_ok_def updater_ok_def)

lemma ok_start [simp]: "waiter_ok g (owner, email, None)" "updater_ok g (Draining None)"
  "updater_ok g NoUpdate" "updater_ok g HasToken" "updater_ok g Updating" "updater_ok g Releasing"
  by (simp_all add: waiter_ok_def updater_ok_def)

lemma wake_keep:
  assumes "wake_inv s" and "g_changed g = g_changed (gs_gate s)"
    and "admits g = admits (gs_gate s)"
    and "g_active g = g_active (gs_gate s) \<or> 0 < g_active g"
  shows "\<forall>w \<in> set (gs_waiters s). waiter_ok g w" "updater_ok g (gs_updater s)"
  using assms ok_same by (auto simp: wake_inv_alt)

lemma wake_signal:
  assumes "wake_inv s" and "g_changed g = Suc (g_changed (gs_gate s))"
  shows "\<forall>w \<in> set (gs_waiters s). waiter_ok g w" "updater_ok g (gs_updater s)"
  using assms ok_signal by (auto simp: wake_inv_alt)

lemma set_remove1_Ball: "\<forall>x \<in> set xs. P x \<Longrightarrow> \<forall>x \<in> set (remove1 y xs). P x"
  by (meson notin_set_remove1)

lemma gate_step_wake: "gate_step s t \<Longrightarrow> gate_inv s \<Longrightarrow> wake_inv s \<Longrightarrow> wake_inv t"
proof (induction rule: gate_step.induct)
  case (gt_enter s g owner email)
  then have "g_changed g = g_changed (gs_gate s)" "admits g = admits (gs_gate s)" "g_active g = g_active (gs_gate s)"
    by (auto simp: acquire_enter_def admits_def fun_eq_iff split: if_splits)
  from wake_keep [OF gt_enter(3) this(1,2) disjI1 [OF this(3)]] show ?case by (simp add: wake_inv_alt)
next
  case (gt_grant owner email seen s ctx g)
  then have "g_changed g = g_changed (gs_gate s)" "admits g = admits (gs_gate s)" "0 < g_active g"
    by (auto simp: acquire_try_def admits_def fun_eq_iff gate_inv_def split: if_splits option.splits)
  note ok = wake_keep [OF gt_grant(5) this(1,2) disjI2 [OF this(3)]]
  from set_remove1_Ball [OF ok(1)] ok(2) show ?case by (simp add: wake_inv_alt)
next
  case (gt_give_up owner email seen s ctx g err)
  then have "g_changed g = g_changed (gs_gate s)" "admits g = admits (gs_gate s)" "g_active g = g_active (gs_gate s)"
    by (auto simp: acquire_try_def admits_def fun_eq_iff split: if_splits option.splits)
  note ok = wake_keep [OF gt_give_up(5) this(1,2) disjI1 [OF this(3)]]
  from set_remove1_Ball [OF ok(1)] ok(2) show ?case by (simp add: wake_inv_alt)
next
  case (gt_wait owner email seen s ctx g n)
  then have "g = gs_gate s" "n = g_changed g" "\<not> admits g owner email"
    by (auto simp: acquire_try_def split: if_splits option.splits)
  moreover have "\<forall>w \<in> set (gs_waiters s). waiter_ok (gs_gate s) w" "updater_ok (gs_gate s) (gs_updater s)"
    using gt_wait(5) by (simp_all add: wake_inv_alt)
  note set_remove1_Ball [OF this(1)] this(2)
  ultimately show ?case by (simp add: wake_inv_alt) (simp add: waiter_ok_def)
next
  case (gt_token s g)
  then have "g_changed g = g_changed (gs_gate s)" "admits g = admits (gs_gate s)"
    by (auto simp: begin_token_def admits_def fun_eq_iff split: if_splits)
  moreover have "g_active g = g_active (gs_gate s)"
    using gt_token by (auto simp: begin_token_def split: if_splits)
  ultimately show ?case using wake_keep(1) [OF gt_token(3), of g] by (simp add: wake_inv_alt)
next
  case (gt_begun s seen ctx g)
  then show ?case by (auto simp: wake_inv_alt begin_check_def split: option.splits if_splits)
next
  case (gt_abort s seen ctx g err)
  then have "g_changed g = Suc (g_changed (gs_gate s))"
    by (auto simp: begin_check_def split: option.splits if_splits)
  then show ?case using wake_signal [OF gt_abort(5)] by (simp add: wake_inv_alt)
next
  case (gt_drain s seen ctx g n)
  then show ?case by (auto simp: wake_inv_alt begin_check_def updater_ok_def split: option.splits if_splits)
next
  case (gt_back s)
  have "admits (writer_done (gs_gate s)) = admits (gs_gate s)" by (simp add: admits_def fun_eq_iff)
  from wake_keep(1) [OF gt_back(3) _ this] show ?case by (simp add: wake_inv_alt)
next
  case (gt_refuse s g err)
  then show ?case by (auto simp: acquire_enter_def split: if_splits)
next
  case (gt_invalidate s owner)
  then show ?case using wake_signal [of s "Invalidate owner (gs_gate s)"] by (simp add: wake_inv_alt)
next
  case (gt_release h s)
  then show ?case using wake_signal [of s "release_grant (gs_gate s)"] by (simp add: wake_inv_alt)
next
  case (gt_pause s)
  then show ?case using wake_signal [of s "begin_pause (gs_gate s)"] by (simp add: wake_inv_alt)
next
  case (gt_finish s owner emails available)
  then show ?case using wake_signal [of s "Finish owner emails available (gs_gate s)"] by (simp add: wake_inv_alt)
next
  case (gt_cancel s)
  then show ?case using wake_signal [of s "Cancel (gs_gate s)"] by (simp add: wake_inv_alt)
qed

lemma gate_reachable_inv: "gate_reachable s \<Longrightarrow> gate_inv s \<and> wake_inv s"
  by (induction rule: gate_reachable.induct)
    (auto simp: gate_inv_initial intro: gate_step_inv gate_step_wake)


subsection \<open>Slots\<close>

definition no_gates :: gate_slots where
  "no_gates = \<lparr>sl_gates = \<lambda>_. None, sl_next = 0\<rparr>"

definition request_gates :: "int list \<Rightarrow> gate_slots" where
  "request_gates ports = fold (\<lambda>port slots. fst (ManagedRelayGate port slots)) ports no_gates"

definition slots_inv :: "gate_slots \<Rightarrow> bool" where
  "slots_inv slots \<longleftrightarrow> (\<forall>i g. sl_gates slots i = Some g \<longrightarrow> g < sl_next slots)
     \<and> (\<forall>i j g. sl_gates slots i = Some g \<longrightarrow> sl_gates slots j = Some g \<longrightarrow> i = j)"

lemma ManagedRelayGate_inv:
  assumes "slots_inv slots" shows "slots_inv (fst (ManagedRelayGate port slots))"
proof -
  let ?i = "port - SOCKSBasePort - 1"
  let ?s = "slots\<lparr>sl_gates := (sl_gates slots)(?i := Some (sl_next slots)), sl_next := Suc (sl_next slots)\<rparr>"
  have "slots_inv ?s"
    using assms by (auto simp: slots_inv_def less_SucI split: if_splits)
  then show ?thesis using assms by (simp add: ManagedRelayGate_def Let_def split: option.split)
qed

lemma request_gates_inv: "slots_inv (request_gates ports)"
proof -
  have "slots_inv slots \<Longrightarrow> slots_inv (fold (\<lambda>port slots. fst (ManagedRelayGate port slots)) ports slots)" for slots
    by (induction ports arbitrary: slots) (simp_all add: ManagedRelayGate_inv)
  moreover have "slots_inv no_gates" by (simp add: slots_inv_def no_gates_def)
  ultimately show ?thesis unfolding request_gates_def by blast
qed

lemma inbound_slot:
  "0 \<le> SOCKSPortForInbound i - SOCKSBasePort - 1 \<and> SOCKSPortForInbound i - SOCKSBasePort - 1 < relayPortSlots"
proof -
  have "0 \<le> (i - 1) mod 1000 \<and> (i - 1) mod 1000 < 1000" by simp
  then show ?thesis
    unfolding SOCKSPortForInbound_def relayPortSlots_def SOCKSBasePort_def by (auto split: if_split)
qed

section \<open>Properties\<close>

definition demo_gate :: gateSystem where
  "demo_gate = \<lparr>gs_gate = newRelayGate\<lparr>g_changed := 2, g_ready := True, g_owner := 3,
      g_accounts := [''a''], g_waiting := 1\<rparr>,
     gs_waiters = [(3, ''a'', Some 0)], gs_holders = [], gs_updater = NoUpdate\<rparr>"

lemma demo_gate_reachable: "gate_reachable demo_gate"
proof -
  define s where "s ch p r ow acc w ws u = \<lparr>gs_gate = \<lparr>g_writer = (u \<noteq> NoUpdate), g_changed = ch,
      g_paused = p, g_ready = r, g_owner = ow, g_accounts = acc, g_active = 0, g_waiting = w\<rparr>,
      gs_waiters = ws, gs_holders = [], gs_updater = u\<rparr>" for ch p r ow acc w ws u
  have "gate_reachable (s 0 False False 0 [] 0 [] NoUpdate)"
    using gate_reachable.start by (simp add: s_def initial_gate_def newRelayGate_def)
  from gate_reachable.step [OF this gt_enter [of _ _ 3 "''a''"]]
  have "gate_reachable (s 0 False False 0 [] 1 [(3, ''a'', None)] NoUpdate)"
    by (simp add: s_def acquire_enter_def maxPendingRelayOpens_def)
  from gate_reachable.step [OF this gt_wait [of 3 "''a''" None _ None]]
  have "gate_reachable (s 0 False False 0 [] 1 [(3, ''a'', Some 0)] NoUpdate)"
    by (simp add: s_def acquire_try_def woken_def admits_def)
  from gate_reachable.step [OF this gt_token]
  have "gate_reachable (s 0 False False 0 [] 1 [(3, ''a'', Some 0)] HasToken)"
    by (simp add: s_def begin_token_def)
  from gate_reachable.step [OF this gt_pause]
  have "gate_reachable (s 1 True False 0 [] 1 [(3, ''a'', Some 0)] (Draining None))"
    by (simp add: s_def)
  from gate_reachable.step [OF this gt_begun [of _ None None]]
  have "gate_reachable (s 1 True False 0 [] 1 [(3, ''a'', Some 0)] Updating)"
    by (simp add: s_def woken_def begin_check_def)
  from gate_reachable.step [OF this gt_finish [of _ 3 "[''a'']" True]]
  have "gate_reachable (s 2 False True 3 [''a''] 1 [(3, ''a'', Some 0)] Releasing)"
    by (simp add: s_def numeral_2_eq_2)
  from gate_reachable.step [OF this gt_back]
  show ?thesis by (simp add: s_def demo_gate_def newRelayGate_def)
qed

definition demo_granted :: gateSystem where
  "demo_granted = demo_gate\<lparr>gs_gate := (gs_gate demo_gate)\<lparr>g_active := 1, g_waiting := 0\<rparr>,
     gs_waiters := [], gs_holders := [(3, ''a'')]\<rparr>"

lemma demo_granted_step: "gate_step demo_gate demo_granted"
proof -
  have "gate_step demo_gate (demo_gate\<lparr>gs_gate := (gs_gate demo_gate)\<lparr>g_active := 1, g_waiting := 0\<rparr>,
      gs_waiters := remove1 (3, ''a'', Some 0) (gs_waiters demo_gate),
      gs_holders := (3, ''a'') # gs_holders demo_gate\<rparr>)"
    by (rule gt_grant [where ctx = None])
      (simp_all add: demo_gate_def woken_def acquire_try_def admits_def newRelayGate_def)
  then show ?thesis by (simp add: demo_granted_def) (simp add: demo_gate_def)
qed

text \<open>
  C29: mutual exclusion at the relay gate. In every reachable state the gate counts exactly the
  handshakes that hold it, at most 256 wait for it, one goroutine at most holds the writer token,
  and while that one replaces the relay's accounts no handshake is in progress.
\<close>

theorem gate_excludes_updates:
  assumes "gate_reachable s"
  shows "g_active (gs_gate s) = int (length (gs_holders s))
    \<and> g_waiting (gs_gate s) = int (length (gs_waiters s)) \<and> length (gs_waiters s) \<le> 256
    \<and> (g_writer (gs_gate s) \<longleftrightarrow> gs_updater s \<noteq> NoUpdate)
    \<and> (gs_updater s = Updating \<longrightarrow> gs_holders s = [])"
  using gate_reachable_inv [OF assms] by (auto simp: gate_inv_def maxPendingRelayOpens_def)

theorem gate_excludes_updates_witness:
  "length (gs_waiters demo_gate) = 1 \<and> g_active (gs_gate demo_gate) = 0
   \<and> length (gs_waiters demo_gate) \<le> 256"
  using gate_excludes_updates [OF demo_gate_reachable] by (simp add: demo_gate_def)

text \<open>
  C30: admission. A handshake gets the gate only while no update is draining or in progress,
  only after an update has marked the relay ready, only for the inbound that owns the relay and
  only for an account that update installed.
\<close>

theorem gate_admission:
  assumes "gate_reachable s" and "gate_step s t" and "length (gs_holders s) < length (gs_holders t)"
  shows "\<exists>owner email. gs_holders t = (owner, email) # gs_holders s
    \<and> gs_updater s \<in> {NoUpdate, HasToken, Releasing}
    \<and> ReadyFor owner (gs_gate s) \<and> email \<in> set (g_accounts (gs_gate s))"
  using assms(2,3)
proof cases
  case (gt_grant owner email seen ctx g)
  then have "admits (gs_gate s) owner email"
    by (auto simp: acquire_try_def split: option.splits if_splits)
  moreover have "\<not> is_paused (gs_updater s)"
    using calculation gate_reachable_inv [OF assms(1)] by (simp add: admits_def gate_inv_def)
  ultimately show ?thesis
    using gt_grant(1) by (cases "gs_updater s") (auto simp: admits_def ReadyFor_def)
next
  case (gt_release h)
  with assms(3) show ?thesis by (simp add: length_remove1 split: if_splits)
qed auto

theorem gate_admission_witness:
  "gs_holders demo_granted = [(3, ''a'')]
   \<and> (\<exists>owner email. gs_holders demo_granted = (owner, email) # gs_holders demo_gate
      \<and> ReadyFor owner (gs_gate demo_gate))"
  using gate_admission [OF demo_gate_reachable demo_granted_step]
  by (auto simp: demo_granted_def demo_gate_def)



text \<open>
  the relay gates. Whatever gates were asked for before, the SOCKS port of an inbound
  always has one; asking again gives the same gate, and two inbounds share a gate exactly when
  they share the port.
\<close>

theorem relay_gate_per_port:
  "let slots = request_gates ports; (slots', g) = ManagedRelayGate (SOCKSPortForInbound i) slots;
       (slots'', g') = ManagedRelayGate (SOCKSPortForInbound j) slots' in
   g \<noteq> None \<and> (g' = g \<longleftrightarrow> SOCKSPortForInbound j = SOCKSPortForInbound i)
   \<and> ManagedRelayGate (SOCKSPortForInbound i) slots' = (slots', g)"
proof -
  let ?slots = "request_gates ports"
  have "slots_inv ?slots" by (rule request_gates_inv)
  then show ?thesis
    using inbound_slot [of i] inbound_slot [of j]
    by (auto simp: ManagedRelayGate_def Let_def slots_inv_def split: option.splits) fastforce+
qed

end
