(* ===== verification/Tuic_Types.thy ===== *)
theory Tuic_Types
  imports Tuic_Auth Tuic_Reassembly "HOL-Library.Multiset" "HOL-Library.List_Lexorder" "HOL-Library.Char_ord"
begin

text \<open>
  \<open>internal/tuic/types.go\<close>: from a stored inbound to the instance the server runs, and the
  fingerprints the manager compares to decide between a restart, a user update and nothing.

  The JSON decoder is a parameter: \<open>decode\<close> is \<open>json.Unmarshal\<close> into the parsed settings
  (\<open>None\<close> on error). The file system and SHA-256 are parameters of the structural fingerprint.
  A nil pointer to a bool is \<open>None\<close>.
\<close>

record Inbound =
  ib_Id :: int
  ib_Tag :: string
  ib_Listen :: string
  ib_Port :: int
  ib_Protocol :: string
  ib_Settings :: string

record tuic_block =
  tb_Certificate :: string
  tb_PrivateKey :: string
  tb_CongestionControl :: string
  tb_ALPN :: "string list"
  tb_UDPRelayMode :: string
  tb_ZeroRTTHandshake :: "bool option"
  tb_LogLevel :: string
  tb_MaxIdleTime :: int
  tb_AuthenticationTimeout :: int
  tb_MaxUdpRelayPacketSize :: int
  tb_SNI :: string

record parsed_client =
  pc_TrafficID :: int
  pc_UUID :: string
  pc_ID :: string
  pc_Password :: string
  pc_Email :: string
  pc_Enable :: "bool option"
  pc_TotalGB :: int
  pc_ExpiryTime :: int

record parsed_settings =
  ps_Block :: tuic_block
  ps_Server :: "tuic_block option"
  ps_Clients :: "parsed_client list"

record Instance =
  in_Id :: int
  in_Tag :: string
  in_Listen :: string
  in_Port :: int
  in_Certificate :: string
  in_PrivateKey :: string
  in_CongestionControl :: string
  in_ALPN :: "string list"
  in_UDPRelayMode :: string
  in_ZeroRTTHandshake :: bool
  in_LogLevel :: string
  in_MaxIdleTime :: int
  in_AuthenticationTimeout :: int
  in_MaxUdpRelayPacketSize :: int
  in_SNI :: string
  in_Clients :: "TuicClientSettings list"

definition tuic_protocol :: string where "tuic_protocol = ''tuic''"

subsection \<open>Parsing an inbound\<close>

definition NormalizeCongestionControl :: "string \<Rightarrow> string option" where
  "NormalizeCongestionControl value =
     (let v = to_lower (trim_space value) in
      if v = [] \<or> v = ''bbr'' then Some ''bbr''
      else if v = ''cubic'' then Some ''cubic''
      else if v = ''new_reno'' \<or> v = ''reno'' then Some ''new_reno''
      else None)"

definition empty_block :: tuic_block where
  "empty_block = \<lparr>tb_Certificate = [], tb_PrivateKey = [], tb_CongestionControl = [], tb_ALPN = [],
     tb_UDPRelayMode = [], tb_ZeroRTTHandshake = None, tb_LogLevel = [], tb_MaxIdleTime = 0,
     tb_AuthenticationTimeout = 0, tb_MaxUdpRelayPacketSize = 0, tb_SNI = []\<rparr>"

text \<open>The settings of \<open>server\<close> that are given override those of the block around it.\<close>

definition override_block :: "tuic_block \<Rightarrow> tuic_block \<Rightarrow> tuic_block" where
  "override_block base server =
     \<lparr>tb_Certificate = (if tb_Certificate server \<noteq> [] then tb_Certificate server else tb_Certificate base),
      tb_PrivateKey = (if tb_PrivateKey server \<noteq> [] then tb_PrivateKey server else tb_PrivateKey base),
      tb_CongestionControl = (if tb_CongestionControl server \<noteq> [] then tb_CongestionControl server
        else tb_CongestionControl base),
      tb_ALPN = (if tb_ALPN server \<noteq> [] then tb_ALPN server else tb_ALPN base),
      tb_UDPRelayMode = (if tb_UDPRelayMode server \<noteq> [] then tb_UDPRelayMode server else tb_UDPRelayMode base),
      tb_ZeroRTTHandshake = (if tb_ZeroRTTHandshake server \<noteq> None then tb_ZeroRTTHandshake server
        else tb_ZeroRTTHandshake base),
      tb_LogLevel = (if tb_LogLevel server \<noteq> [] then tb_LogLevel server else tb_LogLevel base),
      tb_MaxIdleTime = (if tb_MaxIdleTime server > 0 then tb_MaxIdleTime server else tb_MaxIdleTime base),
      tb_AuthenticationTimeout = (if tb_AuthenticationTimeout server > 0 then tb_AuthenticationTimeout server
        else tb_AuthenticationTimeout base),
      tb_MaxUdpRelayPacketSize = (if tb_MaxUdpRelayPacketSize server > 0 then tb_MaxUdpRelayPacketSize server
        else tb_MaxUdpRelayPacketSize base),
      tb_SNI = (if tb_SNI server \<noteq> [] then tb_SNI server else tb_SNI base)\<rparr>"

definition effective_packet_size :: "int \<Rightarrow> int" where
  "effective_packet_size n =
     (if n \<le> 0 then 1500
      else if int maxSafeUdpRelayPacketSize < n \<and> n \<le> int maxLegacyUdpRelayPacketSize then
        int maxSafeUdpRelayPacketSize
      else n)"

definition accept_client :: "bool \<Rightarrow> parsed_client \<Rightarrow> TuicClientSettings option" where
  "accept_client includeDisabled c =
     (if \<not> includeDisabled \<and> pc_Enable c = Some False then None
      else let uuidVal = to_lower (trim_space (pc_UUID c));
               uuidVal = (if uuidVal = [] then to_lower (trim_space (pc_ID c)) else uuidVal) in
        if uuidVal = [] \<or> pc_Password c = [] then None
        else Some \<lparr>cs_TrafficID = pc_TrafficID c, cs_UUID = uuidVal, cs_Password = pc_Password c,
               cs_Email = pc_Email c\<rparr>)"

definition instanceFromInbound ::
  "(string \<Rightarrow> parsed_settings option) \<Rightarrow> Inbound option \<Rightarrow> bool \<Rightarrow> Instance option" where
  "instanceFromInbound decode ib includeDisabled =
     (case ib of
        None \<Rightarrow> None
      | Some ib \<Rightarrow>
          if ib_Protocol ib \<noteq> tuic_protocol then None
          else (case (if ib_Settings ib = [] then Some \<lparr>ps_Block = empty_block, ps_Server = None, ps_Clients = []\<rparr>
                      else decode (ib_Settings ib)) of
              None \<Rightarrow> None
            | Some parsed \<Rightarrow>
                let b = (case ps_Server parsed of
                           None \<Rightarrow> ps_Block parsed | Some server \<Rightarrow> override_block (ps_Block parsed) server) in
                Some \<lparr>in_Id = ib_Id ib, in_Tag = ib_Tag ib, in_Listen = ib_Listen ib, in_Port = ib_Port ib,
                  in_Certificate = tb_Certificate b, in_PrivateKey = tb_PrivateKey b,
                  in_CongestionControl = (case NormalizeCongestionControl (tb_CongestionControl b) of
                     Some normalized \<Rightarrow> normalized | None \<Rightarrow> ''new_reno''),
                  in_ALPN = (if tb_ALPN b = [] then [''h3'', ''spdy/3.1''] else tb_ALPN b),
                  in_UDPRelayMode = (if tb_UDPRelayMode b = [] then ''native'' else tb_UDPRelayMode b),
                  in_ZeroRTTHandshake = (case tb_ZeroRTTHandshake b of None \<Rightarrow> True | Some z \<Rightarrow> z),
                  in_LogLevel = (if tb_LogLevel b = [] then ''info'' else tb_LogLevel b),
                  in_MaxIdleTime = (if tb_MaxIdleTime b \<le> 0 then 15 else tb_MaxIdleTime b),
                  in_AuthenticationTimeout = (if tb_AuthenticationTimeout b \<le> 0 then 3 else tb_AuthenticationTimeout b),
                  in_MaxUdpRelayPacketSize = effective_packet_size (tb_MaxUdpRelayPacketSize b),
                  in_SNI = tb_SNI b,
                  in_Clients = List.map_filter (accept_client includeDisabled) (ps_Clients parsed)\<rparr>))"

definition InstanceFromInbound :: "(string \<Rightarrow> parsed_settings option) \<Rightarrow> Inbound option \<Rightarrow> Instance option" where
  "InstanceFromInbound decode ib = instanceFromInbound decode ib False"

definition ConfiguredInstanceFromInbound ::
  "(string \<Rightarrow> parsed_settings option) \<Rightarrow> Inbound option \<Rightarrow> Instance option" where
  "ConfiguredInstanceFromInbound decode ib = instanceFromInbound decode ib True"

subsection \<open>Fingerprints\<close>

definition BindTo :: "Instance \<Rightarrow> string" where
  "BindTo inst = join_host_port (in_Listen inst) (itoa (in_Port inst))"

definition format_bool :: "bool \<Rightarrow> string" where
  "format_bool b = (if b then ''true'' else ''false'')"

definition fingerprintMaterial :: "(string \<Rightarrow> bytes option) \<Rightarrow> (bytes \<Rightarrow> string) \<Rightarrow> string \<Rightarrow> string" where
  "fingerprintMaterial read_file sha256_hex value =
     sha256_hex
       (if value \<noteq> [] \<and> \<not> contains_sub value ''-----BEGIN '' then
          (case read_file value of Some file \<Rightarrow> file | None \<Rightarrow> bytes_of_string value)
        else bytes_of_string value)"

definition StructuralFingerprint ::
  "(string \<Rightarrow> bytes option) \<Rightarrow> (bytes \<Rightarrow> string) \<Rightarrow> Instance \<Rightarrow> string" where
  "StructuralFingerprint read_file sha256_hex inst = join_with ''|''
     [BindTo inst,
      fingerprintMaterial read_file sha256_hex (in_Certificate inst),
      fingerprintMaterial read_file sha256_hex (in_PrivateKey inst),
      join_with '','' (in_ALPN inst),
      format_bool (in_ZeroRTTHandshake inst),
      itoa (in_MaxIdleTime inst),
      itoa (in_AuthenticationTimeout inst),
      itoa (in_MaxUdpRelayPacketSize inst)]"

definition client_pair :: "TuicClientSettings \<Rightarrow> string" where
  "client_pair c = itoa (cs_TrafficID c) @ '':'' @ cs_Email c @ ''='' @ cs_UUID c @ '':'' @ cs_Password c"

definition UsersFingerprint :: "Instance \<Rightarrow> string" where
  "UsersFingerprint inst = join_with ''|'' (sort (map client_pair (in_Clients inst)))"

definition FullFingerprint :: "(string \<Rightarrow> bytes option) \<Rightarrow> (bytes \<Rightarrow> string) \<Rightarrow> Instance \<Rightarrow> string" where
  "FullFingerprint read_file sha256_hex inst =
     StructuralFingerprint read_file sha256_hex inst @ ''#'' @ UsersFingerprint inst"

subsection \<open>The user fingerprint determines the users\<close>

lemma split_at:
  "c \<notin> set xs \<Longrightarrow> c \<notin> set ys \<Longrightarrow> xs @ c # us = ys @ c # vs \<longleftrightarrow> xs = ys \<and> us = vs"
proof (induction xs arbitrary: ys)
  case Nil
  then show ?case by (cases ys) auto
next
  case (Cons x xs)
  then show ?case by (cases ys) auto
qed

lemma join_with_Cons: "xs \<noteq> [] \<Longrightarrow> join_with sep (x # xs) = x @ sep @ join_with sep xs"
  by (cases xs) auto

lemma join_with_inject:
  "\<forall>x \<in> set xs \<union> set ys. c \<notin> set x \<and> x \<noteq> [] \<Longrightarrow> join_with [c] xs = join_with [c] ys \<Longrightarrow> xs = ys"
proof (induction xs arbitrary: ys)
  case Nil
  then show ?case by (cases ys; cases "tl ys") auto
next
  case (Cons x xs)
  then obtain y ys' where ys: "ys = y # ys'" by (cases ys; cases xs) auto
  have no: "c \<notin> set x" "c \<notin> set y" using Cons.prems ys by auto
  show ?case
  proof (cases "xs = [] \<or> ys' = []")
    case True
    have "join_with [c] zs = join_with [c] [z] \<Longrightarrow> c \<notin> set z \<Longrightarrow> zs \<noteq> [] \<Longrightarrow> zs = [z]" for z zs
      by (cases zs; cases "tl zs") auto
    with True no Cons.prems(2) ys show ?thesis by (metis join_with.simps(2) list.distinct(1))
  next
    case False
    with Cons.prems(2) ys have "x @ c # join_with [c] xs = y @ c # join_with [c] ys'"
      by (simp add: join_with_Cons)
    then have "x = y" "join_with [c] xs = join_with [c] ys'" using no by (simp_all add: split_at)
    with Cons ys show ?thesis by auto
  qed
qed

text \<open>Clients whose text cannot be confused with the separators.\<close>

definition plain_client :: "TuicClientSettings \<Rightarrow> bool" where
  "plain_client c \<longleftrightarrow> CHR ''='' \<notin> set (cs_Email c) \<and> CHR ''|'' \<notin> set (cs_Email c)
     \<and> CHR '':'' \<notin> set (cs_UUID c) \<and> CHR ''|'' \<notin> set (cs_UUID c) \<and> CHR ''|'' \<notin> set (cs_Password c)"

lemma itoa_chars: "c \<in> set (itoa i) \<Longrightarrow> c = CHR ''-'' \<or> is_digit c"
  by (auto simp: itoa_def dest: nat_digits_is_digit split: if_splits)

lemma not_in_itoa: "CHR '':'' \<notin> set (itoa i)" "CHR ''|'' \<notin> set (itoa i)"
  using itoa_chars by (fastforce simp: is_digit_def of_char_def)+

lemma client_pair_inject:
  assumes "plain_client c" "plain_client d" shows "client_pair c = client_pair d \<longleftrightarrow> c = d"
  using assms
  by (cases c, cases d)
    (auto simp: client_pair_def plain_client_def split_at not_in_itoa)

lemma client_pair_plain: "plain_client c \<Longrightarrow> CHR ''|'' \<notin> set (client_pair c) \<and> client_pair c \<noteq> []"
  by (auto simp: client_pair_def plain_client_def not_in_itoa)

lemma sort_eq_iff: "sort (xs :: string list) = sort ys \<longleftrightarrow> mset xs = mset ys"
  by (metis mset_sort properties_for_sort sorted_sort)


section \<open>Properties\<close>

lemma lower_trim_idem: "accept_client d c = Some s \<Longrightarrow> cs_UUID s \<noteq> [] \<and> to_lower (cs_UUID s) = cs_UUID s \<and> cs_Password s \<noteq> []"
  by (auto simp: accept_client_def Let_def split: if_splits)

lemma accept_client_enabled:
  "accept_client False c = (if pc_Enable c = Some False then None else accept_client True c)"
  by (simp add: accept_client_def)

lemma map_filter_enabled:
  "List.map_filter (accept_client False) cs
   = List.map_filter (accept_client True) (filter (\<lambda>c. pc_Enable c \<noteq> Some False) cs)"
  by (induction cs) (auto simp: List.map_filter_simps accept_client_enabled split: option.splits)

lemma map_filter_set: "x \<in> set (List.map_filter f xs) \<longleftrightarrow> (\<exists>y \<in> set xs. f y = Some x)"
  by (force simp: List.map_filter_def)

lemma NormalizeCongestionControl_values:
  "NormalizeCongestionControl v = Some n \<Longrightarrow> n \<in> {''bbr'', ''cubic'', ''new_reno''}"
  by (auto simp: NormalizeCongestionControl_def Let_def split: if_splits)


definition demo_inbound :: Inbound where
  "demo_inbound = \<lparr>ib_Id = 1, ib_Tag = ''t'', ib_Listen = [], ib_Port = 443, ib_Protocol = ''tuic'', ib_Settings = ''{}''\<rparr>"

definition demo_decode :: "string \<Rightarrow> parsed_settings option" where
  "demo_decode s = Some \<lparr>ps_Block = empty_block,
     ps_Server = Some (empty_block\<lparr>tb_CongestionControl := ''CUBIC'', tb_MaxUdpRelayPacketSize := 65507\<rparr>),
     ps_Clients = [\<lparr>pc_TrafficID = 1, pc_UUID = [], pc_ID = ''AB'', pc_Password = ''p'', pc_Email = ''a'',
        pc_Enable = Some True, pc_TotalGB = 0, pc_ExpiryTime = 0\<rparr>]\<rparr>"


text \<open>
  C25: the user fingerprint detects every change of the users. If no email, UUID or password
  contains the separators of the fingerprint (the bar; in an email the equals sign; in a UUID the
  colon), two instances have the same fingerprint exactly when they have the same clients, in any
  order.
\<close>

theorem UsersFingerprint_exact:
  assumes "\<forall>c \<in> set (in_Clients a) \<union> set (in_Clients b). plain_client c"
  shows "UsersFingerprint a = UsersFingerprint b \<longleftrightarrow> mset (in_Clients a) = mset (in_Clients b)"
proof
  let ?f = "\<lambda>inst. map client_pair (in_Clients inst)"
  assume "UsersFingerprint a = UsersFingerprint b"
  then have "sort (?f a) = sort (?f b)"
    unfolding UsersFingerprint_def using assms client_pair_plain by (intro join_with_inject) auto
  then have "image_mset client_pair (mset (in_Clients a)) = image_mset client_pair (mset (in_Clients b))"
    by (simp add: sort_eq_iff)
  moreover have "inj_on client_pair (set (in_Clients a) \<union> set (in_Clients b))"
    using assms client_pair_inject by (auto simp: inj_on_def)
  ultimately show "mset (in_Clients a) = mset (in_Clients b)"
    using image_mset_eq_image_mset_plusD [of client_pair "mset (in_Clients a)" "mset (in_Clients b)" "{#}"]
    by auto
next
  assume "mset (in_Clients a) = mset (in_Clients b)"
  then have "mset (map client_pair (in_Clients a)) = mset (map client_pair (in_Clients b))" by simp
  then show "UsersFingerprint a = UsersFingerprint b"
    unfolding UsersFingerprint_def by (metis sort_eq_iff)
qed


definition demo_instance :: "TuicClientSettings list \<Rightarrow> Instance" where
  "demo_instance cs = \<lparr>in_Id = 1, in_Tag = [], in_Listen = [], in_Port = 443, in_Certificate = [],
     in_PrivateKey = [], in_CongestionControl = ''bbr'', in_ALPN = [''h3''], in_UDPRelayMode = ''native'',
     in_ZeroRTTHandshake = True, in_LogLevel = ''info'', in_MaxIdleTime = 15, in_AuthenticationTimeout = 3,
     in_MaxUdpRelayPacketSize = 1500, in_SNI = [], in_Clients = cs\<rparr>"

definition plain_a :: TuicClientSettings where
  "plain_a = \<lparr>cs_TrafficID = 1, cs_UUID = ''u1'', cs_Password = ''p'', cs_Email = ''a''\<rparr>"

definition plain_b :: TuicClientSettings where
  "plain_b = \<lparr>cs_TrafficID = 2, cs_UUID = ''u2'', cs_Password = ''q'', cs_Email = ''b''\<rparr>"

theorem UsersFingerprint_exact_witness:
  "UsersFingerprint (demo_instance [plain_a, plain_b]) = UsersFingerprint (demo_instance [plain_b, plain_a])
   \<and> UsersFingerprint (demo_instance [plain_a, plain_b]) \<noteq> UsersFingerprint (demo_instance [plain_a])"
  using UsersFingerprint_exact [of "demo_instance [plain_a, plain_b]" "demo_instance [plain_b, plain_a]"]
    UsersFingerprint_exact [of "demo_instance [plain_a, plain_b]" "demo_instance [plain_a]"]
  by (simp add: demo_instance_def plain_a_def plain_b_def plain_client_def)

text \<open>
  Without that condition the fingerprint is ambiguous: a password may spell out another client,
  and a configuration with one client then has the fingerprint of one with two.
\<close>

lemma UsersFingerprint_collision:
  "UsersFingerprint (demo_instance [plain_a, plain_b])
   = UsersFingerprint (demo_instance [plain_a\<lparr>cs_Password := ''p|'' @ client_pair plain_b\<rparr>])"
  by (simp add: UsersFingerprint_def demo_instance_def plain_a_def plain_b_def client_pair_def itoa_def
      nat_digits.simps list_le_def less_char_def)

end
