(* ===== verification/Tuic_Dispatch.thy ===== *)
theory Tuic_Dispatch
  imports Tuic_Udp Tuic_Socks
begin

text \<open>
  The packet path of \<open>internal/tuic/server.go\<close>: what a stream or a datagram of a client asks for
  (\<open>handleUniStream\<close>, \<open>handleBiStream\<close>, \<open>handleDatagram\<close>), how a complete packet reaches its
  relay session (\<open>handlePacket\<close>, \<open>forwardUDPPacket\<close>, \<open>openUDPRelay\<close>, \<open>sendUDPRequest\<close>), and how
  responses return in fragments (\<open>relayUDPResponses\<close>, \<open>sendUDPPacketFragments\<close>).

  A handler is split into what it decides from the bytes (the \<open>request\<close>) and what is then done.
  \<open>user\<close> is what \<open>waitForAuth\<close> returns: a reference to the user, or \<open>None\<close> for its error.
\<close>

datatype request =
    Ignored
  | AuthRequest (rq_uuid: bytes) (rq_token: bytes)
  | Beat nat
  | DissociateRequest "16 word"
  | MalformedPacket
  | PacketRequest nat packet_header bytes byte
  | MalformedTarget
  | InvalidTarget nat
  | ConnectRequest nat address

subsection \<open>Streams and datagrams\<close>

definition read_auth :: "bytes \<Rightarrow> request" where
  "read_auth r =
     (case read_full 48 r of
        Inl _ \<Rightarrow> Ignored
      | Inr (authData, _) \<Rightarrow> AuthRequest (take 16 authData) (drop 16 authData))"

definition handleUniStream :: "nat \<Rightarrow> nat option \<Rightarrow> bytes \<Rightarrow> request" where
  "handleUniStream maxPacket user stream =
     (case ReadCommand stream of
        Inl _ \<Rightarrow> Ignored
      | Inr ((_, cmd), r) \<Rightarrow>
          if cmd = CmdAuthenticate then read_auth r
          else if cmd = CmdDissociate then
            (case user of
               None \<Rightarrow> Ignored
             | Some _ \<Rightarrow>
                 (case read_full 2 r of
                    Inl _ \<Rightarrow> Ignored
                  | Inr (b, _) \<Rightarrow> DissociateRequest (get_u16 (b ! 0) (b ! 1))))
          else if cmd = CmdPacket then
            (case user of
               None \<Rightarrow> Ignored
             | Some u \<Rightarrow>
                 (case ReadPacketHeader r of
                    Inl _ \<Rightarrow> MalformedPacket
                  | Inr (hdr, r) \<Rightarrow>
                      if maxPacket < unat (ph_Size hdr) then MalformedPacket
                      else (case readPacketPayload r hdr of
                          Inl _ \<Rightarrow> Ignored
                        | Inr (payload, _) \<Rightarrow> PacketRequest u hdr payload packetTransportStream)))
          else Ignored)"

definition handleBiStream :: "nat option \<Rightarrow> bytes \<Rightarrow> request" where
  "handleBiStream user stream =
     (case ReadCommand stream of
        Inl _ \<Rightarrow> Ignored
      | Inr ((_, cmd), r) \<Rightarrow>
          if cmd = CmdAuthenticate then read_auth r
          else if cmd = CmdConnect then
            (case user of
               None \<Rightarrow> Ignored
             | Some u \<Rightarrow>
                 (case ReadAddress r of
                    Inl _ \<Rightarrow> MalformedTarget
                  | Inr (target, _) \<Rightarrow>
                      if \<not> isPacketTarget (Some target) then InvalidTarget u
                      else ConnectRequest u target))
          else Ignored)"

definition handleDatagram :: "nat \<Rightarrow> nat option \<Rightarrow> bytes \<Rightarrow> request" where
  "handleDatagram maxPacket user dgram =
     (if length dgram < 2 \<or> dgram ! 0 \<noteq> ProtocolVersion then Ignored
      else let cmd = dgram ! 1 in
        if cmd = CmdHeartbeat then (case user of None \<Rightarrow> Ignored | Some u \<Rightarrow> Beat u)
        else if cmd = CmdPacket then
          (case user of
             None \<Rightarrow> Ignored
           | Some u \<Rightarrow>
               (case ReadPacketHeader (drop 2 dgram) of
                  Inl _ \<Rightarrow> MalformedPacket
                | Inr (hdr, r) \<Rightarrow>
                    if maxPacket < unat (ph_Size hdr) then MalformedPacket
                    else (case readPacketPayload r hdr of
                        Inl _ \<Rightarrow> Ignored
                      | Inr (payload, r) \<Rightarrow>
                          if r \<noteq> [] then Ignored
                          else PacketRequest u hdr payload packetTransportDatagram)))
        else if cmd = CmdDissociate then
          (if 4 \<le> length dgram then DissociateRequest (get_u16 (dgram ! 2) (dgram ! 3)) else Ignored)
        else Ignored)"

subsection \<open>From a packet to its session\<close>

datatype forward = NotForwarded | QueueFailed udp_err | SendTo nat address bytes | InQueue | OpenFor nat nat

definition forwardUDPPacket ::
  "nat \<Rightarrow> nat \<Rightarrow> 16 word \<Rightarrow> nat option \<Rightarrow> address option \<Rightarrow> bytes \<Rightarrow> udpRegistry \<Rightarrow> udpRegistry \<times> forward" where
  "forwardUDPPacket maxPacket ctx assocID association target payload r =
     (case association of
        None \<Rightarrow> (r, NotForwarded)
      | Some ref \<Rightarrow>
          if maxPacket < length payload \<or> \<not> isPacketTarget target then (r, NotForwarded)
          else (case queuePacket ctx assocID ref (the target) payload r of
              (r, Inl err) \<Rightarrow> (r, QueueFailed err)
            | (r, Inr (SendNow sess)) \<Rightarrow> (r, SendTo (us_relay sess) (the target) payload)
            | (r, Inr Queued) \<Rightarrow> (r, InQueue)
            | (r, Inr (OpenRelay opening)) \<Rightarrow> (r, OpenFor opening ref)))"

definition handlePacket ::
  "nat \<Rightarrow> int \<Rightarrow> nat \<Rightarrow> packet_header \<Rightarrow> bytes \<Rightarrow> byte \<Rightarrow> udpRegistry \<Rightarrow> udpRegistry \<times> forward" where
  "handlePacket maxPacket now ctx hdr payload transport r =
     (case registry_feed now transport (Some hdr) payload r of
        (r, association, None) \<Rightarrow> (r, NotForwarded)
      | (r, association, Some (addr, fullPayload)) \<Rightarrow>
          forwardUDPPacket maxPacket ctx (ph_AssocID hdr) association (Some addr) fullPayload r)"

text \<open>
  Sending one request: the datagram written and the bytes billed. \<open>wrote\<close> is what the socket
  says.
\<close>

definition sendUDPRequest :: "bool \<Rightarrow> bool \<Rightarrow> address \<Rightarrow> bytes \<Rightarrow> bytes option \<times> int" where
  "sendUDPRequest closed wrote target payload =
     (case Send closed (Some target) payload of
        Inl _ \<Rightarrow> (None, 0)
      | Inr packet \<Rightarrow> if wrote then (Some packet, int (length payload)) else (None, 0))"

text \<open>
  \<open>openUDPRelay\<close> without interruption: \<open>dial\<close> is the session the relay hands out, if any, and
  \<open>n\<close> bounds the drain loop. The result is the session (with \<open>True\<close> when it is new) and the
  packets sent over it.
\<close>

definition ensureRelay ::
  "nat option \<Rightarrow> 16 word \<Rightarrow> nat \<Rightarrow> int \<Rightarrow> udpRegistry \<Rightarrow> udpRegistry \<times> bool option" where
  "ensureRelay dial assocID ref now r =
     (case ensure_check assocID ref now r of
        (r, Inl _) \<Rightarrow> (r, None)
      | (r, Inr True) \<Rightarrow> (r, Some False)
      | (r, Inr False) \<Rightarrow>
          (case dial of
             None \<Rightarrow> (r, None)
           | Some session \<Rightarrow>
               (case ensure_commit assocID ref session now r of
                  (r, Inl _) \<Rightarrow> (r, None)
                | (r, Inr created) \<Rightarrow> (r, Some created))))"

definition openUDPRelay ::
  "nat \<Rightarrow> nat option \<Rightarrow> 16 word \<Rightarrow> nat \<Rightarrow> int \<Rightarrow> udpRegistry
   \<Rightarrow> udpRegistry \<times> (nat \<times> bool \<times> (address \<times> bytes) list) option" where
  "openUDPRelay n dial assocID ref now r =
     (case ensureRelay dial assocID ref now r of
        (r, None) \<Rightarrow> (failPending ref r, None)
      | (r, Some created) \<Rightarrow>
          let sess = us_relay (the (ua_relay (ur_heap r ref))) in
          (case drain n assocID ref r of (r, ps) \<Rightarrow> (r, Some (sess, created, ps))))"

subsection \<open>Responses\<close>

definition maxDatagramFragmentSize :: nat where "maxDatagramFragmentSize = 850"
definition maxStreamFragmentSize :: nat where "maxStreamFragmentSize = 8 * 1024"

datatype send_err = ResponseInvalid | TooManyFragments nat | FrameError tuic_err | TransportError

text \<open>\<open>wr\<close> says which frames the QUIC connection accepts.\<close>

fun send_frames ::
  "(bytes \<Rightarrow> bool) \<Rightarrow> 16 word \<Rightarrow> 16 word \<Rightarrow> nat \<Rightarrow> nat \<Rightarrow> address \<Rightarrow> bytes \<Rightarrow> nat \<Rightarrow> nat
   \<Rightarrow> bytes list \<times> send_err option" where
  "send_frames wr assocID pktID fragmentTotal fragmentSize srcAddr payload i 0 = ([], None)"
| "send_frames wr assocID pktID fragmentTotal fragmentSize srcAddr payload i (Suc n) =
     (let addr = (if i = 0 then Some srcAddr else None);
          part = take fragmentSize (drop (i * fragmentSize) payload) in
      case WritePacket assocID pktID (of_nat fragmentTotal) (of_nat i) addr part of
        (_, Some err) \<Rightarrow> ([], Some (FrameError err))
      | (frame, None) \<Rightarrow>
          if \<not> wr frame then ([], Some TransportError)
          else (case send_frames wr assocID pktID fragmentTotal fragmentSize srcAddr payload (Suc i) n of
              (frames, err) \<Rightarrow> (frame # frames, err)))"

definition sendUDPPacketFragments ::
  "nat \<Rightarrow> (bytes \<Rightarrow> bool) \<Rightarrow> 16 word \<Rightarrow> 16 word \<Rightarrow> address \<Rightarrow> bytes \<Rightarrow> byte \<Rightarrow> bytes list \<times> send_err option" where
  "sendUDPPacketFragments maxPacket wr assocID pktID srcAddr payload transport =
     (if maxPacket < length payload \<or> \<not> isPacketTarget (Some srcAddr) then ([], Some ResponseInvalid)
      else let fragmentSize = (if transport = packetTransportStream then maxStreamFragmentSize
                               else maxDatagramFragmentSize);
               fragmentTotal = (length payload + fragmentSize - 1) div fragmentSize;
               fragmentTotal = (if fragmentTotal = 0 then 1 else fragmentTotal) in
        if 255 < fragmentTotal then ([], Some (TooManyFragments fragmentTotal))
        else send_frames wr assocID pktID fragmentTotal fragmentSize srcAddr payload 0 fragmentTotal)"

text \<open>
  The loop of \<open>relayUDPResponses\<close> on the datagrams the relay delivers: frames sent, bytes billed
  to the client, and the registry, which the loop touches after each response and from which it
  releases the association when it ends. Each datagram comes with the time after it was sent.
\<close>

fun relayUDPResponses ::
  "nat \<Rightarrow> (bytes \<Rightarrow> bool) \<Rightarrow> 16 word \<Rightarrow> nat \<Rightarrow> byte \<Rightarrow> 16 word \<Rightarrow> (int \<times> (socks_err + bytes)) list
   \<Rightarrow> udpRegistry \<Rightarrow> udpRegistry \<times> int \<times> bytes list" where
  "relayUDPResponses maxPacket wr assocID ref transport nextPktID [] r = (r, 0, [])"
| "relayUDPResponses maxPacket wr assocID ref transport nextPktID ((now, rd) # es) r =
     (case Receive False rd of
        Inl _ \<Rightarrow> (release assocID ref r, 0, [])
      | Inr (srcAddr, respPayload) \<Rightarrow>
          if maxPacket < length respPayload then
            relayUDPResponses maxPacket wr assocID ref transport nextPktID es r
          else
            let nextPktID = nextPktID + 1 in
            (case sendUDPPacketFragments maxPacket wr assocID nextPktID srcAddr respPayload transport of
               (frames, Some _) \<Rightarrow> (release assocID ref r, int (length respPayload), frames)
             | (frames, None) \<Rightarrow>
                 (case relayUDPResponses maxPacket wr assocID ref transport nextPktID es
                         (fst (touch assocID ref now r)) of
                    (r, billed, frames') \<Rightarrow> (r, int (length respPayload) + billed, frames @ frames'))))"

subsection \<open>Fragments cover the payload\<close>

definition chunks :: "nat \<Rightarrow> 'a list \<Rightarrow> nat \<Rightarrow> 'a list list" where
  "chunks n xs k = map (\<lambda>i. take n (drop (i * n) xs)) [0..<k]"

lemma length_chunks [simp]: "length (chunks n xs k) = k"
  by (simp add: chunks_def)

lemma chunks_nth [simp]: "i < k \<Longrightarrow> chunks n xs k ! i = take n (drop (i * n) xs)"
  by (simp add: chunks_def)

lemma concat_chunks: "concat (chunks n xs k) = take (k * n) xs"
proof (induction k)
  case (Suc k)
  have "concat (chunks n xs (Suc k)) = take (k * n) xs @ take n (drop (k * n) xs)"
    using Suc by (simp add: chunks_def)
  also have "\<dots> = take (k * n + n) xs" by (rule take_add [symmetric])
  finally show ?case by (simp add: add.commute)
qed (simp add: chunks_def)

definition frame_of ::
  "16 word \<Rightarrow> 16 word \<Rightarrow> bytes list \<Rightarrow> address \<Rightarrow> nat \<Rightarrow> bytes" where
  "frame_of assocID pktID fr a i =
     [ProtocolVersion, CmdPacket]
     @ encode_header (frag_header assocID pktID fr a (Some (wire_address None)) i) @ fr ! i"

lemma send_frames_all:
  assumes a: "canonical_address a" and accepts: "\<And>f. wr f"
    and fr: "fr = chunks sz payload tot" and i: "i + n = tot"
  shows "send_frames wr assocID pktID tot sz a payload i n
    = (map (frame_of assocID pktID fr a) [i..<tot], None)"
  using i
proof (induction n arbitrary: i)
  case (Suc n)
  then have lt: "i < tot" by simp
  let ?addr = "if i = 0 then Some a else None"
  have "canonical_address (wire_address ?addr)" using a by (simp add: wire_address_def)
  from WritePacket_encode [OF this, of assocID pktID "of_nat tot" "of_nat i" "fr ! i"]
  have "WritePacket assocID pktID (of_nat tot) (of_nat i) ?addr (take sz (drop (i * sz) payload))
      = (frame_of assocID pktID fr a i, None)"
    using lt by (auto simp: fr frame_of_def frag_header_def wire_address_def)
  then show ?case
    using Suc.IH [of "Suc i"] Suc.prems lt accepts by (simp add: Let_def upt_conv_Cons)
qed simp


text \<open>What the receiving side makes of a frame, with the handlers above.\<close>

definition received :: "nat \<Rightarrow> byte \<Rightarrow> bytes \<Rightarrow> (packet_header \<times> bytes) option" where
  "received maxPacket transport frame =
     (case (if transport = packetTransportStream then handleUniStream maxPacket (Some 0) frame
            else handleDatagram maxPacket (Some 0) frame) of
        PacketRequest _ hdr payload _ \<Rightarrow> Some (hdr, payload)
      | _ \<Rightarrow> None)"

lemma received_frame:
  assumes a: "canonical_address a" and len: "length (fr ! i) \<le> m" "m < 65536"
  shows "received m tr (frame_of assocID pktID fr a i)
    = Some (frag_header assocID pktID fr a (Some (wire_address None)) i, fr ! i)"
proof -
  let ?h = "frag_header assocID pktID fr a (Some (wire_address None)) i"
  have ok: "header_ok ?h"
    using a by (auto simp: header_ok_def frag_header_def wire_address_def)
  have sz: "unat (ph_Size ?h) = length (fr ! i)"
    using len by (simp add: frag_header_def unat_of_nat)
  have hdr: "ReadPacketHeader (encode_header ?h @ fr ! i) = Inr (?h, fr ! i)"
    by (rule ReadPacketHeader_complete [OF ok])
  have pay: "readPacketPayload (fr ! i) ?h = Inr (fr ! i, [])"
    using read_full_append [of "fr ! i" "unat (ph_Size ?h)" "[]"] by (simp add: readPacketPayload_def sz)
  have cmd: "ReadCommand (frame_of assocID pktID fr a i) = Inr ((ProtocolVersion, CmdPacket), encode_header ?h @ fr ! i)"
    unfolding frame_of_def by (rule ReadCommand_packet)
  have uni: "handleUniStream m (Some 0) (frame_of assocID pktID fr a i) = PacketRequest 0 ?h (fr ! i) packetTransportStream"
    using len by (simp add: handleUniStream_def cmd hdr pay sz tuic_consts)
  have "drop 2 (frame_of assocID pktID fr a i) = encode_header ?h @ fr ! i"
    "2 \<le> length (frame_of assocID pktID fr a i)" "frame_of assocID pktID fr a i ! 0 = ProtocolVersion"
    "frame_of assocID pktID fr a i ! 1 = CmdPacket"
    by (simp_all add: frame_of_def)
  then have "handleDatagram m (Some 0) (frame_of assocID pktID fr a i) = PacketRequest 0 ?h (fr ! i) packetTransportDatagram"
    using len by (simp add: handleDatagram_def Let_def hdr pay sz) (simp add: tuic_consts)
  with uni show ?thesis by (simp add: received_def)
qed

definition fragment_count :: "nat \<Rightarrow> byte \<Rightarrow> nat" where
  "fragment_count len transport =
     (let sz = (if transport = packetTransportStream then maxStreamFragmentSize else maxDatagramFragmentSize);
          n = (len + sz - 1) div sz in if n = 0 then 1 else n)"

definition fragments :: "bytes \<Rightarrow> byte \<Rightarrow> bytes list" where
  "fragments payload transport =
     chunks (if transport = packetTransportStream then maxStreamFragmentSize else maxDatagramFragmentSize)
       payload (fragment_count (length payload) transport)"

lemma fragment_count_bounds:
  assumes "len \<le> 65245" shows "1 \<le> fragment_count len tr" "fragment_count len tr \<le> 255"
proof -
  have "(len + 849) div 850 \<le> (65245 + 849) div 850" "(len + 8191) div 8192 \<le> (65245 + 8191) div 8192"
    using assms by (simp_all add: div_le_mono)
  then show "1 \<le> fragment_count len tr" "fragment_count len tr \<le> 255"
    by (auto simp: fragment_count_def Let_def maxStreamFragmentSize_def maxDatagramFragmentSize_def)
qed

lemma fragments_cover: "concat (fragments payload tr) = payload"
proof -
  have ceil: "n \<le> (n + s - 1) div s * s" if "0 < s" for n s :: nat
  proof -
    have "n + s - 1 = (n + s - 1) div s * s + (n + s - 1) mod s" by simp
    moreover have "(n + s - 1) mod s < s" using that by simp
    ultimately show ?thesis using that by linarith
  qed
  have "length payload \<le> fragment_count (length payload) tr *
      (if tr = packetTransportStream then maxStreamFragmentSize else maxDatagramFragmentSize)"
    using ceil [of maxStreamFragmentSize "length payload"] ceil [of maxDatagramFragmentSize "length payload"]
    by (auto simp: fragment_count_def Let_def maxStreamFragmentSize_def maxDatagramFragmentSize_def)
  then show ?thesis by (simp add: fragments_def concat_chunks)
qed

lemma sendUDPPacketFragments_all:
  assumes "canonical_address a" "isPacketTarget (Some a)" "length payload \<le> m" "m \<le> 65245" "\<And>f. wr f"
  shows "sendUDPPacketFragments m wr assocID pktID a payload tr
    = (map (frame_of assocID pktID (fragments payload tr) a) [0..<length (fragments payload tr)], None)"
proof -
  let ?sz = "if tr = packetTransportStream then maxStreamFragmentSize else maxDatagramFragmentSize"
  have len: "length payload \<le> 65245" using assms by simp
  have "send_frames wr assocID pktID (fragment_count (length payload) tr) ?sz a payload 0 (fragment_count (length payload) tr)
      = (map (frame_of assocID pktID (fragments payload tr) a) [0..<fragment_count (length payload) tr], None)"
    using assms by (intro send_frames_all) (simp_all add: fragments_def)
  moreover have "length (fragments payload tr) = fragment_count (length payload) tr" by (simp add: fragments_def)
  moreover have "sendUDPPacketFragments m wr assocID pktID a payload tr =
     (if m < length payload \<or> \<not> isPacketTarget (Some a) then ([], Some ResponseInvalid)
      else if 255 < fragment_count (length payload) tr then ([], Some (TooManyFragments (fragment_count (length payload) tr)))
      else send_frames wr assocID pktID (fragment_count (length payload) tr) ?sz a payload 0
        (fragment_count (length payload) tr))"
    unfolding sendUDPPacketFragments_def fragment_count_def Let_def ..
  ultimately show ?thesis
    using assms fragment_count_bounds(2) [OF len, of tr] by simp
qed


lemma feed_single:
  assumes "length payload \<le> pr_maxPacketSize pr" "pr_maxPacketSize pr < 65536" "isPacketTarget (Some a)"
  shows "pr_feed now tr (Some (frag_header assoc pkt [payload] a noaddr 0)) payload pr
    = (pr_drop \<lparr>fk_assocID = assoc, fk_pktID = pkt, fk_transport = tr\<rparr> (pr_expire now pr), Some (a, payload))"
  using assms
  by (simp add: pr_feed_Some malformed_fragment_def frag_header_def unat_of_nat fragment_key_def Let_def)

lemma responses_reassemble:
  assumes inv: "reassembler_inv pr" and room: "length (pr_packets pr) < 32"
    and fresh: "map_of (pr_packets pr) \<lparr>fk_assocID = assoc, fk_pktID = pkt, fk_transport = tr\<rparr> = None"
    and a: "canonical_address a" "isPacketTarget (Some a)"
    and len: "length payload \<le> m" "m \<le> 65245" "length payload \<le> pr_maxPacketSize pr"
    and order: "distinct order" "set order = {..<length (fragments payload tr)}"
    and ts: "length ts = length order" "\<forall>x \<in> set ts. \<forall>y \<in> set ts. x - y \<le> packetAssemblyTimeout"
  shows "\<exists>pr'. pr_feed_all tr
      (zip ts (map (\<lambda>i. the (received m tr (frame_of assoc pkt (fragments payload tr) a i))) order)) pr
    = (pr', replicate (length (fragments payload tr) - 1) None @ [Some (a, payload)])"
proof -
  let ?fr = "fragments payload tr" and ?no = "Some (wire_address None)"
  have n: "1 \<le> length ?fr" "length ?fr \<le> 255"
    using fragment_count_bounds [of "length payload" tr] len by (simp_all add: fragments_def)
  have part: "length (?fr ! i) \<le> m" if "i < length ?fr" for i
    using partial_size_le [of "{i}" ?fr] that len fragments_cover [of payload tr] by simp
  have dec: "map (\<lambda>i. the (received m tr (frame_of assoc pkt ?fr a i))) order
      = map (\<lambda>i. (frag_header assoc pkt ?fr a ?no i, ?fr ! i)) order"
    using order(2) part len(2) by (intro map_cong) (auto simp: received_frame [OF a(1)])
  have max: "pr_maxPacketSize pr < 65536"
    using inv by (simp add: reassembler_inv_def maxUdpRelayPacketSize_def maxSafeUdpRelayPacketSize_def)
  show ?thesis
  proof (cases "length ?fr = 1")
    case True
    then have fr: "?fr = [payload]"
      using fragments_cover [of payload tr] by (cases ?fr) auto
    have "length order = 1" using distinct_card [OF order(1)] order(2) True by simp
    with order(2) True have order0: "order = [0]" by (cases order) auto
    obtain t where "ts = [t]" using ts(1) order0 by (cases ts) auto
    then show ?thesis
      unfolding dec unfolding fr order0 using feed_single [OF len(3) max a(2)] by simp
  next
    case False
    then have "2 \<le> length ?fr" using n(1) by simp
    moreover have "length (concat ?fr) \<le> pr_maxPacketSize pr" using len(3) fragments_cover [of payload tr] by simp
    moreover have "\<not> isPacketTarget ?no" by (simp add: isPacketTarget_def wire_address_def blank_address_def)
    ultimately show ?thesis
      using feed_any_order [OF inv room fresh _ n(2) _ a(2) _ order(1,2) ts, of ?no]
      unfolding dec fragments_cover by blast
  qed
qed

subsection \<open>Opening a session\<close>

lemma drain_bytes:
  "length (waiting r ref) < n \<Longrightarrow> map_of (ur_associations r) i = Some ref \<Longrightarrow>
   ur_pendingBytes (fst (drain n i ref r)) = ur_pendingBytes r - pend_charge (ur_heap r ref)"
proof (induction n i ref r rule: drain.induct)
  case (2 n i ref r)
  show ?case
  proof (cases "ua_pending (ur_heap r ref)")
    case Nil
    with 2 show ?thesis
      by (auto simp: nextPending_def cancelOpen_def pend_charge_def split: option.splits)
  next
    case (Cons p rest)
    let ?r = "modify ref (\<lambda>a. a\<lparr>ua_pending := rest\<rparr>) r"
    have next_step: "nextPending i ref r = (?r, Some p)"
      using Cons 2 by (simp add: nextPending_def)
    have "length (waiting (releasePendingPacket p ?r) ref) < n" "map_of (ur_associations (releasePendingPacket p ?r)) i = Some ref"
      using 2 Cons by (simp_all add: waiting_def releasePendingPacket_def)
    with 2(1) [OF next_step [symmetric] refl, of] Cons show ?thesis
      by (simp add: next_step case_prod_beta pend_charge_def releasePendingPacket_def)
  qed
qed simp

lemma ensureRelay_fresh:
  assumes "map_of (ur_associations r) i = Some ref" "ua_relay (ur_heap r ref) = None"
  shows "ensureRelay (Some sid) i ref now r
      = (modify ref (\<lambda>a. a\<lparr>ua_relay := Some \<lparr>us_relay = sid, us_responseTransport = ua_responseTransport a\<rparr>,
           ua_lastActive := now\<rparr>) r, Some True)"
    and "ensureRelay None i ref now r = (r, None)"
  using assms by (simp_all add: ensureRelay_def ensure_check_def ensure_commit_def)

section \<open>Properties\<close>

text \<open>
  C21: a UDP response survives the wire. What \<open>sendUDPPacketFragments\<close> sends for a payload within
  the configured limit is decoded frame by frame by the packet handlers and put together by the
  reassembler, for streams and datagrams, whatever the order of arrival, into exactly the source
  address and the payload that were sent, with the last frame and only then.
\<close>

theorem udp_response_reassembles:
  assumes "reassembler_inv pr" and "length (pr_packets pr) < 32"
    and "map_of (pr_packets pr) \<lparr>fk_assocID = assoc, fk_pktID = pkt, fk_transport = tr\<rparr> = None"
    and "canonical_address src" and "isPacketTarget (Some src)"
    and "length payload \<le> m" and "m \<le> 65245" and "length payload \<le> pr_maxPacketSize pr"
    and "sendUDPPacketFragments m (\<lambda>_. True) assoc pkt src payload tr = (frames, err)"
    and "distinct order" and "set order = {..<length frames}" and "length ts = length order"
    and "\<forall>x \<in> set ts. \<forall>y \<in> set ts. x - y \<le> packetAssemblyTimeout"
  shows "err = None \<and> (\<exists>pr'. pr_feed_all tr (zip ts (map (\<lambda>i. the (received m tr (frames ! i))) order)) pr
      = (pr', replicate (length frames - 1) None @ [Some (src, payload)]))"
proof -
  let ?fr = "fragments payload tr"
  have sent: "frames = map (frame_of assoc pkt ?fr src) [0..<length ?fr]" "err = None"
    using sendUDPPacketFragments_all [OF assms(4,5,6,7), of "\<lambda>_. True" assoc pkt tr] assms(9) by simp_all
  have order: "set order = {..<length ?fr}" using assms(11) sent by simp
  have eq: "map (\<lambda>i. the (received m tr (frames ! i))) order
      = map (\<lambda>i. the (received m tr (frame_of assoc pkt ?fr src i))) order"
    using order sent by (intro map_cong) auto
  then show ?thesis
    unfolding eq
    using responses_reassemble [OF assms(1-3) assms(4,5) assms(6-8) assms(10) order assms(12,13)] sent by simp
qed

definition demo_source :: address where
  "demo_source = \<lparr>a_Type = AddrTypeDomain, a_Host = ''a.b'', a_IP = [], a_Port = 53\<rparr>"

theorem udp_response_reassembles_witness:
  "\<exists>frames. sendUDPPacketFragments 1500 (\<lambda>_. True) 1 2 demo_source (replicate 900 7) packetTransportDatagram = (frames, None)
    \<and> length frames = 2
    \<and> (\<exists>pr'. pr_feed_all packetTransportDatagram
          (zip [5, 7] (map (\<lambda>i. the (received 1500 packetTransportDatagram (frames ! i))) [1, 0]))
          (newPacketReassembler 1500)
        = (pr', [None, Some (demo_source, replicate 900 7)]))"
proof -
  let ?tr = packetTransportDatagram
  have src: "canonical_address demo_source" "isPacketTarget (Some demo_source)"
    by (simp_all add: demo_source_def canonical_address_def isPacketTarget_def tuic_consts)
  let ?fr = "fragments (replicate 900 7) ?tr"
  define frames where "frames = map (frame_of 1 2 ?fr demo_source) [0..<length ?fr]"
  have sent: "sendUDPPacketFragments 1500 (\<lambda>_. True) 1 2 demo_source (replicate 900 7) ?tr = (frames, None)"
    unfolding frames_def by (rule sendUDPPacketFragments_all [OF src]) simp_all
  have len: "length frames = 2"
    by (simp add: frames_def fragments_def fragment_count_def maxDatagramFragmentSize_def
        packetTransportDatagram_def packetTransportStream_def)
  have pr: "reassembler_inv (newPacketReassembler 1500)" "length (pr_packets (newPacketReassembler 1500)) < 32"
    "map_of (pr_packets (newPacketReassembler 1500)) \<lparr>fk_assocID = 1, fk_pktID = 2, fk_transport = ?tr\<rparr> = None"
    by (simp_all add: inv_new) (simp_all add: newPacketReassembler_def)
  have max: "length (replicate 900 (7 :: byte)) \<le> pr_maxPacketSize (newPacketReassembler 1500)"
    by (simp add: newPacketReassembler_def maxUdpRelayPacketSize_def maxSafeUdpRelayPacketSize_def)
  have order: "set [1, 0] = {..<length frames}" by (auto simp: len)
  from udp_response_reassembles [OF pr src _ _ max sent _ order, of "[5, 7]"]
  have "\<exists>pr'. pr_feed_all ?tr (zip [5, 7] (map (\<lambda>i. the (received 1500 ?tr (frames ! i))) [1, 0]))
          (newPacketReassembler 1500) = (pr', replicate (length frames - 1) None @ [Some (demo_source, replicate 900 7)])"
    by (simp add: packetAssemblyTimeout_def)
  then show ?thesis using sent len by (simp add: numeral_2_eq_2)
qed

text \<open>
  C22: nothing but authentication is served before authentication. Without an authenticated user
  a stream is ignored or is an authentication attempt, and a datagram is ignored or dissociates
  an id, whatever its bytes; so no target is dialled, no packet is queued and nobody is marked
  active.
\<close>

theorem unauthenticated_requests:
  "handleUniStream m None bs \<in> insert Ignored (range (\<lambda>(u, t). AuthRequest u t))
   \<and> handleBiStream None bs \<in> insert Ignored (range (\<lambda>(u, t). AuthRequest u t))
   \<and> handleDatagram m None bs \<in> insert Ignored (range DissociateRequest)"
  by (auto simp: handleUniStream_def handleBiStream_def handleDatagram_def read_auth_def Let_def image_iff
      split: sum.splits prod.splits if_splits)




end
