(* ===== verification/Transition.thy ===== *)
theory Transition
  imports Main
begin

text \<open>
  Systems of atomic steps: the states reachable from an initial state, invariants, and
  simulations between systems. A component states its steps as an inductive relation; to get an
  invariant of every reachable state it interprets \<open>safe_system\<close>, and to carry over what is
  proved of a more abstract system it interprets \<open>simulation\<close>.
\<close>

inductive reach :: "('s \<Rightarrow> bool) \<Rightarrow> ('s \<Rightarrow> 's \<Rightarrow> bool) \<Rightarrow> 's \<Rightarrow> bool"
  for init :: "'s \<Rightarrow> bool" and step :: "'s \<Rightarrow> 's \<Rightarrow> bool" where
  reach_init: "init s \<Longrightarrow> reach init step s"
| reach_step: "reach init step s \<Longrightarrow> step s t \<Longrightarrow> reach init step t"

locale safe_system =
  fixes init :: "'s \<Rightarrow> bool" and step :: "'s \<Rightarrow> 's \<Rightarrow> bool" and inv :: "'s \<Rightarrow> bool"
  assumes init_inv: "init s \<Longrightarrow> inv s"
    and step_inv: "inv s \<Longrightarrow> step s t \<Longrightarrow> inv t"
begin

lemma reach_inv: "reach init step s \<Longrightarrow> inv s"
  by (induction rule: reach.induct) (auto intro: init_inv step_inv)

lemma steps_inv: "inv s \<Longrightarrow> step\<^sup>*\<^sup>* s t \<Longrightarrow> inv t"
  by (erule rtranclp_induct) (auto intro: step_inv)

end

text \<open>
  A simulation: under the invariant every step is a step of the abstract system or leaves the
  abstract state unchanged.
\<close>

locale simulation = safe_system init step inv
  for init :: "'s \<Rightarrow> bool" and step inv +
  fixes a_init :: "'a \<Rightarrow> bool" and a_step :: "'a \<Rightarrow> 'a \<Rightarrow> bool" and abs :: "'s \<Rightarrow> 'a"
  assumes init_sim: "init s \<Longrightarrow> reach a_init a_step (abs s)"
    and step_sim: "inv s \<Longrightarrow> step s t \<Longrightarrow> abs t = abs s \<or> a_step (abs s) (abs t)"
begin

lemma reach_sim: "reach init step s \<Longrightarrow> reach a_init a_step (abs s)"
proof (induction rule: reach.induct)
  case (reach_init s)
  then show ?case by (rule init_sim)
next
  case (reach_step s t)
  then show ?case
    using step_sim [OF reach_inv [OF reach_step.hyps(1)] reach_step.hyps(2)]
    by (auto intro: reach.reach_step)
qed

lemma abstract_property: "(\<And>a. reach a_init a_step a \<Longrightarrow> P a) \<Longrightarrow> reach init step s \<Longrightarrow> P (abs s)"
  using reach_sim by blast

end

end
