(* ===== verification/Tuic_Server.thy ===== *)
theory Tuic_Server
  imports Tuic_Types Transition
begin

text \<open>
  \<open>internal/tuic/server.go\<close>, the server of one inbound: its configuration, the table of
  authenticated connections, the authentication state of a connection, user updates and
  revocation, activity, traffic collection, logging and shutdown.

  A connection is a number; \<open>sv_kicked\<close> records the connections closed with an error code.
  Times are in nanoseconds. The TLS library (\<open>X509KeyPair\<close>, \<open>LoadX509KeyPair\<close>) and the sockets
  are parameters.
\<close>

record Server =
  sv_id :: int
  sv_tag :: string
  sv_listenAddr :: string
  sv_authTimeout :: int
  sv_congestionControl :: string
  sv_logLevel :: nat
  sv_maxUdpRelayPacketSize :: int
  sv_nextProtos :: "string list"
  sv_maxIdleTimeout :: int
  sv_keepAlivePeriod :: int
  sv_allow0RTT :: bool
  sv_users :: UserRegistry
  sv_lastOnline :: "(string \<times> int) list"
  sv_logThrottle :: "(string \<times> int) list"
  sv_activeConns :: "(bytes \<times> (nat \<times> nat) list) list"
  sv_connections :: "nat list"
  sv_kicked :: "(nat \<times> int) list"
  sv_closed :: bool
  sv_running :: bool

datatype server_err = InvalidClients auth_err | MissingCertificate | CertificateError | PacketSizeTooBig int
  | ListenError | QuicListenError

definition tuicLogDebug :: nat where "tuicLogDebug = 0"
definition tuicLogInfo :: nat where "tuicLogInfo = 1"
definition tuicLogWarn :: nat where "tuicLogWarn = 2"
definition tuicLogError :: nat where "tuicLogError = 3"

definition second :: int where "second = 10 ^ 9"

subsection \<open>Configuration\<close>

definition parseLogLevel :: "string \<Rightarrow> nat" where
  "parseLogLevel level =
     (let l = to_lower (trim_space level) in
      if l = ''debug'' then tuicLogDebug
      else if l = ''warn'' \<or> l = ''warning'' then tuicLogWarn
      else if l = ''error'' then tuicLogError
      else tuicLogInfo)"

definition normalizeCongestionControl :: "string \<Rightarrow> string \<times> bool" where
  "normalizeCongestionControl controller =
     (case NormalizeCongestionControl controller of
        None \<Rightarrow> (''new_reno'', False) | Some normalized \<Rightarrow> (normalized, True))"

definition loadCertificate ::
  "(bytes \<Rightarrow> bytes \<Rightarrow> 'c option) \<Rightarrow> (string \<Rightarrow> string \<Rightarrow> 'c option) \<Rightarrow> string \<Rightarrow> string \<Rightarrow> 'c option" where
  "loadCertificate X509KeyPair LoadX509KeyPair certInput keyInput =
     (if contains_sub certInput ''-----BEGIN CERTIFICATE-----'' then
        X509KeyPair (bytes_of_string certInput) (bytes_of_string keyInput)
      else LoadX509KeyPair certInput keyInput)"

definition updateRuntimeSettings :: "string \<Rightarrow> string \<Rightarrow> string \<Rightarrow> Server \<Rightarrow> Server" where
  "updateRuntimeSettings tag controller logLevel s =
     s\<lparr>sv_tag := tag, sv_logLevel := parseLogLevel logLevel,
       sv_congestionControl := fst (normalizeCongestionControl controller)\<rparr>"

definition UpdateRuntimeSettings :: "string \<Rightarrow> string \<Rightarrow> string \<Rightarrow> Server \<Rightarrow> Server" where
  "UpdateRuntimeSettings tag controller logLevel s = updateRuntimeSettings tag controller logLevel s"

definition positive_or :: "int \<Rightarrow> int \<Rightarrow> int" where
  "positive_or d x = (if x \<le> 0 then d else x)"

definition packet_size_setting :: "int \<Rightarrow> int" where
  "packet_size_setting x =
     (let n = positive_or 1500 x in
      if int maxSafeUdpRelayPacketSize < n \<and> n \<le> int maxLegacyUdpRelayPacketSize
      then int maxSafeUdpRelayPacketSize else n)"

definition NewServer ::
  "(string \<Rightarrow> bytes option) \<Rightarrow> (bytes \<Rightarrow> string) \<Rightarrow> (string \<Rightarrow> string \<Rightarrow> 'c option) \<Rightarrow> Instance \<Rightarrow> server_err + Server" where
  "NewServer parse render load inst =
     (case ValidateClients parse (in_Clients inst) of
        Some err \<Rightarrow> Inl (InvalidClients err)
      | None \<Rightarrow>
          if in_Certificate inst = [] \<or> in_PrivateKey inst = [] then Inl MissingCertificate
          else (case load (in_Certificate inst) (in_PrivateKey inst) of
              None \<Rightarrow> Inl CertificateError
            | Some _ \<Rightarrow>
                let alpn = (if in_ALPN inst = [] then [''h3'', ''spdy/3.1''] else in_ALPN inst);
                    maxIdle = positive_or 15 (in_MaxIdleTime inst);
                    authTimeout = positive_or 3 (in_AuthenticationTimeout inst);
                    maxUdpSize = packet_size_setting (in_MaxUdpRelayPacketSize inst) in
                if int maxLegacyUdpRelayPacketSize < maxUdpSize then Inl (PacketSizeTooBig maxUdpSize)
                else Inr (updateRuntimeSettings (in_Tag inst) (in_CongestionControl inst) (in_LogLevel inst)
                  \<lparr>sv_id = in_Id inst, sv_tag = [], sv_listenAddr = BindTo inst,
                   sv_authTimeout = i64 (authTimeout * second), sv_congestionControl = [], sv_logLevel = 0,
                   sv_maxUdpRelayPacketSize = maxUdpSize, sv_nextProtos = alpn,
                   sv_maxIdleTimeout = i64 (maxIdle * second), sv_keepAlivePeriod = i64 ((maxIdle div 2) * second),
                   sv_allow0RTT = in_ZeroRTTHandshake inst,
                   sv_users = fst (SetUsers parse render (in_Clients inst) NewUserRegistry),
                   sv_lastOnline = [], sv_logThrottle = [], sv_activeConns = [], sv_connections = [],
                   sv_kicked = [], sv_closed = False, sv_running = False\<rparr>)))"

definition Start :: "bool \<Rightarrow> bool \<Rightarrow> Server \<Rightarrow> Server \<times> server_err option" where
  "Start listens quic_listens s =
     (if \<not> listens then (s, Some ListenError)
      else if \<not> quic_listens then (s, Some QuicListenError)
      else (s\<lparr>sv_running := True\<rparr>, None))"

definition IsRunning :: "Server \<Rightarrow> bool" where
  "IsRunning s \<longleftrightarrow> sv_running s \<and> \<not> sv_closed s"

subsection \<open>Connections\<close>

definition user_conns :: "bytes \<Rightarrow> Server \<Rightarrow> (nat \<times> nat) list" where
  "user_conns i s = (case map_of (sv_activeConns s) i of None \<Rightarrow> [] | Some conns \<Rightarrow> conns)"

definition registerConn :: "nat \<Rightarrow> nat \<Rightarrow> Server \<Rightarrow> Server" where
  "registerConn user conn s =
     (let i = u_UUID (rg_heap (sv_users s) user) in
      s\<lparr>sv_activeConns := AList.update i (AList.update conn user (user_conns i s)) (sv_activeConns s),
        sv_users := session_started user (sv_users s)\<rparr>)"

definition unregisterConn :: "nat \<Rightarrow> nat \<Rightarrow> Server \<Rightarrow> Server" where
  "unregisterConn user conn s =
     (let i = u_UUID (rg_heap (sv_users s) user) in
      case map_of (sv_activeConns s) i of
        None \<Rightarrow> s
      | Some conns \<Rightarrow>
          let conns' = AList.delete conn conns;
              users = (if map_of conns conn = Some user then sessionEnded (Some user) (sv_users s) else sv_users s) in
          s\<lparr>sv_users := users,
            sv_activeConns := (if conns' = [] then AList.delete i (sv_activeConns s)
                               else AList.update i conns' (sv_activeConns s))\<rparr>)"

definition closeUserConns :: "nat \<Rightarrow> Server \<Rightarrow> Server" where
  "closeUserConns user s =
     (let toClose = map fst (filter (\<lambda>(_, registered). registered = user)
                      (user_conns (u_UUID (rg_heap (sv_users s) user)) s)) in
      s\<lparr>sv_kicked := map (\<lambda>conn. (conn, 256)) toClose @ sv_kicked s\<rparr>)"

definition closeAllConns :: "Server \<Rightarrow> Server" where
  "closeAllConns s = s\<lparr>sv_kicked := map (\<lambda>conn. (conn, 0)) (sv_connections s) @ sv_kicked s\<rparr>"

text \<open>\<open>UpdateUsers\<close> returns the users whose connections it goes on to close, one after the other.\<close>

definition UpdateUsers ::
  "(string \<Rightarrow> bytes option) \<Rightarrow> (bytes \<Rightarrow> string) \<Rightarrow> TuicClientSettings list \<Rightarrow> Server \<Rightarrow> Server \<times> nat list" where
  "UpdateUsers parse render clients s =
     (case ValidateClients parse clients of
        Some _ \<Rightarrow> (s, [])
      | None \<Rightarrow> (case SetUsers parse render clients (sv_users s) of
          (users, revoked) \<Rightarrow> (s\<lparr>sv_users := users\<rparr>, revoked)))"

definition Close :: "Server \<Rightarrow> Server" where
  "Close s = (if sv_closed s then s else closeAllConns (s\<lparr>sv_closed := True, sv_running := False\<rparr>))"

text \<open>One turn of \<open>acceptLoop\<close>; the flag says whether the loop goes on and serves the connection.\<close>

definition accept_turn :: "nat option \<Rightarrow> Server \<Rightarrow> Server \<times> bool" where
  "accept_turn accepted s =
     (case accepted of
        None \<Rightarrow> (if sv_closed s then s else s\<lparr>sv_running := False\<rparr>, False)
      | Some conn \<Rightarrow>
          if sv_closed s then (s\<lparr>sv_kicked := (conn, 0) # sv_kicked s\<rparr>, False)
          else (s\<lparr>sv_connections := List.insert conn (sv_connections s)\<rparr>, True))"

subsection \<open>Activity, traffic and logging\<close>

definition markActive :: "string \<Rightarrow> int \<Rightarrow> Server \<Rightarrow> Server" where
  "markActive email now s =
     (if email = [] then s else s\<lparr>sv_lastOnline := AList.update email now (sv_lastOnline s)\<rparr>)"

definition GetActiveEmails :: "int \<Rightarrow> int \<Rightarrow> Server \<Rightarrow> string list" where
  "GetActiveEmails window now s = map fst (filter (\<lambda>(_, lastTime). now - lastTime \<le> window) (sv_lastOnline s))"

definition CollectClientTraffic :: "Server \<Rightarrow> Server \<times> ClientTrafficDelta list" where
  "CollectClientTraffic s =
     (case CollectTrafficDeltas (sv_users s) of
        (users, deltas) \<Rightarrow> (s\<lparr>sv_users := users\<rparr>, map (\<lambda>d. d\<lparr>d_InboundID := sv_id s\<rparr>) deltas))"

definition CollectAllTraffic :: "Server \<Rightarrow> Server \<times> int \<times> int \<times> ClientTrafficDelta list" where
  "CollectAllTraffic s =
     (case CollectClientTraffic s of
        (s, deltas) \<Rightarrow> (s, sum_list (map d_Up deltas), sum_list (map d_Down deltas), deltas))"

definition ServerAddTestTraffic :: "string \<Rightarrow> int \<Rightarrow> int \<Rightarrow> int \<Rightarrow> Server \<Rightarrow> Server \<times> bool" where
  "ServerAddTestTraffic email up down now s =
     (let s = markActive email now s in
      case AddTestTraffic email up down (sv_users s) of (users, ok) \<Rightarrow> (s\<lparr>sv_users := users\<rparr>, ok))"

definition logf :: "nat \<Rightarrow> string \<Rightarrow> Server \<Rightarrow> (nat \<times> string) option" where
  "logf level text s =
     (if level < sv_logLevel s then None
      else let tag = (if sv_tag s = [] then [] else '' ('' @ sv_tag s @ '')'') in
        Some (level, ''tuic: inbound '' @ itoa (sv_id s) @ tag @ '': '' @ text))"

definition logLimited :: "nat \<Rightarrow> string \<Rightarrow> int \<Rightarrow> int \<Rightarrow> string \<Rightarrow> Server \<Rightarrow> Server \<times> (nat \<times> string) option" where
  "logLimited level key interval now text s =
     (if level < sv_logLevel s then (s, None)
      else let last = (case map_of (sv_logThrottle s) key of None \<Rightarrow> 0 | Some t \<Rightarrow> t) in
        if last \<noteq> 0 \<and> now - last < interval then (s, None)
        else (s\<lparr>sv_logThrottle := AList.update key now (sv_logThrottle s)\<rparr>, logf level text s))"

subsection \<open>Authentication of a connection\<close>

text \<open>\<open>cn_state\<close>: 0 pending, 1 authenticated, 2 timed out.\<close>

record connAuth =
  cn_state :: nat
  cn_user :: "nat option"

definition new_conn :: connAuth where
  "new_conn = \<lparr>cn_state = 0, cn_user = None\<rparr>"

definition register_callback :: "nat \<Rightarrow> int \<Rightarrow> nat \<Rightarrow> Server \<times> connAuth \<Rightarrow> bool \<times> Server \<times> connAuth" where
  "register_callback conn now user = (\<lambda>(s, c).
     if cn_state c \<noteq> 0 then (cn_state c = 1 \<and> cn_user c = Some user, s, c)
     else (True, markActive (u_Email (rg_heap (sv_users s) user)) now (registerConn user conn s),
           \<lparr>cn_state = 1, cn_user = Some user\<rparr>))"

text \<open>The closure \<open>authenticate\<close> of \<open>handleConn\<close>; a failed attempt closes the connection.\<close>

definition conn_authenticate ::
  "conn_state \<Rightarrow> nat \<Rightarrow> int \<Rightarrow> bytes \<Rightarrow> bytes \<Rightarrow> Server \<times> connAuth \<Rightarrow> (auth_err + nat) \<times> Server \<times> connAuth" where
  "conn_authenticate tls conn now rawUUID token = (\<lambda>(s, c).
     case AuthenticateAndRegister (sv_users s) (Some tls) rawUUID token (register_callback conn now) (s, c) of
       (Inr user, s, c) \<Rightarrow> (Inr user, s, c)
     | (Inl err, s, c) \<Rightarrow> (Inl err, s\<lparr>sv_kicked := (conn, 256) # sv_kicked s\<rparr>, c))"

definition auth_timeout :: "nat \<Rightarrow> Server \<times> connAuth \<Rightarrow> Server \<times> connAuth" where
  "auth_timeout conn = (\<lambda>(s, c).
     if cn_state c = 0 then (s\<lparr>sv_kicked := (conn, 256) # sv_kicked s\<rparr>, c\<lparr>cn_state := 2\<rparr>) else (s, c))"

datatype auth_wait = Authenticated nat | AuthTimedOut | StillPending

definition waitForAuth :: "connAuth \<Rightarrow> auth_wait" where
  "waitForAuth c =
     (case (if cn_state c = 1 then cn_user c else None) of
        Some u \<Rightarrow> Authenticated u
      | None \<Rightarrow> if cn_state c = 2 then AuthTimedOut else StillPending)"

definition conn_cleanup :: "nat \<Rightarrow> Server \<times> connAuth \<Rightarrow> Server \<times> connAuth" where
  "conn_cleanup conn = (\<lambda>(s, c).
     let s = (case cn_user c of None \<Rightarrow> s | Some u \<Rightarrow> unregisterConn u conn s) in
     (s\<lparr>sv_kicked := (conn, 0) # sv_kicked s\<rparr>, c))"


subsection \<open>The server as a system of steps\<close>

text \<open>
  \<open>ss_live\<close> are the connections whose handler runs and has not cleaned up; \<open>ss_revoking\<close> the
  revoked users whose connections \<open>UpdateUsers\<close> has yet to close; \<open>ss_added\<close> and \<open>ss_collected\<close>
  the bytes relayed and reported. Bytes are relayed on a live connection, for the user it is
  authenticated as.
\<close>

record serverSystem =
  ss_server :: Server
  ss_conns :: "nat \<Rightarrow> connAuth"
  ss_live :: "nat list"
  ss_revoking :: "nat list"
  ss_added :: "bool \<Rightarrow> int \<Rightarrow> int"
  ss_collected :: "bool \<Rightarrow> int \<Rightarrow> int"

inductive server_step :: "serverSystem \<Rightarrow> serverSystem \<Rightarrow> bool" where
  sv_accept: "c \<notin> set (sv_connections (ss_server s)) \<Longrightarrow> c \<notin> set (ss_live s) \<Longrightarrow> ss_conns s c = new_conn \<Longrightarrow>
    accept_turn (Some c) (ss_server s) = (s', serves) \<Longrightarrow>
    server_step s (s\<lparr>ss_server := s', ss_live := (if serves then c # ss_live s else ss_live s)\<rparr>)"
| sv_accept_error: "server_step s (s\<lparr>ss_server := fst (accept_turn None (ss_server s))\<rparr>)"
| sv_authenticate: "c \<in> set (ss_live s) \<Longrightarrow>
    conn_authenticate tls c now rawUUID token (ss_server s, ss_conns s c) = (res, s', cn') \<Longrightarrow>
    server_step s (s\<lparr>ss_server := s', ss_conns := (ss_conns s)(c := cn')\<rparr>)"
| sv_timeout: "c \<in> set (ss_live s) \<Longrightarrow> auth_timeout c (ss_server s, ss_conns s c) = (s', cn') \<Longrightarrow>
    server_step s (s\<lparr>ss_server := s', ss_conns := (ss_conns s)(c := cn')\<rparr>)"
| sv_update: "UpdateUsers parse render clients (ss_server s) = (s', revoked) \<Longrightarrow>
    server_step s (s\<lparr>ss_server := s', ss_revoking := revoked @ ss_revoking s\<rparr>)"
| sv_revoke: "u \<in> set (ss_revoking s) \<Longrightarrow>
    server_step s (s\<lparr>ss_server := closeUserConns u (ss_server s), ss_revoking := remove1 u (ss_revoking s)\<rparr>)"
| sv_relay: "c \<in> set (ss_live s) \<Longrightarrow> waitForAuth (ss_conns s c) = Authenticated u \<Longrightarrow> 0 \<le> n \<Longrightarrow>
    server_step s (s\<lparr>ss_server := markActive email now
        ((ss_server s)\<lparr>sv_users := add_bytes up u n (sv_users (ss_server s))\<rparr>),
      ss_added := (ss_added s)(up := (ss_added s up)
        (u_TrafficID (rg_heap (sv_users (ss_server s)) u) :=
           ss_added s up (u_TrafficID (rg_heap (sv_users (ss_server s)) u)) + n))\<rparr>)"
| sv_collect: "CollectAllTraffic (ss_server s) = (s', totalUp, totalDown, ds) \<Longrightarrow>
    server_step s (s\<lparr>ss_server := s', ss_collected := \<lambda>up t. ss_collected s up t + billed up t ds\<rparr>)"
| sv_cleanup: "c \<in> set (ss_live s) \<Longrightarrow> conn_cleanup c (ss_server s, ss_conns s c) = (s', cn') \<Longrightarrow>
    server_step s (s\<lparr>ss_server := s', ss_conns := (ss_conns s)(c := cn'), ss_live := remove1 c (ss_live s)\<rparr>)"
| sv_forget: "c \<notin> set (ss_live s) \<Longrightarrow>
    server_step s (s\<lparr>ss_server := (ss_server s)\<lparr>sv_connections := remove1 c (sv_connections (ss_server s))\<rparr>\<rparr>)"
| sv_settings: "server_step s (s\<lparr>ss_server := UpdateRuntimeSettings tag cc lvl (ss_server s)\<rparr>)"
| sv_close: "server_step s (s\<lparr>ss_server := Close (ss_server s)\<rparr>)"

definition server_init :: "serverSystem \<Rightarrow> bool" where
  "server_init s \<longleftrightarrow> (\<exists>parse render clients sv. ValidateClients parse clients = None
     \<and> sv_users sv = fst (SetUsers parse render clients NewUserRegistry)
     \<and> sv_activeConns sv = [] \<and> sv_connections sv = [] \<and> sv_kicked sv = []
     \<and> s = \<lparr>ss_server = sv, ss_conns = (\<lambda>_. new_conn), ss_live = [], ss_revoking = [],
            ss_added = (\<lambda>_ _. 0), ss_collected = (\<lambda>_ _. 0)\<rparr>)"

text \<open>Who is registered under which connection.\<close>

definition entry :: "Server \<Rightarrow> bytes \<Rightarrow> nat \<Rightarrow> nat option" where
  "entry s i c = map_of (user_conns i s) c"

definition bound :: "serverSystem \<Rightarrow> nat \<Rightarrow> nat \<Rightarrow> bool" where
  "bound s c u \<longleftrightarrow> c \<in> set (ss_live s) \<and> cn_user (ss_conns s c) = Some u"

definition sessions_held :: "serverSystem \<Rightarrow> nat \<Rightarrow> int" where
  "sessions_held s u = int (card {c. bound s c u})"

definition heap_of :: "serverSystem \<Rightarrow> nat \<Rightarrow> User" where
  "heap_of s u = rg_heap (sv_users (ss_server s)) u"

definition kicked :: "serverSystem \<Rightarrow> nat \<Rightarrow> bool" where
  "kicked s c \<longleftrightarrow> c \<in> fst ` set (sv_kicked (ss_server s))"

definition conns_inv :: "serverSystem \<Rightarrow> bool" where
  "conns_inv s \<longleftrightarrow> distinct (ss_live s)
     \<and> (\<forall>c. cn_user (ss_conns s c) \<noteq> None \<longleftrightarrow> cn_state (ss_conns s c) = 1)"

definition table_inv :: "serverSystem \<Rightarrow> bool" where
  "table_inv s \<longleftrightarrow> wf_map (sv_activeConns (ss_server s))
     \<and> (\<forall>(i, conns) \<in> set (sv_activeConns (ss_server s)). wf_map conns)
     \<and> (\<forall>i c u. entry (ss_server s) i c = Some u \<longleftrightarrow> bound s c u \<and> u_UUID (heap_of s u) = i)"

definition sessions_inv :: "serverSystem \<Rightarrow> bool" where
  "sessions_inv s \<longleftrightarrow> users_inv (sv_users (ss_server s))
     \<and> (\<forall>u. u_sessions (heap_of s u) = sessions_held s u)"

definition revoked_inv :: "serverSystem \<Rightarrow> bool" where
  "revoked_inv s \<longleftrightarrow> (\<forall>c u. bound s c u \<longrightarrow>
     u \<in> registered (sv_users (ss_server s)) \<or> u \<in> set (ss_revoking s) \<or> kicked s c)"

definition server_inv :: "serverSystem \<Rightarrow> bool" where
  "server_inv s \<longleftrightarrow> conns_inv s \<and> table_inv s \<and> sessions_inv s \<and> revoked_inv s"

lemma finite_bound [simp]: "finite {c. bound s c u}"
  by (rule finite_subset [of _ "set (ss_live s)"]) (auto simp: bound_def)

lemma bound_user:
  assumes "server_inv s" "bound s c u"
  shows "0 < u_sessions (heap_of s u)" "u \<in> set (live (sv_users (ss_server s)))"
    "u < rg_next (sv_users (ss_server s))"
proof -
  have "{c. bound s c u} \<noteq> {}" using assms(2) by auto
  then have "0 < sessions_held s u" by (simp add: sessions_held_def card_gt_0_iff)
  then show *: "0 < u_sessions (heap_of s u)"
    using assms(1) by (simp add: server_inv_def sessions_inv_def)
  have "users_inv (sv_users (ss_server s))" using assms(1) by (simp add: server_inv_def sessions_inv_def)
  with * show "u \<in> set (live (sv_users (ss_server s)))" "u < rg_next (sv_users (ss_server s))"
    unfolding heap_of_def using session_live live_lt by blast+
qed

lemma entry_user:
  "server_inv s \<Longrightarrow> entry (ss_server s) i c = Some u \<longleftrightarrow> bound s c u \<and> u_UUID (heap_of s u) = i"
  by (simp add: server_inv_def table_inv_def)

lemma users_of: "server_inv s \<Longrightarrow> users_inv (sv_users (ss_server s))"
  by (simp add: server_inv_def sessions_inv_def)

lemma user_conns_wf:
  assumes "wf_map (sv_activeConns s)" "\<forall>(i, conns) \<in> set (sv_activeConns s). wf_map conns"
  shows "wf_map (user_conns i s)"
  using assms by (auto simp: user_conns_def split: option.split dest!: map_of_SomeD)

text \<open>
  A change that keeps the table, who is bound to which connection, and of each user the UUID and
  the sessions, keeps the invariant.
\<close>

lemma frame_inv:
  assumes inv: "server_inv s"
    and conns: "conns_inv t" "\<And>c u. bound t c u \<longleftrightarrow> bound s c u"
    and table: "sv_activeConns (ss_server t) = sv_activeConns (ss_server s)"
    and users: "users_inv (sv_users (ss_server t))"
      "\<And>u. u < rg_next (sv_users (ss_server s)) \<Longrightarrow>
         u_UUID (heap_of t u) = u_UUID (heap_of s u) \<and> u_sessions (heap_of t u) = u_sessions (heap_of s u)"
      "\<And>u. rg_next (sv_users (ss_server s)) \<le> u \<Longrightarrow> u_sessions (heap_of t u) = 0"
    and revoked: "revoked_inv t"
  shows "server_inv t"
proof -
  have held: "sessions_held t u = sessions_held s u" for u by (simp add: sessions_held_def conns)
  have "u_sessions (heap_of t u) = sessions_held t u" for u
  proof (cases "u < rg_next (sv_users (ss_server s))")
    case True
    then show ?thesis using users(2) [OF True] inv by (simp add: held server_inv_def sessions_inv_def)
  next
    case False
    then have "{c. bound s c u} = {}" using bound_user(3) [OF inv] by blast
    with False users(3) [of u] show ?thesis by (simp add: held) (simp add: sessions_held_def)
  qed
  then have "sessions_inv t" using users(1) by (simp add: sessions_inv_def)
  moreover have "entry (ss_server t) i c = Some u \<longleftrightarrow> bound t c u \<and> u_UUID (heap_of t u) = i" for i c u
  proof -
    have "entry (ss_server t) i c = entry (ss_server s) i c"
      by (simp add: entry_def user_conns_def table)
    then show ?thesis
      using entry_user [OF inv, of i c u] bound_user(3) [OF inv, of c u] users(2) [of u] conns(2) by auto
  qed
  then have "table_inv t" using inv by (simp add: server_inv_def table_inv_def table)
  ultimately show ?thesis using conns(1) revoked by (simp add: server_inv_def)
qed

lemma same_users_inv:
  assumes inv: "server_inv s"
    and "conns_inv t" "\<And>c u. bound t c u \<longleftrightarrow> bound s c u"
    and "sv_activeConns (ss_server t) = sv_activeConns (ss_server s)"
    and users: "sv_users (ss_server t) = sv_users (ss_server s)"
    and revoked: "set (ss_revoking s) \<subseteq> set (ss_revoking t)" "set (sv_kicked (ss_server s)) \<subseteq> set (sv_kicked (ss_server t))"
  shows "server_inv t"
proof (rule frame_inv [OF assms(1-4)])
  show "users_inv (sv_users (ss_server t))" using users_of [OF inv] by (simp add: users)
  show "u_sessions (heap_of t u) = 0" if "rg_next (sv_users (ss_server s)) \<le> u" for u
    using inv_idle_new [OF users_of [OF inv] that] by (simp add: heap_of_def users idle_def)
  have "revoked_inv s" using inv by (simp add: server_inv_def)
  then show "revoked_inv t"
    using revoked assms(3) unfolding revoked_inv_def users kicked_def by blast
qed (simp add: heap_of_def users)

subsection \<open>Preservation\<close>

lemma new_conn_fields [simp]: "cn_user new_conn = None" "cn_state new_conn = 0"
  by (simp_all add: new_conn_def)

lemma markActive_fields [simp]:
  "sv_users (markActive e now s) = sv_users s" "sv_activeConns (markActive e now s) = sv_activeConns s"
  "sv_kicked (markActive e now s) = sv_kicked s" "sv_connections (markActive e now s) = sv_connections s"
  by (simp_all add: markActive_def)

lemma conns_of: "server_inv s \<Longrightarrow> conns_inv s"
  by (simp add: server_inv_def)

lemma conn_user_state:
  "server_inv s \<Longrightarrow> cn_state (ss_conns s c) \<noteq> 1 \<Longrightarrow> cn_user (ss_conns s c) = None"
  unfolding server_inv_def conns_inv_def by blast

lemma register_inv:
  assumes inv: "server_inv s" and c: "c \<in> set (ss_live s)" "cn_state (ss_conns s c) = 0"
    and u: "map_of (rg_users (sv_users (ss_server s))) i = Some u"
  shows "server_inv (s\<lparr>ss_server := markActive e now (registerConn u c (ss_server s)),
      ss_conns := (ss_conns s)(c := \<lparr>cn_state = 1, cn_user = Some u\<rparr>)\<rparr>)" (is "server_inv ?tt")
proof -
  define t where "t = ?tt"
  let ?sv = "ss_server s" and ?id = "u_UUID (heap_of s u)"
  have none: "cn_user (ss_conns s c) = None" using conn_user_state [OF inv] c by simp
  have b: "bound t d v \<longleftrightarrow> (if d = c then v = u else bound s d v)" for d v
    using c by (auto simp: bound_def t_def)
  have free: "\<not> bound s c v" for v using none by (simp add: bound_def)
  have users: "sv_users (ss_server t) = session_started u (sv_users ?sv)"
    by (simp add: registerConn_def Let_def t_def)
  have live: "u \<in> set (live (sv_users ?sv))" using u by (rule registered_live)
  have "{d. bound t d v} = (if v = u then insert c {d. bound s d v} else {d. bound s d v})" for v
    using free by (auto simp: b)
  then have held: "sessions_held t v = sessions_held s v + (if v = u then 1 else 0)" for v
    using free by (simp add: sessions_held_def)
  have heap: "heap_of t v = (if v = u then (heap_of s u)\<lparr>u_sessions := u_sessions (heap_of s u) + 1\<rparr> else heap_of s v)" for v
    by (simp add: heap_of_def users session_started_def)
  have wf: "wf_map (user_conns j ?sv)" for j
    using inv by (intro user_conns_wf) (simp_all add: server_inv_def table_inv_def)
  have act: "sv_activeConns (ss_server t) = AList.update ?id (AList.update c u (user_conns ?id ?sv)) (sv_activeConns ?sv)"
    by (simp add: registerConn_def Let_def heap_of_def t_def)
  have "entry (ss_server t) j d = (if j = ?id \<and> d = c then Some u else entry ?sv j d)" for j d
    by (simp add: entry_def user_conns_def act map_of_update)
  then have ent: "entry (ss_server t) j d = Some v \<longleftrightarrow> bound t d v \<and> u_UUID (heap_of t v) = j" for j d v
    using entry_user [OF inv, of j d v] free by (auto simp: b heap)
  have "table_inv t"
    unfolding table_inv_def
  proof (intro conjI allI ent)
    show "wf_map (sv_activeConns (ss_server t))" using inv by (simp add: act server_inv_def table_inv_def)
    show "\<forall>(i, conns) \<in> set (sv_activeConns (ss_server t)). wf_map conns"
      using inv wf by (auto simp: act server_inv_def table_inv_def set_update_wf)
  qed
  moreover have "sessions_inv t"
    using inv session_started_inv(1) [OF users_of [OF inv] live]
    by (simp add: sessions_inv_def heap held users server_inv_def)
  moreover have "conns_inv t" using inv by (auto simp: server_inv_def conns_inv_def t_def)
  moreover have "u \<in> registered (sv_users ?sv)" using u by (force simp: registered_def dest: map_of_SomeD)
  then have "revoked_inv t"
    using inv unfolding server_inv_def revoked_inv_def b kicked_def users registered_def session_started_def
    by (auto simp: t_def registerConn_def Let_def)
  ultimately show ?thesis unfolding t_def [symmetric] by (simp add: server_inv_def)
qed


lemma unregister_inv:
  assumes inv: "server_inv s" and c: "bound s c u" and kk: "set (sv_kicked (ss_server s)) \<subseteq> set kk"
  shows "server_inv (s\<lparr>ss_server := (unregisterConn u c (ss_server s))\<lparr>sv_kicked := kk\<rparr>,
      ss_live := remove1 c (ss_live s)\<rparr>)"
    (is "server_inv ?tt")
proof -
  define t where "t = ?tt"
  let ?sv = "ss_server s" and ?id = "u_UUID (heap_of s u)"
  have here: "entry ?sv ?id c = Some u" using entry_user [OF inv] c by simp
  then obtain conns where conns: "map_of (sv_activeConns ?sv) ?id = Some conns" "map_of conns c = Some u"
    by (auto simp: entry_def user_conns_def split: option.splits)
  have wfa: "wf_map (sv_activeConns ?sv)" and wfc: "wf_map conns"
    and wfall: "\<forall>(i, conns) \<in> set (sv_activeConns ?sv). wf_map conns"
    using inv conns(1) by (auto simp: server_inv_def table_inv_def dest!: map_of_SomeD)
  have act: "sv_activeConns (ss_server t) = (if AList.delete c conns = [] then AList.delete ?id (sv_activeConns ?sv)
      else AList.update ?id (AList.delete c conns) (sv_activeConns ?sv))"
    and users: "sv_users (ss_server t) = sessionEnded (Some u) (sv_users ?sv)"
    using conns by (simp_all add: t_def unregisterConn_def Let_def heap_of_def)
  have distinct: "distinct (ss_live s)" using inv by (simp add: server_inv_def conns_inv_def)
  have b: "bound t d v \<longleftrightarrow> bound s d v \<and> d \<noteq> c" for d v
    using distinct by (auto simp: bound_def t_def)
  have "{d. bound t d v} = {d. bound s d v} - {c}" for v by (auto simp: b)
  moreover have "c \<in> {d. bound s d v} \<longleftrightarrow> v = u" for v using c by (auto simp: bound_def)
  moreover have "0 < card {d. bound s d u}" using c by (auto simp: card_gt_0_iff)
  ultimately have held: "sessions_held t v = sessions_held s v - (if v = u then 1 else 0)" for v
    by (auto simp: sessions_held_def card_Diff_singleton_if of_nat_diff)
  have heap: "heap_of t v = (if v = u then (heap_of s u)\<lparr>u_sessions := u_sessions (heap_of s u) - 1\<rparr> else heap_of s v)" for v
    by (simp add: heap_of_def users sessionEnded_def)
  have "user_conns j (ss_server t) = (if j = ?id then AList.delete c conns else user_conns j ?sv)" for j
    by (simp add: user_conns_def act map_of_update map_of_delete)
  then have "entry (ss_server t) j d = (if j = ?id \<and> d = c then None else entry ?sv j d)" for j d
    using conns by (simp add: entry_def user_conns_def map_of_delete)
  moreover have "bound s c v \<longleftrightarrow> v = u" for v using c by (auto simp: bound_def)
  ultimately have ent: "entry (ss_server t) j d = Some v \<longleftrightarrow> bound t d v \<and> u_UUID (heap_of t v) = j" for j d v
    using entry_user [OF inv, of j d v] by (auto simp: b heap)
  have "table_inv t"
    unfolding table_inv_def
  proof (intro conjI allI ent)
    show "wf_map (sv_activeConns (ss_server t))" using wfa by (simp add: act)
    show "\<forall>(i, conns) \<in> set (sv_activeConns (ss_server t)). wf_map conns"
      using wfa wfall wfc by (auto simp: act set_update_wf set_delete)
  qed
  moreover have "sessions_inv t"
    using inv sessionEnded_inv(1) [OF users_of [OF inv] bound_user(1) [OF inv c, unfolded heap_of_def]]
    by (simp add: sessions_inv_def heap held users server_inv_def)
  moreover have "conns_inv t" using inv by (simp add: server_inv_def conns_inv_def t_def)
  moreover have "revoked_inv t"
    using inv kk unfolding server_inv_def revoked_inv_def b kicked_def users registered_def sessionEnded_def
    by (auto simp: t_def) blast+
  ultimately show ?thesis unfolding t_def [symmetric] by (simp add: server_inv_def)
qed

lemma cleanup_inv:
  assumes inv: "server_inv s" and c: "c \<in> set (ss_live s)"
    and clean: "conn_cleanup c (ss_server s, ss_conns s c) = (s', cn')"
  shows "server_inv (s\<lparr>ss_server := s', ss_conns := (ss_conns s)(c := cn'), ss_live := remove1 c (ss_live s)\<rparr>)"
    (is "server_inv ?t")
proof (cases "cn_user (ss_conns s c)")
  case None
  then have s': "s' = (ss_server s)\<lparr>sv_kicked := (c, 0) # sv_kicked (ss_server s)\<rparr>" "cn' = ss_conns s c"
    using clean by (simp_all add: conn_cleanup_def Let_def)
  have d: "distinct (ss_live s)" using inv by (simp add: server_inv_def conns_inv_def)
  show ?thesis
  proof (rule same_users_inv [OF inv])
    show "conns_inv ?t" using conns_of [OF inv] by (simp add: conns_inv_def s')
    show "bound ?t d u \<longleftrightarrow> bound s d u" for d u
      using d None by (auto simp: bound_def s')
  qed (simp_all add: s' subset_insertI)
next
  case (Some u)
  then have b: "bound s c u" using c by (simp add: bound_def)
  let ?sv = "unregisterConn u c (ss_server s)"
  have kept: "sv_kicked ?sv = sv_kicked (ss_server s)"
    by (simp add: unregisterConn_def Let_def split: option.split)
  have "s' = ?sv\<lparr>sv_kicked := (c, 0) # sv_kicked (ss_server s)\<rparr>" "cn' = ss_conns s c"
    using clean Some kept by (simp_all add: conn_cleanup_def Let_def)
  then show ?thesis using unregister_inv [OF inv b, of "(c, 0) # sv_kicked (ss_server s)"] by auto
qed

lemma update_inv:
  assumes inv: "server_inv s" and valid: "ValidateClients parse clients = None"
    and set: "SetUsers parse render clients (sv_users (ss_server s)) = (users, revoked)"
  shows "server_inv (s\<lparr>ss_server := (ss_server s)\<lparr>sv_users := users\<rparr>, ss_revoking := revoked @ ss_revoking s\<rparr>)"
    (is "server_inv ?t")
proof -
  let ?r = "sv_users (ss_server s)"
  obtain ids where ids: "map (\<lambda>c. parse (cs_UUID c)) clients = map Some ids" "distinct ids"
    using valid by (auto simp: ValidateClients_None)
  note parts = SetUsers_parts [OF users_of [OF inv] ids set]
  have heap: "rg_heap users u = rg_heap ?r u" if "u < rg_next ?r" for u
    using parts(1) that by (simp add: sl_frame_def)
  have idle: "idle (rg_heap users u)" if "rg_next ?r \<le> u" for u
    using parts(1) that by (simp add: sl_frame_def)
  show ?thesis
  proof (rule frame_inv [OF inv])
    show "conns_inv ?t" using conns_of [OF inv] by (simp add: conns_inv_def)
    show "bound ?t c u \<longleftrightarrow> bound s c u" for c u by (simp add: bound_def)
    show "users_inv (sv_users (ss_server ?t))"
      using SetUsers_inv [OF users_of [OF inv] valid, of render] by (simp add: set)
    show "u_UUID (heap_of ?t u) = u_UUID (heap_of s u) \<and> u_sessions (heap_of ?t u) = u_sessions (heap_of s u)"
      if "u < rg_next ?r" for u using heap [OF that] by (simp add: heap_of_def)
    show "u_sessions (heap_of ?t u) = 0" if "rg_next ?r \<le> u" for u
      using idle [OF that] by (simp add: heap_of_def idle_def)
    have b: "bound ?t c u \<longleftrightarrow> bound s c u" for c u by (simp add: bound_def)
    show "revoked_inv ?t"
      unfolding revoked_inv_def b
    proof (intro allI impI)
      fix c u assume "bound s c u"
      then have "u \<in> registered ?r \<or> u \<in> set (ss_revoking s) \<or> kicked s c"
        using inv by (simp add: server_inv_def revoked_inv_def)
      then show "u \<in> registered (sv_users (ss_server ?t)) \<or> u \<in> set (ss_revoking ?t) \<or> kicked ?t c"
        using parts(4) by (auto simp: kicked_def)
    qed
  qed simp
qed

lemma revoke_inv:
  assumes inv: "server_inv s"
  shows "server_inv (s\<lparr>ss_server := closeUserConns u (ss_server s), ss_revoking := remove1 u (ss_revoking s)\<rparr>)"
    (is "server_inv ?t")
proof -
  have b: "bound ?t c v \<longleftrightarrow> bound s c v" for c v by (simp add: bound_def)
  have kick: "kicked ?t c" if "bound s c u" for c
  proof -
    have "entry (ss_server s) (u_UUID (heap_of s u)) c = Some u" using entry_user [OF inv] that by simp
    then have "(c, u) \<in> set (user_conns (u_UUID (heap_of s u)) (ss_server s))"
      by (auto simp: entry_def dest: map_of_SomeD)
    then show ?thesis by (force simp: kicked_def closeUserConns_def Let_def heap_of_def)
  qed
  show ?thesis
  proof (rule frame_inv [OF inv])
    show "conns_inv ?t" using conns_of [OF inv] by (simp add: conns_inv_def)
    show "revoked_inv ?t"
      unfolding revoked_inv_def b
    proof (intro allI impI)
      fix c v assume bd: "bound s c v"
      then have "v \<in> registered (sv_users (ss_server s)) \<or> v \<in> set (ss_revoking s) \<or> kicked s c"
        using inv by (simp add: server_inv_def revoked_inv_def)
      moreover have "kicked s c \<Longrightarrow> kicked ?t c"
        by (auto simp: kicked_def closeUserConns_def Let_def)
      ultimately show "v \<in> registered (sv_users (ss_server ?t)) \<or> v \<in> set (ss_revoking ?t) \<or> kicked ?t c"
        using kick [of c] bd by (cases "v = u") (auto simp: closeUserConns_def Let_def)
    qed
    show "u_sessions (heap_of ?t v) = 0" if "rg_next (sv_users (ss_server s)) \<le> v" for v
      using inv_idle_new [OF users_of [OF inv] that] by (simp add: heap_of_def closeUserConns_def Let_def idle_def)
    show "bound ?t c v \<longleftrightarrow> bound s c v" for c v by (rule b)
  qed (use users_of [OF inv] in \<open>simp_all add: closeUserConns_def Let_def heap_of_def\<close>)
qed

lemma collect_inv:
  assumes inv: "server_inv s" and collect: "CollectAllTraffic (ss_server s) = (s', totalUp, totalDown, ds)"
  shows "server_inv (s\<lparr>ss_server := s', ss_collected := x\<rparr>)" (is "server_inv ?t")
proof -
  let ?r = "sv_users (ss_server s)" and ?r' = "fst (CollectTrafficDeltas (sv_users (ss_server s)))"
  have s': "s' = (ss_server s)\<lparr>sv_users := ?r'\<rparr>"
    using collect by (auto simp: CollectAllTraffic_def CollectClientTraffic_def split: prod.splits)
  note users = users_of [OF inv]
  have heap: "u_UUID (heap_of ?t u) = u_UUID (heap_of s u)" "u_sessions (heap_of ?t u) = u_sessions (heap_of s u)" for u
    by (simp_all add: heap_of_def s' CollectTrafficDeltas_eq [OF users] drain_refs_def drained_def)
  have b: "bound ?t c u \<longleftrightarrow> bound s c u" for c u by (simp add: bound_def)
  show ?thesis
  proof (rule frame_inv [OF inv])
    show "conns_inv ?t" using conns_of [OF inv] by (simp add: conns_inv_def)
    show "users_inv (sv_users (ss_server ?t))" using CollectTrafficDeltas_inv [OF users] by (simp add: s')
    show "u_sessions (heap_of ?t u) = 0" if "rg_next ?r \<le> u" for u
      using inv_idle_new [OF users that] heap(2) by (simp add: heap_of_def idle_def)
    have "registered ?r' = registered ?r" by (simp add: registered_def CollectTrafficDeltas_eq [OF users])
    then show "revoked_inv ?t"
      using inv unfolding server_inv_def revoked_inv_def b by (simp add: s' kicked_def)
    show "bound ?t c u \<longleftrightarrow> bound s c u" for c u by (rule b)
  qed (use heap in \<open>simp_all add: s'\<close>)
qed

lemma relay_inv:
  assumes inv: "server_inv s" and c: "bound s c u" and n: "0 \<le> n"
  shows "server_inv (s\<lparr>ss_server := markActive e now ((ss_server s)\<lparr>sv_users := add_bytes up u n (sv_users (ss_server s))\<rparr>),
      ss_added := x\<rparr>)" (is "server_inv ?t")
proof -
  let ?r = "sv_users (ss_server s)"
  note users = users_of [OF inv]
  have busy: "0 < u_sessions (rg_heap ?r u)" using bound_user(1) [OF inv c] by (simp add: heap_of_def)
  have heap: "u_UUID (heap_of ?t v) = u_UUID (heap_of s v)" "u_sessions (heap_of ?t v) = u_sessions (heap_of s v)" for v
    by (simp_all add: heap_of_def add_bytes_def Let_def)
  have b: "bound ?t c u \<longleftrightarrow> bound s c u" for c u by (simp add: bound_def)
  show ?thesis
  proof (rule frame_inv [OF inv])
    show "conns_inv ?t" using conns_of [OF inv] by (simp add: conns_inv_def)
    show "users_inv (sv_users (ss_server ?t))" using add_bytes_inv(1) [OF users busy n] by simp
    show "u_sessions (heap_of ?t v) = 0" if "rg_next ?r \<le> v" for v
      using inv_idle_new [OF users that] heap(2) by (simp add: heap_of_def idle_def)
    have "registered (add_bytes up u n ?r) = registered ?r" by (simp add: registered_def add_bytes_def Let_def)
    then show "revoked_inv ?t"
      using inv unfolding server_inv_def revoked_inv_def b by (simp add: kicked_def)
    show "bound ?t c u \<longleftrightarrow> bound s c u" for c u by (rule b)
  qed (use heap in \<open>simp_all\<close>)
qed

lemma register_callback_state:
  "register_callback c now u (s, cn) = (acc, s', cn') \<Longrightarrow>
    (acc \<and> cn_state cn = 0 \<and> s' = markActive (u_Email (rg_heap (sv_users s) u)) now (registerConn u c s)
       \<and> cn' = \<lparr>cn_state = 1, cn_user = Some u\<rparr>)
    \<or> (cn_state cn \<noteq> 0 \<and> acc = (cn_state cn = 1 \<and> cn_user cn = Some u) \<and> s' = s \<and> cn' = cn)"
  by (auto simp: register_callback_def split: if_splits)

text \<open>An attempt to authenticate registers the connection, or changes nothing (and may close it).\<close>

lemma conn_authenticate_cases:
  assumes "conn_authenticate tls c now rawUUID token (s, cn) = (res, s', cn')"
  obtains (registered) u where "res = Inr u" "cn_state cn = 0" "map_of (rg_users (sv_users s)) rawUUID = Some u"
      "Authenticate (sv_users s) (Some tls) rawUUID token = Inr u"
      "s' = markActive (u_Email (rg_heap (sv_users s) u)) now (registerConn u c s)"
      "cn' = \<lparr>cn_state = 1, cn_user = Some u\<rparr>"
  | (again) u where "res = Inr u" "cn_state cn = 1" "cn_user cn = Some u" "s' = s" "cn' = cn"
  | (refused) err where "res = Inl err" "s' = s\<lparr>sv_kicked := (c, 256) # sv_kicked s\<rparr>" "cn' = cn"
proof -
  let ?a = "authenticate (sv_users s) (Some tls) rawUUID token (Some (register_callback c now)) (s, cn)"
  obtain r s1 c1 where a: "?a = (r, s1, c1)" by (cases ?a) auto
  show thesis
  proof (cases r)
    case (Inl err)
    have "(s1, c1) = (s, cn)"
      using a Inl unfolding authenticate_eq
      by (auto simp: Let_def register_callback_def split: option.splits if_splits sum.splits)
    with a Inl assms show thesis
      by (intro refused) (auto simp: conn_authenticate_def AuthenticateAndRegister_def)
  next
    case (Inr u)
    obtain acc s2 c2 where cb: "register_callback c now u (s, cn) = (acc, s2, c2)"
      by (metis prod_cases3)
    have "map_of (rg_users (sv_users s)) rawUUID = Some u" using authenticate_Inr a Inr by (metis fst_conv)
    moreover from this a Inr cb have "acc" "s1 = s2" "c1 = c2"
      "Authenticate (sv_users s) (Some tls) rawUUID token = Inr u"
      unfolding Authenticate_def authenticate_eq by (auto simp: Let_def split: if_splits sum.splits)
    moreover have "res = Inr u" "s' = s1" "cn' = c1"
      using a Inr assms by (auto simp: conn_authenticate_def AuthenticateAndRegister_def)
    ultimately show thesis using register_callback_state [OF cb] by (auto intro: registered again)
  qed
qed

subsection \<open>The invariant and the simulation\<close>

inductive_cases server_stepE [elim]: "server_step s t"

lemma accept_inv:
  assumes inv: "server_inv s" and c: "c \<notin> set (ss_live s)" "ss_conns s c = new_conn"
    and turn: "accept_turn (Some c) (ss_server s) = (s', serves)"
  shows "server_inv (s\<lparr>ss_server := s', ss_live := (if serves then c # ss_live s else ss_live s)\<rparr>)" (is "server_inv ?t")
proof (rule same_users_inv [OF inv])
  show "conns_inv ?t" using conns_of [OF inv] c by (simp add: conns_inv_def)
  show "bound ?t d u \<longleftrightarrow> bound s d u" for d u using c by (auto simp: bound_def)
qed (use turn in \<open>auto simp: accept_turn_def split: if_splits\<close>)

lemma same_conns_inv:
  assumes inv: "server_inv s" and "sv_activeConns s' = sv_activeConns (ss_server s)"
    "sv_users s' = sv_users (ss_server s)" "set (sv_kicked (ss_server s)) \<subseteq> set (sv_kicked s')"
  shows "server_inv (s\<lparr>ss_server := s'\<rparr>)"
  using assms conns_of [OF inv] by (intro same_users_inv [OF inv]) (simp_all add: conns_inv_def bound_def)

lemma authenticate_inv:
  assumes inv: "server_inv s" and c: "c \<in> set (ss_live s)"
    and auth: "conn_authenticate tls c now rawUUID token (ss_server s, ss_conns s c) = (res, s', cn')"
  shows "server_inv (s\<lparr>ss_server := s', ss_conns := (ss_conns s)(c := cn')\<rparr>)"
  using auth
proof (cases rule: conn_authenticate_cases)
  case (registered u)
  then show ?thesis using register_inv [OF inv c registered(2,3)] by simp
next
  case (again u)
  then show ?thesis using inv by simp
next
  case (refused err)
  then show ?thesis using same_conns_inv [OF inv, of s'] by auto
qed

lemma timeout_inv:
  assumes inv: "server_inv s" and timeout: "auth_timeout c (ss_server s, ss_conns s c) = (s', cn')"
  shows "server_inv (s\<lparr>ss_server := s', ss_conns := (ss_conns s)(c := cn')\<rparr>)" (is "server_inv ?t")
proof (rule same_users_inv [OF inv])
  have cn: "cn_state (ss_conns s c) = 0 \<Longrightarrow> cn_user (ss_conns s c) = None" using conn_user_state [OF inv] by simp
  then show "conns_inv ?t"
    using timeout conns_of [OF inv] by (auto simp: auth_timeout_def conns_inv_def split: if_splits)
  show "bound ?t d u \<longleftrightarrow> bound s d u" for d u
    using timeout by (auto simp: auth_timeout_def bound_def split: if_splits)
qed (use timeout in \<open>auto simp: auth_timeout_def split: if_splits\<close>)

lemma waitForAuth_user: "waitForAuth cn = Authenticated u \<Longrightarrow> cn_user cn = Some u"
  by (auto simp: waitForAuth_def split: option.splits if_splits)

lemma UpdateUsers_cases:
  "UpdateUsers parse render clients s = (s', revoked) \<Longrightarrow>
    (ValidateClients parse clients \<noteq> None \<and> s' = s \<and> revoked = [])
    \<or> (ValidateClients parse clients = None \<and> s' = s\<lparr>sv_users := fst (SetUsers parse render clients (sv_users s))\<rparr>
       \<and> revoked = snd (SetUsers parse render clients (sv_users s)))"
  by (auto simp: UpdateUsers_def split: option.splits prod.splits)

lemma server_step_inv:
  assumes "server_inv s" "server_step s t"
  shows "server_inv t"
  using assms(2,1)
proof (induction rule: server_step.induct)
  case (sv_update parse render clients s s' revoked)
  then show ?case
    using UpdateUsers_cases [OF sv_update(1)] update_inv [OF sv_update(2), of parse clients render]
    by (auto simp: prod_eq_iff)
next
  case (sv_relay c s u n up email now)
  then show ?case using relay_inv waitForAuth_user unfolding bound_def by blast
next
  case (sv_collect s s' totalUp totalDown ds)
  then show ?case using collect_inv by blast
next
  case (sv_close s)
  then show ?case by (intro same_conns_inv) (auto simp: Close_def closeAllConns_def)
next
  case (sv_settings s tag cc lvl)
  then show ?case by (intro same_conns_inv) (auto simp: UpdateRuntimeSettings_def updateRuntimeSettings_def)
next
  case (sv_accept_error s)
  then show ?case by (intro same_conns_inv) (auto simp: accept_turn_def)
next
  case (sv_forget c s)
  then show ?case by (intro same_conns_inv) auto
qed (blast intro: accept_inv authenticate_inv timeout_inv revoke_inv cleanup_inv)+

definition traffic_start :: "trafficSystem \<Rightarrow> bool" where
  "traffic_start s \<longleftrightarrow> s = \<lparr>ts_reg = NewUserRegistry, ts_added = \<lambda>_ _. 0, ts_collected = \<lambda>_ _. 0\<rparr>"

definition traffic_of :: "serverSystem \<Rightarrow> trafficSystem" where
  "traffic_of s = \<lparr>ts_reg = sv_users (ss_server s), ts_added = ss_added s, ts_collected = ss_collected s\<rparr>"

lemma reach_traffic: "reach traffic_start traffic_step a \<Longrightarrow> traffic_reachable a"
  by (induction rule: reach.induct) (auto simp: traffic_start_def intro: traffic_reachable.intros)

lemma server_init_inv: "server_init s \<Longrightarrow> server_inv s"
proof -
  assume "server_init s"
  then obtain parse :: "string \<Rightarrow> bytes option" and render clients sv where s: "ValidateClients parse clients = None"
    "sv_users sv = fst (SetUsers parse render clients NewUserRegistry)" "sv_activeConns sv = []"
    "s = \<lparr>ss_server = sv, ss_conns = (\<lambda>_. new_conn), ss_live = [], ss_revoking = [],
       ss_added = (\<lambda>_ _. 0), ss_collected = (\<lambda>_ _. 0)\<rparr>"
    unfolding server_init_def by blast
  obtain ids where ids: "map (\<lambda>c. parse (cs_UUID c)) clients = map Some ids" "distinct ids"
    using s(1) by (auto simp: ValidateClients_None)
  obtain users revoked where set: "SetUsers parse render clients NewUserRegistry = (users, revoked)"
    by fastforce
  have users: "users_inv (sv_users sv)" using SetUsers_inv [OF inv_NewUserRegistry s(1)] by (simp add: s(2))
  have frame: "sl_frame NewUserRegistry (users\<lparr>rg_users := rg_users NewUserRegistry\<rparr>)"
    by (rule SetUsers_parts(1) [OF inv_NewUserRegistry ids set])
  have "u_sessions (rg_heap users u) = 0" for u
    using frame by (simp add: sl_frame_def NewUserRegistry_def idle_def)
  with users show ?thesis
    by (simp add: server_inv_def conns_inv_def table_inv_def sessions_inv_def revoked_inv_def s(2-) bound_def
      entry_def user_conns_def sessions_held_def heap_of_def set)
qed

lemma server_init_sim:
  assumes "server_init s"
  shows "reach traffic_start traffic_step (traffic_of s)"
proof -
  let ?s0 = "\<lparr>ts_reg = NewUserRegistry, ts_added = \<lambda>_ _. 0, ts_collected = \<lambda>_ _. 0\<rparr>"
  obtain parse :: "string \<Rightarrow> bytes option" and render clients where valid: "ValidateClients parse clients = None"
    and t: "traffic_of s = ?s0\<lparr>ts_reg := fst (SetUsers parse render clients (ts_reg ?s0))\<rparr>"
    using assms by (auto simp: server_init_def traffic_of_def)
  have "reach traffic_start traffic_step ?s0" by (simp add: reach_init traffic_start_def)
  then show ?thesis unfolding t by (rule reach_step) (rule tr_update [OF valid])
qed

lemma server_step_sim:
  assumes "server_inv s" "server_step s t"
  shows "traffic_of t = traffic_of s \<or> traffic_step (traffic_of s) (traffic_of t)"
  using assms(2,1)
proof (induction rule: server_step.induct)
  case (sv_authenticate c s tls now rawUUID token res s' cn')
  from sv_authenticate(2) show ?case
  proof (cases rule: conn_authenticate_cases)
    case (registered u)
    have "traffic_step (traffic_of s) ((traffic_of s)\<lparr>ts_reg := session_started u (ts_reg (traffic_of s))\<rparr>)"
      using registered(4) by (intro tr_login) (simp add: traffic_of_def)
    then show ?thesis by (simp add: traffic_of_def registered registerConn_def Let_def)
  qed (simp_all add: traffic_of_def)
next
  case (sv_update parse render clients s s' revoked)
  then show ?case
    using UpdateUsers_cases [OF sv_update(1)] tr_update [of parse clients "traffic_of s" render]
    by (auto simp: traffic_of_def)
next
  case (sv_relay c s u n up email now)
  then have "bound s c u" using waitForAuth_user by (simp add: bound_def)
  then have "0 < u_sessions (rg_heap (ts_reg (traffic_of s)) u)"
    using bound_user(1) [OF sv_relay(4)] by (simp add: traffic_of_def heap_of_def)
  from tr_bytes [OF this sv_relay(3), of up] show ?case by (simp add: traffic_of_def)
next
  case (sv_collect s s' totalUp totalDown ds)
  obtain r ds0 where c: "CollectTrafficDeltas (sv_users (ss_server s)) = (r, ds0)" by fastforce
  then have "s' = (ss_server s)\<lparr>sv_users := r\<rparr>" "ds = map (\<lambda>d. d\<lparr>d_InboundID := sv_id (ss_server s)\<rparr>) ds0"
    using sv_collect(1) by (auto simp: CollectAllTraffic_def CollectClientTraffic_def)
  moreover from this have "billed up t ds = billed up t ds0" for up t
    by (simp add: billed_def d_counter_def o_def cong: if_cong)
  ultimately show ?case
    using tr_collect [of "traffic_of s" r ds0] c by (simp add: traffic_of_def)
next
  case (sv_cleanup c s s' cn')
  show ?case
  proof (cases "cn_user (ss_conns s c)")
    case None
    then show ?thesis using sv_cleanup(2) by (auto simp: conn_cleanup_def Let_def traffic_of_def)
  next
    case (Some u)
    then have b: "bound s c u" using sv_cleanup(1) by (simp add: bound_def)
    then have e: "entry (ss_server s) (u_UUID (rg_heap (sv_users (ss_server s)) u)) c = Some u"
      using entry_user [OF sv_cleanup(3)] by (simp add: heap_of_def)
    have "sv_users s' = sessionEnded (Some u) (sv_users (ss_server s))"
      using sv_cleanup(2) Some e
      by (auto simp: conn_cleanup_def Let_def unregisterConn_def entry_def user_conns_def split: option.splits)
    moreover have "0 < u_sessions (rg_heap (ts_reg (traffic_of s)) u)"
      using bound_user(1) [OF sv_cleanup(3) b] by (simp add: traffic_of_def heap_of_def)
    ultimately show ?thesis using tr_logout [of "traffic_of s" u] by (simp add: traffic_of_def)
  qed
next
  case (sv_close s)
  then show ?case by (simp add: traffic_of_def Close_def closeAllConns_def)
qed (auto simp: traffic_of_def accept_turn_def auth_timeout_def closeUserConns_def Let_def
  UpdateRuntimeSettings_def updateRuntimeSettings_def split: if_splits)

interpretation server: simulation server_init server_step server_inv traffic_start traffic_step traffic_of
  by unfold_locales (rule server_init_inv server_step_inv server_init_sim server_step_sim; assumption)+

text \<open>
  C18: the sessions of the server. In every run, the session counter of each user is the number of
  connections served right now that are authenticated as it, and the table of connections holds
  exactly these, under the UUID of the user.
\<close>

theorem server_sessions_exact:
  assumes "reach server_init server_step s"
  shows "u_sessions (rg_heap (sv_users (ss_server s)) u)
      = int (card {c \<in> set (ss_live s). cn_user (ss_conns s c) = Some u})
    \<and> (map_of (user_conns i (ss_server s)) c = Some u \<longleftrightarrow>
        c \<in> set (ss_live s) \<and> cn_user (ss_conns s c) = Some u \<and> i = u_UUID (rg_heap (sv_users (ss_server s)) u))"
proof -
  have inv: "server_inv s" using assms by (rule server.reach_inv)
  have "u_sessions (heap_of s u) = sessions_held s u" using inv by (simp add: server_inv_def sessions_inv_def)
  then show ?thesis
    using entry_user [OF inv, of i c u] by (auto simp: sessions_held_def bound_def heap_of_def entry_def)
qed

text \<open>
  C17: revocation reaches every connection. In every run, a connection served right now as a user
  the configuration no longer has is either closed already or belongs to a user whose connections
  the running update has yet to close; no connection slips in between the update and the revocation.
\<close>

theorem server_revocation:
  assumes "reach server_init server_step s" "c \<in> set (ss_live s)" "cn_user (ss_conns s c) = Some u"
    "u \<notin> snd ` set (rg_users (sv_users (ss_server s)))"
  shows "u \<in> set (ss_revoking s) \<or> c \<in> fst ` set (sv_kicked (ss_server s))"
  using server.reach_inv [OF assms(1)] assms(2-)
  unfolding server_inv_def revoked_inv_def bound_def registered_def kicked_def by blast


lemma NewServer_Inr:
  assumes "NewServer parse render load inst = Inr sv"
  shows "ValidateClients parse (in_Clients inst) = None"
    "sv_users sv = fst (SetUsers parse render (in_Clients inst) NewUserRegistry)"
    "sv_activeConns sv = []" "sv_connections sv = []" "sv_kicked sv = []"
    "sv_logLevel sv = parseLogLevel (in_LogLevel inst)"
    "sv_congestionControl sv = fst (normalizeCongestionControl (in_CongestionControl inst))"
    "sv_nextProtos sv = (if in_ALPN inst = [] then [''h3'', ''spdy/3.1''] else in_ALPN inst)"
    "sv_authTimeout sv = i64 (positive_or 3 (in_AuthenticationTimeout inst) * second)"
    "sv_maxIdleTimeout sv = i64 (positive_or 15 (in_MaxIdleTime inst) * second)"
    "sv_keepAlivePeriod sv = i64 (positive_or 15 (in_MaxIdleTime inst) div 2 * second)"
    "sv_maxUdpRelayPacketSize sv = packet_size_setting (in_MaxUdpRelayPacketSize inst)"
    "sv_maxUdpRelayPacketSize sv \<le> int maxLegacyUdpRelayPacketSize"
proof -
  show valid: "ValidateClients parse (in_Clients inst) = None"
    using assms by (cases "ValidateClients parse (in_Clients inst)") (simp_all add: NewServer_def)
  have "\<not> (in_Certificate inst = [] \<or> in_PrivateKey inst = [])"
    using assms valid by (cases "in_Certificate inst = [] \<or> in_PrivateKey inst = []") (simp_all add: NewServer_def)
  moreover obtain cert where cert: "load (in_Certificate inst) (in_PrivateKey inst) = Some cert"
    using assms valid calculation
    by (cases "load (in_Certificate inst) (in_PrivateKey inst)") (simp_all add: NewServer_def)
  moreover have size: "\<not> int maxLegacyUdpRelayPacketSize < packet_size_setting (in_MaxUdpRelayPacketSize inst)"
    using assms valid calculation
    by (cases "int maxLegacyUdpRelayPacketSize < packet_size_setting (in_MaxUdpRelayPacketSize inst)")
      (simp_all add: NewServer_def Let_def)
  ultimately show "sv_users sv = fst (SetUsers parse render (in_Clients inst) NewUserRegistry)"
    "sv_activeConns sv = []" "sv_connections sv = []" "sv_kicked sv = []"
    "sv_logLevel sv = parseLogLevel (in_LogLevel inst)"
    "sv_congestionControl sv = fst (normalizeCongestionControl (in_CongestionControl inst))"
    "sv_nextProtos sv = (if in_ALPN inst = [] then [''h3'', ''spdy/3.1''] else in_ALPN inst)"
    "sv_authTimeout sv = i64 (positive_or 3 (in_AuthenticationTimeout inst) * second)"
    "sv_maxIdleTimeout sv = i64 (positive_or 15 (in_MaxIdleTime inst) * second)"
    "sv_keepAlivePeriod sv = i64 (positive_or 15 (in_MaxIdleTime inst) div 2 * second)"
    "sv_maxUdpRelayPacketSize sv = packet_size_setting (in_MaxUdpRelayPacketSize inst)"
    "sv_maxUdpRelayPacketSize sv \<le> int maxLegacyUdpRelayPacketSize"
    using assms valid by (auto simp: NewServer_def Let_def updateRuntimeSettings_def)
qed

text \<open>
  a server is configured within bounds. If \<open>NewServer\<close> accepts an instance, the packet size,
  the log level, the congestion controller and the protocols are valid, exactly the clients of the
  instance can log in, and nothing is connected; the timeouts are positive and the keep-alive period
  is shorter than the idle timeout, provided that the configured seconds are a duration.
\<close>

theorem NewServer_ready:
  assumes new: "NewServer parse render load inst = Inr sv"
    and range: "in_MaxIdleTime inst \<le> 9223372036" "in_AuthenticationTimeout inst \<le> 9223372036"
  shows "0 < sv_maxUdpRelayPacketSize sv \<and> sv_maxUdpRelayPacketSize sv \<le> int maxSafeUdpRelayPacketSize
    \<and> sv_logLevel sv \<le> tuicLogError \<and> sv_congestionControl sv \<in> {''bbr'', ''cubic'', ''new_reno''}
    \<and> sv_nextProtos sv \<noteq> [] \<and> 0 < sv_authTimeout sv
    \<and> 0 \<le> sv_keepAlivePeriod sv \<and> sv_keepAlivePeriod sv < sv_maxIdleTimeout sv
    \<and> map Some (keys (rg_users (sv_users sv))) = map (\<lambda>c. parse (cs_UUID c)) (in_Clients inst)
    \<and> server_init \<lparr>ss_server = sv, ss_conns = (\<lambda>_. new_conn), ss_live = [], ss_revoking = [],
         ss_added = (\<lambda>_ _. 0), ss_collected = (\<lambda>_ _. 0)\<rparr>"
proof -
  have valid: "ValidateClients parse (in_Clients inst) = None" by (rule NewServer_Inr(1) [OF new])
  obtain ids where ids: "map (\<lambda>c. parse (cs_UUID c)) (in_Clients inst) = map Some ids" "distinct ids"
    using valid by (auto simp: ValidateClients_None)
  obtain users revoked where set: "SetUsers parse render (in_Clients inst) NewUserRegistry = (users, revoked)"
    by fastforce
  have "sl_settings NewUserRegistry (zip ids (in_Clients inst)) (rg_users users) users"
    by (rule SetUsers_parts(3) [OF inv_NewUserRegistry ids set])
  moreover have "length ids = length (in_Clients inst)" using ids(1) by (metis length_map)
  ultimately have keys: "keys (rg_users users) = ids" by (simp add: sl_settings_def)
  have level: "parseLogLevel l \<le> tuicLogError" for l
    by (simp add: parseLogLevel_def Let_def tuicLogError_def tuicLogDebug_def tuicLogInfo_def tuicLogWarn_def)
  have cc: "fst (normalizeCongestionControl c) \<in> {''bbr'', ''cubic'', ''new_reno''}" for c
    using NormalizeCongestionControl_values by (auto simp: normalizeCongestionControl_def split: option.splits)
  note sv = NewServer_Inr [OF new]
  have "0 < sv_maxUdpRelayPacketSize sv" "sv_maxUdpRelayPacketSize sv \<le> int maxSafeUdpRelayPacketSize"
    using sv(12,13) by (auto simp: packet_size_setting_def positive_or_def Let_def maxSafeUdpRelayPacketSize_def
        maxLegacyUdpRelayPacketSize_def split: if_splits)
  moreover have "0 < sv_authTimeout sv" "0 \<le> sv_keepAlivePeriod sv" "sv_keepAlivePeriod sv < sv_maxIdleTimeout sv"
    using range by (auto simp: sv(9-11) positive_or_def second_def)
  moreover have "server_init \<lparr>ss_server = sv, ss_conns = (\<lambda>_. new_conn), ss_live = [], ss_revoking = [],
         ss_added = (\<lambda>_ _. 0), ss_collected = (\<lambda>_ _. 0)\<rparr>"
    using sv(1-5) by (auto simp: server_init_def)
  moreover have "sv_nextProtos sv \<noteq> []" by (simp add: sv(8))
  moreover have "sv_users sv = users" by (simp add: sv(2) set)
  ultimately show ?thesis using keys ids(1) level [of "in_LogLevel inst"] cc [of "in_CongestionControl inst"]
    by (simp add: sv(6,7))
qed

definition demo_setup :: Instance where
  "demo_setup = (demo_instance [demo_client ''u1'' ''p''])\<lparr>in_Certificate := ''c'', in_PrivateKey := ''k''\<rparr>"

definition demo_new :: Server where
  "demo_new = projr (NewServer demo_parse string_of_bytes (\<lambda>_ _. Some ()) demo_setup)"

lemma demo_NewServer: "NewServer demo_parse string_of_bytes (\<lambda>_ _. Some ()) demo_setup = Inr demo_new"
  by (simp add: demo_new_def NewServer_def demo_setup_def demo_instance_def demo_valid Let_def
      packet_size_setting_def positive_or_def maxSafeUdpRelayPacketSize_def maxLegacyUdpRelayPacketSize_def)

definition demo_server :: Server where
  "demo_server = fst (Start True True demo_new)"

lemma demo_server_fields: "sv_users demo_server = demo_one" "sv_closed demo_server = False"
  "sv_connections demo_server = []" "sv_activeConns demo_server = []" "sv_kicked demo_server = []"
  "sv_lastOnline demo_server = []" "sv_running demo_server = True"
  using NewServer_Inr [OF demo_NewServer]
  by (simp_all add: demo_setup_def demo_instance_def demo_one_def demo_server_def Start_def)
    (simp_all add: demo_new_def NewServer_def demo_setup_def demo_instance_def demo_valid Let_def
      packet_size_setting_def positive_or_def maxSafeUdpRelayPacketSize_def maxLegacyUdpRelayPacketSize_def
      updateRuntimeSettings_def)

theorem NewServer_ready_witness:
  "sv_keepAlivePeriod demo_new < sv_maxIdleTimeout demo_new
   \<and> server_init \<lparr>ss_server = demo_new, ss_conns = (\<lambda>_. new_conn), ss_live = [], ss_revoking = [],
         ss_added = (\<lambda>_ _. 0), ss_collected = (\<lambda>_ _. 0)\<rparr>"
  using NewServer_ready [OF demo_NewServer] by (simp add: demo_setup_def demo_instance_def)

text \<open>A run: connection 7 is accepted, logs in as the only user, relays 40 bytes, and the user is removed.\<close>

definition demo_initial :: serverSystem where
  "demo_initial = \<lparr>ss_server = demo_server, ss_conns = (\<lambda>_. new_conn), ss_live = [], ss_revoking = [],
     ss_added = (\<lambda>_ _. 0), ss_collected = (\<lambda>_ _. 0)\<rparr>"

definition demo_accepted :: serverSystem where
  "demo_accepted = demo_initial\<lparr>ss_server := demo_server\<lparr>sv_connections := [7]\<rparr>, ss_live := [7]\<rparr>"

definition demo_logged_in :: serverSystem where
  "demo_logged_in = demo_accepted\<lparr>ss_server := (registerConn 0 7 (demo_server\<lparr>sv_connections := [7]\<rparr>))\<lparr>sv_lastOnline := [(''a'', 100)]\<rparr>,
     ss_conns := (\<lambda>_. new_conn)(7 := \<lparr>cn_state = 1, cn_user = Some 0\<rparr>)\<rparr>"

definition demo_relayed :: serverSystem where
  "demo_relayed = demo_logged_in\<lparr>ss_server := markActive ''a'' 101 ((ss_server demo_logged_in)\<lparr>sv_users :=
       add_bytes True 0 40 (sv_users (ss_server demo_logged_in))\<rparr>),
     ss_added := (\<lambda>_ _. 0)(True := (\<lambda>_. 0)(9 := 40))\<rparr>"

definition demo_updated :: serverSystem where
  "demo_updated = demo_relayed\<lparr>ss_server := (ss_server demo_relayed)\<lparr>sv_users :=
       fst (SetUsers demo_parse string_of_bytes [] (sv_users (ss_server demo_relayed)))\<rparr>,
     ss_revoking := snd (SetUsers demo_parse string_of_bytes [] (sv_users (ss_server demo_relayed)))\<rparr>"

lemmas demo_states = demo_initial_def demo_accepted_def demo_logged_in_def demo_relayed_def

lemma demo_initial_reachable: "reach server_init server_step demo_initial"
proof (rule reach_init)
  show "server_init demo_initial"
    unfolding server_init_def demo_initial_def
    by (rule exI [of _ demo_parse], rule exI [of _ string_of_bytes], rule exI [of _ "[demo_client ''u1'' ''p'']"])
      (simp add: demo_server_fields demo_one_def demo_valid)
qed

lemma demo_accept_step: "server_step demo_initial demo_accepted"
proof -
  have "server_step demo_initial (demo_initial\<lparr>ss_server := demo_server\<lparr>sv_connections := [7]\<rparr>,
      ss_live := if True then 7 # ss_live demo_initial else ss_live demo_initial\<rparr>)"
    by (rule sv_accept) (simp_all add: demo_initial_def demo_server_fields accept_turn_def)
  then show ?thesis by (simp add: demo_states)
qed

lemma demo_login_step: "server_step demo_accepted demo_logged_in"
proof -
  let ?sv = "demo_server\<lparr>sv_connections := [7]\<rparr>"
  have email: "u_Email (rg_heap demo_one 0) = ''a''" by (simp add: auth_demo_defs)
  have "conn_authenticate demo_tls 7 100 (bytes_of_string ''u1'') (bytes_of_string ''u1p'') (?sv, new_conn)
     = (Inr 0, markActive ''a'' 100 (registerConn 0 7 ?sv), \<lparr>cn_state = 1, cn_user = Some 0\<rparr>)"
    by (simp add: conn_authenticate_def AuthenticateAndRegister_def authenticate_eq demo_server_fields
        demo_one_state demo_tls_def Let_def register_callback_def email) (simp add: bytes_of_string_def)
  then have "server_step demo_accepted (demo_accepted\<lparr>ss_server := markActive ''a'' 100 (registerConn 0 7 ?sv),
      ss_conns := (ss_conns demo_accepted)(7 := \<lparr>cn_state = 1, cn_user = Some 0\<rparr>)\<rparr>)"
    by (intro sv_authenticate) (simp_all add: demo_accepted_def demo_initial_def)
  then show ?thesis by (simp add: demo_states markActive_def registerConn_def Let_def demo_server_fields)
qed

lemma demo_logged_in_reachable: "reach server_init server_step demo_logged_in"
  by (rule reach_step [OF reach_step [OF demo_initial_reachable demo_accept_step] demo_login_step])

lemma demo_relay_step: "server_step demo_logged_in demo_relayed"
proof -
  have id: "u_TrafficID (rg_heap (sv_users (ss_server demo_logged_in)) 0) = 9"
    by (simp add: demo_states registerConn_def Let_def session_started_def demo_server_fields demo_one_state)
  have added: "ss_added demo_logged_in = (\<lambda>_ _. 0)" by (simp add: demo_states)
  have "waitForAuth (ss_conns demo_logged_in 7) = Authenticated 0" "7 \<in> set (ss_live demo_logged_in)"
    by (simp_all add: demo_states waitForAuth_def)
  from sv_relay [OF this(2,1), of 40 True "''a''" 101] show ?thesis
    unfolding demo_relayed_def id added by (simp only: add_0)
qed

lemma demo_relayed_reachable: "reach server_init server_step demo_relayed"
  by (rule reach_step [OF demo_logged_in_reachable demo_relay_step])

lemma demo_update_step: "server_step demo_relayed demo_updated"
proof -
  have none: "ss_revoking demo_relayed = []" by (simp add: demo_states)
  have "UpdateUsers demo_parse string_of_bytes [] (ss_server demo_relayed)
      = ((ss_server demo_relayed)\<lparr>sv_users :=
           fst (SetUsers demo_parse string_of_bytes [] (sv_users (ss_server demo_relayed)))\<rparr>,
         snd (SetUsers demo_parse string_of_bytes [] (sv_users (ss_server demo_relayed))))"
    by (simp add: UpdateUsers_def ValidateClients_def case_prod_beta)
  from sv_update [OF this] show ?thesis unfolding demo_updated_def none by (simp only: append_Nil2)
qed

lemma demo_updated_reachable: "reach server_init server_step demo_updated"
  by (rule reach_step [OF demo_relayed_reachable demo_update_step])

lemma demo_updated_fields:
  "ss_live demo_updated = [7]" "ss_conns demo_updated 7 = \<lparr>cn_state = 1, cn_user = Some 0\<rparr>"
  "rg_users (sv_users (ss_server demo_updated)) = []" "sv_kicked (ss_server demo_updated) = []"
  "ss_added demo_updated True 9 = 40" "ss_collected demo_updated True 9 = 0"
  by (simp_all add: demo_updated_def demo_states registerConn_def Let_def
      demo_server_fields SetUsers_def demo_one_def case_prod_beta)

theorem server_sessions_exact_witness:
  "u_sessions (rg_heap (sv_users (ss_server demo_updated)) 0) = 1"
proof -
  have "{c \<in> set (ss_live demo_updated). cn_user (ss_conns demo_updated c) = Some 0} = {7}"
    by (auto simp: demo_updated_fields)
  then show ?thesis using server_sessions_exact [OF demo_updated_reachable, of 0] by simp
qed

theorem server_revocation_witness: "0 \<in> set (ss_revoking demo_updated)"
  using server_revocation [OF demo_updated_reachable, of 7 0] by (simp add: demo_updated_fields)


text \<open>
  C20: the first outcome of authentication is final. Whatever happens next, a connection that has
  logged in stays the same user's, and one whose time has run out never logs in; only then does
  the waiting handler return, and it returns the user or the timeout.
\<close>

theorem authentication_final:
  assumes step: "server_step s t" and fresh: "cn_state (ss_conns s c) \<noteq> 0"
  shows "ss_conns t c = ss_conns s c"
  using assms
proof (induction rule: server_step.induct)
  case (sv_authenticate d s tls now rawUUID token res s' cn')
  from sv_authenticate(2) show ?case
    by (cases rule: conn_authenticate_cases) (use sv_authenticate(3) in auto)
qed (auto simp: auth_timeout_def conn_cleanup_def Let_def split: if_splits)

theorem authentication_final_witness:
  "ss_conns demo_updated 7 = ss_conns demo_relayed 7"
  by (rule authentication_final [OF demo_update_step]) (simp add: demo_states)

end
