(* ===== verification/Tuic_Manager.thy ===== *)
theory Tuic_Manager
  imports Tuic_Server
begin

text \<open>
  \<open>internal/tuic/manager.go\<close>: the servers of all inbounds, restarted when their configuration
  changes, and the traffic of servers that have stopped, kept until it is collected.

  \<open>Close\<close> returns when the handlers have; the bytes they count meanwhile are counted here
  before \<open>Close\<close>, which reads no counter. Ranges over maps go through the list of the map, in one of the orders Go may choose.
\<close>

record managed =
  mg_server :: Server
  mg_tag :: string
  mg_structuralFP :: string
  mg_usersFP :: string

record Manager =
  mn_servers :: "(int \<times> managed) list"
  mn_lastStartErr :: "(int \<times> string) list"
  mn_pendingTraffic :: "(string \<times> ClientTrafficDelta) list"

record InboundTrafficDelta =
  id_Tag :: string
  id_Up :: int
  id_Down :: int

text \<open>What the manager uses of its surroundings.\<close>

record manager_env =
  me_parse :: "string \<Rightarrow> bytes option"
  me_render :: "bytes \<Rightarrow> string"
  me_load :: "string \<Rightarrow> string \<Rightarrow> unit option"
  me_read_file :: "string \<Rightarrow> bytes option"
  me_sha256_hex :: "bytes \<Rightarrow> string"
  me_listens :: "Instance \<Rightarrow> bool"
  me_quic_listens :: "Instance \<Rightarrow> bool"
  me_error_text :: "Instance \<Rightarrow> server_err \<Rightarrow> string"

definition new_manager :: Manager where
  "new_manager = \<lparr>mn_servers = [], mn_lastStartErr = [], mn_pendingTraffic = []\<rparr>"

definition HasRunning :: "Manager \<Rightarrow> bool" where
  "HasRunning m \<longleftrightarrow> (\<exists>(_, mg) \<in> set (mn_servers m). IsRunning (mg_server mg))"

subsection \<open>Traffic of stopped servers\<close>

definition pending_key :: "ClientTrafficDelta \<Rightarrow> string" where
  "pending_key delta =
     (if d_TrafficID delta = 0 \<and> d_InboundID delta > 0 \<and> d_UUID delta \<noteq> []
      then itoa (d_InboundID delta) @ '':'' @ d_UUID delta
      else if d_TrafficID delta > 0 then ''traffic:'' @ itoa (d_TrafficID delta)
      else d_Email delta)"

definition no_delta :: ClientTrafficDelta where
  "no_delta = \<lparr>d_TrafficID = 0, d_Email = [], d_UUID = [], d_InboundID = 0, d_Up = 0, d_Down = 0\<rparr>"

definition append_delta :: "ClientTrafficDelta \<Rightarrow> (string \<times> ClientTrafficDelta) list \<Rightarrow> (string \<times> ClientTrafficDelta) list" where
  "append_delta delta pending =
     (let key = pending_key delta;
          current = (case map_of pending key of None \<Rightarrow> no_delta | Some d \<Rightarrow> d) in
      AList.update key (delta\<lparr>d_Up := d_Up current + d_Up delta, d_Down := d_Down current + d_Down delta\<rparr>) pending)"

definition appendPendingTrafficLocked :: "ClientTrafficDelta list \<Rightarrow> Manager \<Rightarrow> Manager" where
  "appendPendingTrafficLocked deltas m =
     m\<lparr>mn_pendingTraffic := fold append_delta deltas (mn_pendingTraffic m)\<rparr>"

definition RequeueClientTraffic :: "ClientTrafficDelta list \<Rightarrow> Manager \<Rightarrow> Manager" where
  "RequeueClientTraffic deltas m = appendPendingTrafficLocked deltas m"

definition stopAndDrainLocked :: "managed \<Rightarrow> Manager \<Rightarrow> Manager" where
  "stopAndDrainLocked mg m =
     appendPendingTrafficLocked (snd (CollectClientTraffic (Close (mg_server mg)))) m"

subsection \<open>Starting, updating and removing servers\<close>

definition startLocked :: "manager_env \<Rightarrow> Instance \<Rightarrow> server_err + Server" where
  "startLocked env inst =
     (case NewServer (me_parse env) (me_render env) (me_load env) inst of
        Inl err \<Rightarrow> Inl err
      | Inr server \<Rightarrow>
          (case Start (me_listens env inst) (me_quic_listens env inst) server of
             (_, Some err) \<Rightarrow> Inl err
           | (server, None) \<Rightarrow> Inr server))"

definition removeLocked :: "int \<Rightarrow> Manager \<Rightarrow> Manager" where
  "removeLocked i m =
     (case map_of (mn_servers m) i of
        None \<Rightarrow> m
      | Some existing \<Rightarrow>
          let m = stopAndDrainLocked existing m in
          m\<lparr>mn_servers := AList.delete i (mn_servers m), mn_lastStartErr := AList.delete i (mn_lastStartErr m)\<rparr>)"

definition Remove :: "int \<Rightarrow> Manager \<Rightarrow> Manager" where
  "Remove i m = removeLocked i m"

definition start_new :: "manager_env \<Rightarrow> Instance \<Rightarrow> Manager \<Rightarrow> Manager \<times> server_err option" where
  "start_new env inst m =
     (case startLocked env inst of
        Inl err \<Rightarrow>
          let text = me_error_text env inst err in
          (if map_of (mn_lastStartErr m) (in_Id inst) = Some text then m
           else m\<lparr>mn_lastStartErr := AList.update (in_Id inst) text (mn_lastStartErr m)\<rparr>, Some err)
      | Inr server \<Rightarrow>
          (m\<lparr>mn_lastStartErr := AList.delete (in_Id inst) (mn_lastStartErr m),
             mn_servers := AList.update (in_Id inst)
               \<lparr>mg_server = server, mg_tag = in_Tag inst,
                mg_structuralFP = StructuralFingerprint (me_read_file env) (me_sha256_hex env) inst,
                mg_usersFP = UsersFingerprint inst\<rparr> (mn_servers m)\<rparr>, None))"

definition refresh :: "manager_env \<Rightarrow> Instance \<Rightarrow> managed \<Rightarrow> managed" where
  "refresh env inst existing =
     (let server = UpdateRuntimeSettings (in_Tag inst) (in_CongestionControl inst) (in_LogLevel inst) (mg_server existing) in
      if mg_usersFP existing \<noteq> UsersFingerprint inst then
        let (server, revoked) = UpdateUsers (me_parse env) (me_render env) (in_Clients inst) server in
        existing\<lparr>mg_tag := in_Tag inst, mg_usersFP := UsersFingerprint inst,
                 mg_server := fold closeUserConns revoked server\<rparr>
      else existing\<lparr>mg_tag := in_Tag inst, mg_server := server\<rparr>)"

definition ensureLocked :: "manager_env \<Rightarrow> Instance \<Rightarrow> Manager \<Rightarrow> Manager \<times> server_err option" where
  "ensureLocked env inst m =
     (case ValidateClients (me_parse env) (in_Clients inst) of
        Some err \<Rightarrow> (m, Some (InvalidClients err))
      | None \<Rightarrow>
          if in_Clients inst = [] then (removeLocked (in_Id inst) m, None)
          else (case map_of (mn_servers m) (in_Id inst) of
              None \<Rightarrow> start_new env inst m
            | Some existing \<Rightarrow>
                if IsRunning (mg_server existing)
                   \<and> mg_structuralFP existing = StructuralFingerprint (me_read_file env) (me_sha256_hex env) inst
                then (m\<lparr>mn_servers := AList.update (in_Id inst) (refresh env inst existing) (mn_servers m)\<rparr>, None)
                else
                  let m = stopAndDrainLocked existing m in
                  start_new env inst (m\<lparr>mn_servers := AList.delete (in_Id inst) (mn_servers m)\<rparr>)))"

definition Ensure :: "manager_env \<Rightarrow> Instance \<Rightarrow> Manager \<Rightarrow> Manager \<times> server_err option" where
  "Ensure env inst m = ensureLocked env inst m"

definition Reconcile :: "manager_env \<Rightarrow> Instance list \<Rightarrow> Manager \<Rightarrow> Manager" where
  "Reconcile env desired m =
     (let gone = filter (\<lambda>i. i \<notin> in_Id ` set desired) (map fst (mn_servers m));
          m = fold (removeLocked) gone m in
      fold (\<lambda>inst m. fst (ensureLocked env inst m)) desired m)"

definition StopAll :: "Manager \<Rightarrow> Manager" where
  "StopAll m = (fold (\<lambda>(_, mg). stopAndDrainLocked mg) (mn_servers m) m)\<lparr>mn_servers := []\<rparr>"

subsection \<open>Activity and traffic\<close>

definition GetActiveClients :: "int \<Rightarrow> int \<Rightarrow> Manager \<Rightarrow> string list \<times> string list" where
  "GetActiveClients window now m =
     (let active = filter (\<lambda>mg. IsRunning (mg_server mg)) (map snd (mn_servers m));
          emails = (\<lambda>mg. GetActiveEmails window now (mg_server mg)) in
      (concat (map emails active), map mg_tag (filter (\<lambda>mg. emails mg \<noteq> []) active)))"

definition collect_server :: "int \<times> managed \<Rightarrow> Manager \<times> InboundTrafficDelta list \<times> ClientTrafficDelta list
    \<Rightarrow> Manager \<times> InboundTrafficDelta list \<times> ClientTrafficDelta list" where
  "collect_server = (\<lambda>(i, mg) (m, inbounds, clients).
     if IsRunning (mg_server mg) then
       (case CollectAllTraffic (mg_server mg) of
          (server, up, down, cDeltas) \<Rightarrow>
            (m\<lparr>mn_servers := AList.update i (mg\<lparr>mg_server := server\<rparr>) (mn_servers m)\<rparr>,
             if up > 0 \<or> down > 0 then inbounds @ [\<lparr>id_Tag = mg_tag mg, id_Up = up, id_Down = down\<rparr>] else inbounds,
             clients @ cDeltas))
     else (m, inbounds, clients))"

definition ManagerCollectAllTraffic :: "Manager \<Rightarrow> Manager \<times> InboundTrafficDelta list \<times> ClientTrafficDelta list" where
  "ManagerCollectAllTraffic m =
     fold collect_server (mn_servers m) (m\<lparr>mn_pendingTraffic := []\<rparr>, [], map snd (mn_pendingTraffic m))"

definition ManagerCollectClientTraffic :: "Manager \<Rightarrow> Manager \<times> ClientTrafficDelta list" where
  "ManagerCollectClientTraffic m = (case ManagerCollectAllTraffic m of (m, _, clients) \<Rightarrow> (m, clients))"

definition ManagerAddTestTraffic :: "int \<Rightarrow> string \<Rightarrow> int \<Rightarrow> int \<Rightarrow> int \<Rightarrow> Manager \<Rightarrow> Manager \<times> bool" where
  "ManagerAddTestTraffic i email up down now m =
     (case map_of (mn_servers m) i of
        None \<Rightarrow> (m, False)
      | Some mg \<Rightarrow> (case ServerAddTestTraffic email up down now (mg_server mg) of
          (server, ok) \<Rightarrow> (m\<lparr>mn_servers := AList.update i (mg\<lparr>mg_server := server\<rparr>) (mn_servers m)\<rparr>, ok)))"

subsection \<open>Billing\<close>

text \<open>A delta that names its client: by a billing id, or by inbound and UUID.\<close>

definition identified :: "ClientTrafficDelta \<Rightarrow> bool" where
  "identified d \<longleftrightarrow> d_TrafficID d > 0 \<or> (d_TrafficID d = 0 \<and> d_InboundID d > 0 \<and> d_UUID d \<noteq> [])"

definition billable :: "Server \<Rightarrow> bool" where
  "billable s \<longleftrightarrow> (\<forall>ref. let u = rg_heap (sv_users s) ref in 0 < u_BytesUp u \<or> 0 < u_BytesDown u \<longrightarrow>
     u_TrafficID u > 0 \<or> (u_TrafficID u = 0 \<and> sv_id s > 0 \<and> u_UUIDStr u \<noteq> []))"

definition server_ok :: "Server \<Rightarrow> bool" where
  "server_ok s \<longleftrightarrow> users_inv (sv_users s) \<and> billable s"

definition server_bytes :: "bool \<Rightarrow> int \<Rightarrow> (int \<times> managed) list \<Rightarrow> int" where
  "server_bytes up t ss = sum_list (map (\<lambda>(_, mg). on_account up t (sv_users (mg_server mg))) ss)"

definition outstanding :: "bool \<Rightarrow> int \<Rightarrow> Manager \<Rightarrow> int" where
  "outstanding up t m = billed up t (map snd (mn_pendingTraffic m)) + server_bytes up t (mn_servers m)"

definition pending_ok :: "(string \<times> ClientTrafficDelta) list \<Rightarrow> bool" where
  "pending_ok p \<longleftrightarrow> wf_map p \<and> (\<forall>(k, d) \<in> set p. k = pending_key d \<and> identified d)"

definition servers_ok :: "(int \<times> managed) list \<Rightarrow> bool" where
  "servers_ok ss \<longleftrightarrow> wf_map ss \<and> (\<forall>(_, mg) \<in> set ss. server_ok (mg_server mg))"

definition manager_ok :: "Manager \<Rightarrow> bool" where
  "manager_ok m \<longleftrightarrow> pending_ok (mn_pendingTraffic m) \<and> servers_ok (mn_servers m)"

lemma pending_key_id:
  assumes "identified d" "identified e" "pending_key d = pending_key e"
  shows "d_TrafficID d = d_TrafficID e"
proof -
  have *: "itoa i @ xs \<noteq> ''traffic:'' @ ys" for i xs ys
  proof
    assume "itoa i @ xs = ''traffic:'' @ ys"
    then have "hd (itoa i @ xs) = CHR ''t''" by simp
    moreover have "itoa i \<noteq> []" by (simp add: itoa_def)
    ultimately have "CHR ''t'' \<in> set (itoa i)" by (metis hd_append2 hd_in_set)
    then show False using itoa_chars [of "CHR ''t''" i] by (auto simp: is_digit_def)
  qed
  show ?thesis
    using assms *[of "d_InboundID d" "CHR '':'' # d_UUID d" "itoa (d_TrafficID e)"]
      *[of "d_InboundID e" "CHR '':'' # d_UUID e" "itoa (d_TrafficID d)"]
    by (auto simp: identified_def pending_key_def)
qed

lemma billed_Cons: "billed up t (d # ds) = (if d_TrafficID d = t then d_counter up d else 0) + billed up t ds"
  by (simp add: billed_def)

lemma billed_Nil [simp]: "billed up t [] = 0"
  by (simp add: billed_def)

text \<open>A map sum under update.\<close>

lemma sum_map_update:
  fixes f :: "'k \<times> 'v \<Rightarrow> int"
  assumes "wf_map m"
  shows "sum_list (map f (AList.update k v m))
    = sum_list (map f m) + f (k, v) - (case map_of m k of None \<Rightarrow> 0 | Some w \<Rightarrow> f (k, w))"
  using assms by (induction m) (auto simp: wf_map_def dest!: map_of_SomeD split: option.split)

lemma sum_map_delete:
  fixes f :: "'k \<times> 'v \<Rightarrow> int"
  assumes "wf_map m"
  shows "sum_list (map f (AList.delete k m)) = sum_list (map f m) - (case map_of m k of None \<Rightarrow> 0 | Some w \<Rightarrow> f (k, w))"
proof -
  have "AList.delete k m = m" if "k \<notin> fst ` set m" for m :: "('k \<times> 'v) list"
    using that by (induction m) auto
  then show ?thesis using assms
    by (induction m) (auto simp: wf_map_def split: option.split dest: map_of_SomeD)
qed

lemma append_delta_ok:
  assumes ok: "pending_ok p" and d: "identified d"
  shows "pending_ok (append_delta d p)"
    "billed up t (map snd (append_delta d p)) = billed up t (map snd p) + (if d_TrafficID d = t then d_counter up d else 0)"
proof -
  let ?k = "pending_key d"
  define cur where "cur = (case map_of p ?k of None \<Rightarrow> no_delta | Some e \<Rightarrow> e)"
  define new where "new = d\<lparr>d_Up := d_Up cur + d_Up d, d_Down := d_Down cur + d_Down d\<rparr>"
  have upd: "append_delta d p = AList.update ?k new p"
    by (simp add: append_delta_def Let_def new_def cur_def)
  have "pending_key new = ?k" "identified new" using d by (simp_all add: new_def pending_key_def identified_def)
  with ok show "pending_ok (append_delta d p)"
    by (auto simp: upd pending_ok_def set_update_wf)
  have wf: "wf_map p" using ok by (simp add: pending_ok_def)
  have same: "d_TrafficID e = d_TrafficID d" if "map_of p ?k = Some e" for e
  proof -
    have "(?k, e) \<in> set p" using that by (rule map_of_SomeD)
    then have "?k = pending_key e" "identified e" using ok by (auto simp: pending_ok_def)
    then show ?thesis using pending_key_id d by metis
  qed
  let ?f = "\<lambda>kd :: string \<times> ClientTrafficDelta. if d_TrafficID (snd kd) = t then d_counter up (snd kd) else 0"
  have b: "billed up t (map snd q) = sum_list (map ?f q)" for q by (simp add: billed_def o_def)
  show "billed up t (map snd (append_delta d p)) = billed up t (map snd p) + (if d_TrafficID d = t then d_counter up d else 0)"
    unfolding b upd sum_map_update [OF wf]
  proof (cases "map_of p ?k")
    case None
    then have "new = d" by (simp add: new_def cur_def no_delta_def)
    with None show "sum_list (map ?f p) + ?f (?k, new) - (case map_of p ?k of None \<Rightarrow> 0 | Some w \<Rightarrow> ?f (?k, w))
        = sum_list (map ?f p) + (if d_TrafficID d = t then d_counter up d else 0)" by simp
  next
    case (Some e)
    have "d_TrafficID e = d_TrafficID d" by (rule same [OF Some])
    moreover have "d_TrafficID new = d_TrafficID d" "d_counter up new = d_counter up e + d_counter up d"
      using Some by (simp_all add: new_def cur_def d_counter_def)
    ultimately show "sum_list (map ?f p) + ?f (?k, new) - (case map_of p ?k of None \<Rightarrow> 0 | Some w \<Rightarrow> ?f (?k, w))
        = sum_list (map ?f p) + (if d_TrafficID d = t then d_counter up d else 0)" using Some by simp
  qed
qed

lemma append_pending_ok:
  assumes "pending_ok p" "\<forall>d \<in> set ds. identified d"
  shows "pending_ok (fold append_delta ds p) \<and> billed up t (map snd (fold append_delta ds p)) = billed up t (map snd p) + billed up t ds"
  using assms
proof (induction ds arbitrary: p)
  case (Cons d ds)
  then show ?case using append_delta_ok [OF Cons.prems(1)] by (simp add: billed_Cons)
qed simp

lemma collect_identified:
  assumes ok: "server_ok s" and c: "CollectClientTraffic s = (s', ds)"
  shows "\<forall>d \<in> set ds. identified d" "billed up t ds = on_account up t (sv_users s)"
    "server_ok s'" "on_account up t (sv_users s') = 0"
proof -
  have inv: "users_inv (sv_users s)" using ok by (simp add: server_ok_def)
  obtain r ds0 where r: "CollectTrafficDeltas (sv_users s) = (r, ds0)" by fastforce
  then have s': "s' = s\<lparr>sv_users := r\<rparr>" "ds = map (\<lambda>d. d\<lparr>d_InboundID := sv_id s\<rparr>) ds0"
    using c by (auto simp: CollectClientTraffic_def)
  have ds0: "ds0 = concat (map (\<lambda>x. deltas_of (rg_heap (sv_users s) x)) (live (sv_users s)))"
    using r CollectTrafficDeltas_eq [OF inv] by simp
  show "\<forall>d \<in> set ds. identified d"
    using ok unfolding s' ds0
    by (auto simp: deltas_of_def identified_def server_ok_def billable_def Let_def split: if_splits)
  show "billed up t ds = on_account up t (sv_users s)"
    using Collect_account(2) [OF inv] r by (simp add: s' billed_def d_counter_def o_def cong: if_cong)
  show "on_account up t (sv_users s') = 0" using Collect_account(1) [OF inv, of up t] r by (simp add: s')
  have "rg_heap r x = drain_refs (set (live (sv_users s))) (rg_heap (sv_users s)) x" for x
    using arg_cong [OF r, of "\<lambda>x. rg_heap (fst x)"] by (simp add: CollectTrafficDeltas_eq [OF inv] del: set_append)
  moreover have "users_inv r" using CollectTrafficDeltas_inv [OF inv] r by simp
  ultimately show "server_ok s'"
    using ok by (simp add: server_ok_def s' billable_def Let_def drain_refs_def drained_def)
qed

subsection \<open>The operations lose no traffic\<close>

lemma server_bytes_update:
  "wf_map ss \<Longrightarrow> server_bytes up t (AList.update i mg ss)
    = server_bytes up t ss + on_account up t (sv_users (mg_server mg))
      - (case map_of ss i of None \<Rightarrow> 0 | Some old \<Rightarrow> on_account up t (sv_users (mg_server old)))"
  by (simp add: server_bytes_def sum_map_update split: option.split)

lemma server_bytes_delete:
  "wf_map ss \<Longrightarrow> server_bytes up t (AList.delete i ss) = server_bytes up t ss
      - (case map_of ss i of None \<Rightarrow> 0 | Some old \<Rightarrow> on_account up t (sv_users (mg_server old)))"
  by (simp add: server_bytes_def sum_map_delete split: option.split)

lemma servers_ok_lookup: "servers_ok ss \<Longrightarrow> map_of ss i = Some mg \<Longrightarrow> server_ok (mg_server mg)"
  by (auto simp: servers_ok_def dest!: map_of_SomeD)

lemma servers_ok_update: "servers_ok ss \<Longrightarrow> server_ok (mg_server mg) \<Longrightarrow> servers_ok (AList.update i mg ss)"
  by (auto simp: servers_ok_def set_update_wf)

lemma servers_ok_delete: "servers_ok ss \<Longrightarrow> servers_ok (AList.delete i ss)"
  by (auto simp: servers_ok_def set_delete)

lemma Close_users [simp]: "sv_users (Close s) = sv_users s" "sv_id (Close s) = sv_id s"
  by (simp_all add: Close_def closeAllConns_def)

lemma stop_drain:
  assumes "pending_ok (mn_pendingTraffic m)" "server_ok (mg_server mg)"
  shows "pending_ok (mn_pendingTraffic (stopAndDrainLocked mg m))"
    "billed up t (map snd (mn_pendingTraffic (stopAndDrainLocked mg m)))
       = billed up t (map snd (mn_pendingTraffic m)) + on_account up t (sv_users (mg_server mg))"
    "mn_servers (stopAndDrainLocked mg m) = mn_servers m"
proof -
  obtain s' ds where c: "CollectClientTraffic (Close (mg_server mg)) = (s', ds)" by fastforce
  have "server_ok (Close (mg_server mg))" using assms(2) by (simp add: server_ok_def billable_def)
  note ds = collect_identified [OF this c]
  show "pending_ok (mn_pendingTraffic (stopAndDrainLocked mg m))"
    "billed up t (map snd (mn_pendingTraffic (stopAndDrainLocked mg m)))
       = billed up t (map snd (mn_pendingTraffic m)) + on_account up t (sv_users (mg_server mg))"
    using append_pending_ok [OF assms(1) ds(1)] ds(2)
    by (simp_all add: stopAndDrainLocked_def appendPendingTrafficLocked_def c)
qed (simp add: stopAndDrainLocked_def appendPendingTrafficLocked_def)

definition keeps :: "(Manager \<Rightarrow> Manager) \<Rightarrow> bool" where
  "keeps f \<longleftrightarrow> (\<forall>m. manager_ok m \<longrightarrow> manager_ok (f m) \<and> (\<forall>up t. outstanding up t (f m) = outstanding up t m))"

lemma keeps_fold: "(\<And>x. keeps (f x)) \<Longrightarrow> keeps (fold f xs)"
  by (induction xs) (simp_all add: keeps_def)

lemma keeps_comp: "keeps f \<Longrightarrow> keeps g \<Longrightarrow> keeps (\<lambda>m. g (f m))"
  by (simp add: keeps_def)

lemma keeps_remove: "keeps (removeLocked i)"
  unfolding keeps_def
proof (intro allI impI)
  fix m assume ok: "manager_ok m"
  show "manager_ok (removeLocked i m) \<and> (\<forall>up t. outstanding up t (removeLocked i m) = outstanding up t m)"
  proof (cases "map_of (mn_servers m) i")
    case None
    then show ?thesis using ok by (simp add: removeLocked_def)
  next
    case (Some mg)
    have p: "pending_ok (mn_pendingTraffic m)" and s: "servers_ok (mn_servers m)" using ok by (simp_all add: manager_ok_def)
    note drained = stop_drain [OF p servers_ok_lookup [OF s Some]]
    have "wf_map (mn_servers m)" using s by (simp add: servers_ok_def)
    then show ?thesis
      using s drained(1,2)
      by (simp add: manager_ok_def outstanding_def removeLocked_def Some Let_def drained(3) servers_ok_delete server_bytes_delete)
  qed
qed

text \<open>A server that is started has counted nothing.\<close>

lemma started_ok:
  assumes "startLocked env inst = Inr server"
  shows "server_ok server" "on_account up t (sv_users server) = 0" "IsRunning server"
proof -
  obtain sv where new: "NewServer (me_parse env) (me_render env) (me_load env) inst = Inr sv"
    and server: "server = sv\<lparr>sv_running := True\<rparr>"
    using assms by (auto simp: startLocked_def Start_def split: sum.splits if_splits)
  note sv = NewServer_Inr [OF new]
  have inv: "users_inv (sv_users sv)" using SetUsers_inv [OF inv_NewUserRegistry sv(1)] by (simp add: sv(2))
  obtain ids where ids: "map (\<lambda>c. me_parse env (cs_UUID c)) (in_Clients inst) = map Some ids" "distinct ids"
    using sv(1) by (auto simp: ValidateClients_None)
  obtain users revoked where set: "SetUsers (me_parse env) (me_render env) (in_Clients inst) NewUserRegistry = (users, revoked)"
    by fastforce
  have idle: "idle (rg_heap users u)" for u
    using SetUsers_parts(1) [OF inv_NewUserRegistry ids set] by (simp add: sl_frame_def NewUserRegistry_def)
  then show "server_ok server" using inv by (simp add: server_ok_def server billable_def Let_def sv(2) set idle_def)
  show "on_account up t (sv_users server) = 0"
    using idle by (simp add: server sv(2) set on_account_def idle_account)
  have "sv_closed sv = False" using new sv(1,13) by (auto simp: NewServer_def updateRuntimeSettings_def Let_def split: if_splits option.splits)
  then show "IsRunning server" by (simp add: server IsRunning_def)
qed

lemma closeUserConns_users [simp]:
  "sv_users (fold closeUserConns us s) = sv_users s" "sv_id (fold closeUserConns us s) = sv_id s"
  by (induction us arbitrary: s) (simp_all add: closeUserConns_def Let_def)

lemma refresh_ok:
  assumes ok: "server_ok (mg_server mg)"
  shows "server_ok (mg_server (refresh env inst mg))"
    "on_account up t (sv_users (mg_server (refresh env inst mg))) = on_account up t (sv_users (mg_server mg))"
proof -
  let ?s = "UpdateRuntimeSettings (in_Tag inst) (in_CongestionControl inst) (in_LogLevel inst) (mg_server mg)"
  have s: "sv_users ?s = sv_users (mg_server mg)" "sv_id ?s = sv_id (mg_server mg)"
    by (simp_all add: UpdateRuntimeSettings_def updateRuntimeSettings_def)
  have inv: "users_inv (sv_users ?s)" using ok by (simp add: s server_ok_def)
  obtain s' revoked where u: "UpdateUsers (me_parse env) (me_render env) (in_Clients inst) ?s = (s', revoked)" by fastforce
  from UpdateUsers_cases [OF u] have "server_ok s' \<and> on_account up t (sv_users s') = on_account up t (sv_users ?s)"
  proof (elim disjE conjE)
    assume valid: "ValidateClients (me_parse env) (in_Clients inst) = None"
      and s': "s' = ?s\<lparr>sv_users := fst (SetUsers (me_parse env) (me_render env) (in_Clients inst) (sv_users ?s))\<rparr>"
    obtain ids where ids: "map (\<lambda>c. me_parse env (cs_UUID c)) (in_Clients inst) = map Some ids" "distinct ids"
      using valid by (auto simp: ValidateClients_None)
    obtain r' rv where set: "SetUsers (me_parse env) (me_render env) (in_Clients inst) (sv_users ?s) = (r', rv)" by fastforce
    have frame: "sl_frame (sv_users ?s) (r'\<lparr>rg_users := rg_users (sv_users ?s)\<rparr>)"
      by (rule SetUsers_parts(1) [OF inv ids set])
    have "rg_heap r' ref = rg_heap (sv_users ?s) ref \<or> idle (rg_heap r' ref)" for ref
      using frame by (cases "ref < rg_next (sv_users ?s)") (simp_all add: sl_frame_def)
    moreover have "sv_users s' = r'" "sv_id s' = sv_id (mg_server mg)" using set by (simp_all add: s' s)
    moreover have "billable (mg_server mg)" using ok by (simp add: server_ok_def)
    ultimately have "billable s'"
      unfolding billable_def Let_def s(1) idle_def by (metis less_irrefl)
    then show ?thesis
      using SetUsers_inv [OF inv valid] SetUsers_account [OF inv valid] by (simp add: server_ok_def s')
  qed (use ok in \<open>simp_all add: server_ok_def billable_def s\<close>)
  then show "server_ok (mg_server (refresh env inst mg))"
    "on_account up t (sv_users (mg_server (refresh env inst mg))) = on_account up t (sv_users (mg_server mg))"
    using ok by (auto simp: refresh_def Let_def u s server_ok_def billable_def)
qed

lemma keeps_start_new_absent:
  assumes ok: "manager_ok m" and absent: "map_of (mn_servers m) (in_Id inst) = None"
  shows "manager_ok (fst (start_new env inst m)) \<and> outstanding up t (fst (start_new env inst m)) = outstanding up t m"
proof (cases "startLocked env inst")
  case (Inl err)
  then show ?thesis using ok by (simp add: start_new_def Let_def manager_ok_def outstanding_def)
next
  case (Inr server)
  note st = started_ok [OF Inr]
  have "wf_map (mn_servers m)" using ok by (simp add: manager_ok_def servers_ok_def)
  then show ?thesis using ok st absent
    by (simp add: start_new_def Inr manager_ok_def outstanding_def servers_ok_update server_bytes_update)
qed

lemma keeps_ensure: "keeps (\<lambda>m. fst (ensureLocked env inst m))"
  unfolding keeps_def
proof (intro allI impI)
  fix m assume ok: "manager_ok m"
  let ?goal = "\<lambda>m'. manager_ok m' \<and> (\<forall>up t. outstanding up t m' = outstanding up t m)"
  have p: "pending_ok (mn_pendingTraffic m)" and s: "servers_ok (mn_servers m)" using ok by (simp_all add: manager_ok_def)
  show "?goal (fst (ensureLocked env inst m))"
  proof (cases "ValidateClients (me_parse env) (in_Clients inst) = None \<and> in_Clients inst \<noteq> []")
    case False
    then show ?thesis using ok keeps_remove by (auto simp: ensureLocked_def keeps_def split: option.splits)
  next
    case valid: True
    show ?thesis
    proof (cases "map_of (mn_servers m) (in_Id inst)")
      case None
      then show ?thesis using valid keeps_start_new_absent [OF ok None] by (simp add: ensureLocked_def)
    next
      case (Some mg)
      note mg = servers_ok_lookup [OF s Some]
      show ?thesis
      proof (cases "IsRunning (mg_server mg)
          \<and> mg_structuralFP mg = StructuralFingerprint (me_read_file env) (me_sha256_hex env) inst")
        case True
        have "wf_map (mn_servers m)" using s by (simp add: servers_ok_def)
        then show ?thesis using True valid Some p s refresh_ok [OF mg]
          by (simp add: ensureLocked_def manager_ok_def servers_ok_update outstanding_def server_bytes_update)
      next
        case False
        let ?m = "(stopAndDrainLocked mg m)\<lparr>mn_servers := AList.delete (in_Id inst) (mn_servers (stopAndDrainLocked mg m))\<rparr>"
        have "?goal (removeLocked (in_Id inst) m)" using keeps_remove ok unfolding keeps_def by blast
        moreover have "mn_pendingTraffic (removeLocked (in_Id inst) m) = mn_pendingTraffic ?m"
          "mn_servers (removeLocked (in_Id inst) m) = mn_servers ?m"
          using Some by (simp_all add: removeLocked_def Let_def)
        ultimately have "?goal ?m" by (simp add: manager_ok_def outstanding_def)
        then have "?goal (fst (start_new env inst ?m))"
          using keeps_start_new_absent [of ?m inst] by simp
        moreover have "ensureLocked env inst m = start_new env inst ?m"
          using valid Some False by (auto simp: ensureLocked_def Let_def)
        ultimately show ?thesis by simp
      qed
    qed
  qed
qed

lemma keeps_Reconcile: "keeps (Reconcile env desired)"
  unfolding Reconcile_def Let_def keeps_def
  using keeps_fold [of removeLocked, OF keeps_remove] keeps_fold [of "\<lambda>inst m. fst (ensureLocked env inst m)", OF keeps_ensure]
  by (simp add: keeps_def)

lemma keeps_StopAll: "keeps StopAll"
  unfolding keeps_def
proof (intro allI impI)
  fix m assume ok: "manager_ok m"
  let ?drain = "fold (\<lambda>(_, mg). stopAndDrainLocked mg)"
  have "pending_ok (mn_pendingTraffic (?drain ss n)) \<and> mn_servers (?drain ss n) = mn_servers n
      \<and> (\<forall>up t. billed up t (map snd (mn_pendingTraffic (?drain ss n)))
           = billed up t (map snd (mn_pendingTraffic n)) + server_bytes up t ss)"
    if "pending_ok (mn_pendingTraffic n)" "\<forall>(_, mg) \<in> set ss. server_ok (mg_server mg)" for ss n
    using that
  proof (induction ss arbitrary: n)
    case (Cons e ss)
    obtain i mg where e: "e = (i, mg)" by fastforce
    have ok: "server_ok (mg_server mg)" using Cons.prems(2) by (simp add: e)
    note d = stop_drain [OF Cons.prems(1) ok]
    show ?case using Cons.IH [OF d(1)] Cons.prems(2) d(2,3) by (simp add: e server_bytes_def)
  qed (simp add: server_bytes_def)
  then have "pending_ok (mn_pendingTraffic (?drain (mn_servers m) m)) \<and> (\<forall>up t. billed up t (map snd (mn_pendingTraffic (?drain (mn_servers m) m)))
           = outstanding up t m)"
    using ok by (simp add: manager_ok_def servers_ok_def outstanding_def)
  then show "manager_ok (StopAll m) \<and> (\<forall>up t. outstanding up t (StopAll m) = outstanding up t m)"
    by (simp add: StopAll_def manager_ok_def servers_ok_def outstanding_def server_bytes_def)
qed

lemma outstanding_update:
  assumes ok: "manager_ok m" and i: "map_of (mn_servers m) i = Some mg" and s: "server_ok s"
  shows "manager_ok (m\<lparr>mn_servers := AList.update i (mg\<lparr>mg_server := s\<rparr>) (mn_servers m)\<rparr>)"
    "outstanding up t (m\<lparr>mn_servers := AList.update i (mg\<lparr>mg_server := s\<rparr>) (mn_servers m)\<rparr>)
       = outstanding up t m + on_account up t (sv_users s) - on_account up t (sv_users (mg_server mg))"
proof -
  have "wf_map (mn_servers m)" using ok by (simp add: manager_ok_def servers_ok_def)
  then show "manager_ok (m\<lparr>mn_servers := AList.update i (mg\<lparr>mg_server := s\<rparr>) (mn_servers m)\<rparr>)"
    "outstanding up t (m\<lparr>mn_servers := AList.update i (mg\<lparr>mg_server := s\<rparr>) (mn_servers m)\<rparr>)
       = outstanding up t m + on_account up t (sv_users s) - on_account up t (sv_users (mg_server mg))"
    using ok s i by (simp_all add: manager_ok_def servers_ok_update outstanding_def server_bytes_update)
qed

lemma CollectAllTraffic_client: "snd (snd (snd (CollectAllTraffic s))) = snd (CollectClientTraffic s)"
  "fst (CollectAllTraffic s) = fst (CollectClientTraffic s)"
  by (simp_all add: CollectAllTraffic_def case_prod_beta)

lemma collect_server_step:
  assumes ok: "manager_ok m" and i: "map_of (mn_servers m) i = Some mg"
    and step: "collect_server (i, mg) (m, ib, cl) = (m', ib', cl')"
  shows "manager_ok m' \<and> billed up t cl' + outstanding up t m' = billed up t cl + outstanding up t m
    \<and> mn_pendingTraffic m' = mn_pendingTraffic m \<and> (\<forall>j. j \<noteq> i \<longrightarrow> map_of (mn_servers m') j = map_of (mn_servers m) j)
    \<and> (\<forall>d \<in> set cl'. d \<in> set cl \<or> identified d)"
proof (cases "IsRunning (mg_server mg)")
  case False
  then show ?thesis using step ok by (simp add: collect_server_def)
next
  case True
  obtain s ds where c: "CollectClientTraffic (mg_server mg) = (s, ds)" by fastforce
  have "server_ok (mg_server mg)" using ok i servers_ok_lookup unfolding manager_ok_def by blast
  note ds = collect_identified [OF this c]
  have all: "CollectAllTraffic (mg_server mg) = (s, sum_list (map d_Up ds), sum_list (map d_Down ds), ds)"
    using c by (simp add: CollectAllTraffic_def)
  have m': "m' = m\<lparr>mn_servers := AList.update i (mg\<lparr>mg_server := s\<rparr>) (mn_servers m)\<rparr>" and "cl' = cl @ ds"
    using step True all by (simp_all add: collect_server_def split: if_splits)
  then show ?thesis
    using outstanding_update [OF ok i ds(3)] ds(1) ds(2,4) [of up t] unfolding m' by (auto simp: billed_append)
qed

lemma collect_loop:
  assumes "manager_ok m" "distinct (map fst ss)" "\<forall>(i, mg) \<in> set ss. map_of (mn_servers m) i = Some mg"
    and "fold collect_server ss (m, ib, cl) = (m', ib', cl')"
  shows "manager_ok m' \<and> billed up t cl' + outstanding up t m' = billed up t cl + outstanding up t m
    \<and> mn_pendingTraffic m' = mn_pendingTraffic m \<and> (\<forall>d \<in> set cl'. d \<in> set cl \<or> identified d)"
  using assms
proof (induction ss arbitrary: m ib cl)
  case (Cons e ss)
  obtain i mg where e: "e = (i, mg)" by fastforce
  obtain m1 ib1 cl1 where step: "collect_server (i, mg) (m, ib, cl) = (m1, ib1, cl1)" by (metis prod_cases3)
  have i: "map_of (mn_servers m) i = Some mg" using Cons.prems(3) by (simp add: e)
  note s = collect_server_step [OF Cons.prems(1) i step, of up t]
  have "\<forall>(j, mg) \<in> set ss. map_of (mn_servers m1) j = Some mg"
    using Cons.prems(2,3) s by (force simp: e)
  moreover have "fold collect_server ss (m1, ib1, cl1) = (m', ib', cl')" using Cons.prems(4) by (simp add: e step)
  moreover have "distinct (map fst ss)" "manager_ok m1" using Cons.prems(2) s by simp_all
  ultimately have "manager_ok m' \<and> billed up t cl' + outstanding up t m' = billed up t cl1 + outstanding up t m1
    \<and> mn_pendingTraffic m' = mn_pendingTraffic m1 \<and> (\<forall>d \<in> set cl'. d \<in> set cl1 \<or> identified d)"
    by (intro Cons.IH)
  then show ?case using s by auto
qed simp

lemma collect_all:
  assumes ok: "manager_ok m" and c: "ManagerCollectAllTraffic m = (m', ib, cl)"
  shows "manager_ok m'" "billed up t cl + outstanding up t m' = outstanding up t m"
    "mn_pendingTraffic m' = []" "\<forall>d \<in> set cl. identified d"
proof -
  let ?m = "m\<lparr>mn_pendingTraffic := []\<rparr>"
  have wf: "wf_map (mn_servers m)" and p: "pending_ok (mn_pendingTraffic m)"
    using ok by (simp_all add: manager_ok_def servers_ok_def)
  have "manager_ok ?m" using ok by (simp add: manager_ok_def pending_ok_def)
  moreover have "distinct (map fst (mn_servers m))" using wf by (simp add: wf_map_def)
  moreover have "\<forall>(i, mg) \<in> set (mn_servers m). map_of (mn_servers ?m) i = Some mg"
    using map_of_wf [OF wf] by auto
  moreover have "fold collect_server (mn_servers m) (?m, [], map snd (mn_pendingTraffic m)) = (m', ib, cl)"
    using c by (simp add: ManagerCollectAllTraffic_def)
  ultimately have "manager_ok m' \<and> billed up t cl + outstanding up t m'
      = billed up t (map snd (mn_pendingTraffic m)) + outstanding up t ?m
    \<and> mn_pendingTraffic m' = mn_pendingTraffic ?m \<and> (\<forall>d \<in> set cl. d \<in> set (map snd (mn_pendingTraffic m)) \<or> identified d)" for up t
    by (rule collect_loop)
  then have all: "manager_ok m' \<and> billed up t cl + outstanding up t m'
      = billed up t (map snd (mn_pendingTraffic m)) + outstanding up t ?m
    \<and> mn_pendingTraffic m' = [] \<and> (\<forall>d \<in> set cl. d \<in> set (map snd (mn_pendingTraffic m)) \<or> identified d)" for up t
    by simp
  show "manager_ok m'" "mn_pendingTraffic m' = []" using all by blast+
  show "billed up t cl + outstanding up t m' = outstanding up t m"
    using all [of up t] by (auto simp: outstanding_def)
  show "\<forall>d \<in> set cl. identified d" using all p unfolding pending_ok_def by force
qed

subsection \<open>The manager as a system of steps\<close>

text \<open>
  \<open>ns_added\<close> counts the bytes relayed by the servers, \<open>ns_reported\<close> those the manager has handed
  out. Between two operations of the manager its servers run: \<open>mn_serve\<close> takes one step of the
  server of an inbound, other than a collection, which is the manager's.
\<close>

record managerSystem =
  ns_mgr :: Manager
  ns_added :: "bool \<Rightarrow> int \<Rightarrow> int"
  ns_reported :: "bool \<Rightarrow> int \<Rightarrow> int"

inductive manager_step :: "managerSystem \<Rightarrow> managerSystem \<Rightarrow> bool" where
  mn_ensure: "manager_step s (s\<lparr>ns_mgr := fst (Ensure env inst (ns_mgr s))\<rparr>)"
| mn_remove: "manager_step s (s\<lparr>ns_mgr := Remove i (ns_mgr s)\<rparr>)"
| mn_reconcile: "manager_step s (s\<lparr>ns_mgr := Reconcile env desired (ns_mgr s)\<rparr>)"
| mn_stop_all: "manager_step s (s\<lparr>ns_mgr := StopAll (ns_mgr s)\<rparr>)"
| mn_collect: "ManagerCollectAllTraffic (ns_mgr s) = (m, ib, cl) \<Longrightarrow>
    manager_step s (s\<lparr>ns_mgr := m, ns_reported := \<lambda>up t. ns_reported s up t + billed up t cl\<rparr>)"
| mn_requeue: "\<forall>d \<in> set ds. identified d \<Longrightarrow>
    manager_step s (s\<lparr>ns_mgr := RequeueClientTraffic ds (ns_mgr s),
      ns_reported := \<lambda>up t. ns_reported s up t - billed up t ds\<rparr>)"
| mn_serve: "map_of (mn_servers (ns_mgr s)) i = Some mg \<Longrightarrow> reach server_init server_step a \<Longrightarrow> ss_server a = mg_server mg \<Longrightarrow>
    server_step a b \<Longrightarrow> ss_collected b = ss_collected a \<Longrightarrow> billable (ss_server b) \<Longrightarrow>
    manager_step s (s\<lparr>ns_mgr := (ns_mgr s)\<lparr>mn_servers :=
        AList.update i (mg\<lparr>mg_server := ss_server b\<rparr>) (mn_servers (ns_mgr s))\<rparr>,
      ns_added := \<lambda>up t. ns_added s up t + (ss_added b up t - ss_added a up t)\<rparr>)"

definition manager_start :: "managerSystem \<Rightarrow> bool" where
  "manager_start s \<longleftrightarrow> s = \<lparr>ns_mgr = new_manager, ns_added = \<lambda>_ _. 0, ns_reported = \<lambda>_ _. 0\<rparr>"

definition manager_inv :: "managerSystem \<Rightarrow> bool" where
  "manager_inv s \<longleftrightarrow> manager_ok (ns_mgr s)
     \<and> (\<forall>up t. ns_added s up t = ns_reported s up t + outstanding up t (ns_mgr s))"

lemma server_account:
  assumes "reach server_init server_step a"
  shows "users_inv (sv_users (ss_server a))"
    "ss_added a up t = ss_collected a up t + on_account up t (sv_users (ss_server a))"
  using reachable_conserved [OF reach_traffic [OF server.reach_sim [OF assms]]]
  by (simp_all add: conserved_def traffic_of_def)

lemma keeps_inv: "manager_inv s \<Longrightarrow> keeps f \<Longrightarrow> manager_inv (s\<lparr>ns_mgr := f (ns_mgr s)\<rparr>)"
  by (simp add: manager_inv_def keeps_def)

lemma manager_step_inv: "manager_step s t \<Longrightarrow> manager_inv s \<Longrightarrow> manager_inv t"
proof (induction rule: manager_step.induct)
  case (mn_ensure s env inst)
  then show ?case using keeps_inv [OF _ keeps_ensure] by (simp add: Ensure_def)
next
  case (mn_remove s i)
  then show ?case using keeps_inv [OF _ keeps_remove] by (simp add: Remove_def)
next
  case (mn_reconcile s env desired)
  then show ?case using keeps_inv [OF _ keeps_Reconcile] by simp
next
  case (mn_stop_all s)
  then show ?case using keeps_inv [OF _ keeps_StopAll] by simp
next
  case (mn_collect s m ib cl)
  then have ok: "manager_ok (ns_mgr s)" by (simp add: manager_inv_def)
  have eq: "outstanding up t m = outstanding up t (ns_mgr s) - billed up t cl" for up t
    using collect_all(2) [OF ok mn_collect(1), of up t] by simp
  show ?case using mn_collect(2) collect_all(1) [OF ok mn_collect(1)] by (simp add: manager_inv_def eq)
next
  case (mn_requeue ds s)
  then have "pending_ok (mn_pendingTraffic (ns_mgr s))" by (simp add: manager_inv_def manager_ok_def)
  from append_pending_ok [OF this mn_requeue(1)] mn_requeue(2) show ?case
    by (simp add: manager_inv_def manager_ok_def RequeueClientTraffic_def appendPendingTrafficLocked_def outstanding_def)
next
  case (mn_serve s i mg a b)
  then have ok: "manager_ok (ns_mgr s)" by (simp add: manager_inv_def)
  have rb: "reach server_init server_step b" using mn_serve(2,4) by (rule reach_step)
  then have sb: "server_ok (ss_server b)" using server_account(1) mn_serve(6) by (simp add: server_ok_def)
  have "ss_added b up t - ss_added a up t
      = on_account up t (sv_users (ss_server b)) - on_account up t (sv_users (mg_server mg))" for up t
    using server_account(2) [OF rb, of up t] server_account(2) [OF mn_serve(2), of up t] mn_serve(3,5) by simp
  with outstanding_update [OF ok mn_serve(1) sb] mn_serve(7) show ?case by (simp add: manager_inv_def)
qed

interpretation manager: safe_system manager_start manager_step manager_inv
proof
  show "manager_inv s" if "manager_start s" for s
    using that by (simp add: manager_start_def manager_inv_def manager_ok_def pending_ok_def servers_ok_def
        outstanding_def server_bytes_def new_manager_def)
qed (rule manager_step_inv)


subsection \<open>Reconciling with the configuration\<close>

lemma stop_servers [simp]: "mn_servers (stopAndDrainLocked mg m) = mn_servers m"
  by (simp add: stopAndDrainLocked_def appendPendingTrafficLocked_def)

lemma removeLocked_servers: "map_of (mn_servers (removeLocked i m)) = (map_of (mn_servers m))(i := None)"
  by (auto simp: removeLocked_def Let_def map_of_delete split: option.split)

lemma remove_all_servers:
  "map_of (mn_servers (fold removeLocked gone m)) j = (if j \<in> set gone then None else map_of (mn_servers m) j)"
  by (induction gone arbitrary: m) (auto simp: removeLocked_servers)

lemma start_new_servers:
  "map_of (mn_servers (fst (start_new env inst m))) = (case startLocked env inst of
     Inl _ \<Rightarrow> map_of (mn_servers m)
   | Inr server \<Rightarrow> (map_of (mn_servers m))(in_Id inst \<mapsto> \<lparr>mg_server = server, mg_tag = in_Tag inst,
       mg_structuralFP = StructuralFingerprint (me_read_file env) (me_sha256_hex env) inst,
       mg_usersFP = UsersFingerprint inst\<rparr>))"
  by (simp add: start_new_def Let_def map_of_update split: sum.split)

lemma ensure_other:
  assumes "j \<noteq> in_Id inst"
  shows "map_of (mn_servers (fst (ensureLocked env inst m))) j = map_of (mn_servers m) j"
  using assms
  by (auto simp: ensureLocked_def removeLocked_servers start_new_servers map_of_update map_of_delete Let_def
      split: option.split sum.split)

definition runs :: "manager_env \<Rightarrow> Instance \<Rightarrow> managed \<Rightarrow> bool" where
  "runs env inst mg \<longleftrightarrow> IsRunning (mg_server mg) \<and> mg_tag mg = in_Tag inst
     \<and> mg_structuralFP mg = StructuralFingerprint (me_read_file env) (me_sha256_hex env) inst
     \<and> mg_usersFP mg = UsersFingerprint inst"

lemma IsRunning_fields:
  "sv_running s = sv_running t \<Longrightarrow> sv_closed s = sv_closed t \<Longrightarrow> IsRunning s = IsRunning t"
  by (simp add: IsRunning_def)

lemma closeUserConns_running: "IsRunning (fold closeUserConns us s) = IsRunning s"
  by (induction us arbitrary: s) (simp_all add: closeUserConns_def Let_def IsRunning_def)

lemma refresh_runs:
  assumes "IsRunning (mg_server mg)" "mg_structuralFP mg = StructuralFingerprint (me_read_file env) (me_sha256_hex env) inst"
  shows "runs env inst (refresh env inst mg)"
proof -
  let ?s = "UpdateRuntimeSettings (in_Tag inst) (in_CongestionControl inst) (in_LogLevel inst) (mg_server mg)"
  obtain s' revoked where u: "UpdateUsers (me_parse env) (me_render env) (in_Clients inst) ?s = (s', revoked)" by fastforce
  have "IsRunning ?s" using assms(1) by (simp add: UpdateRuntimeSettings_def updateRuntimeSettings_def IsRunning_def)
  moreover from this have "IsRunning s'"
    using UpdateUsers_cases [OF u] by (auto simp: IsRunning_def)
  ultimately show ?thesis using assms(2) by (simp add: runs_def refresh_def Let_def u closeUserConns_running)
qed

lemma ensure_here:
  assumes valid: "ValidateClients (me_parse env) (in_Clients inst) = None" and starts: "startLocked env inst = Inr server"
  shows "case map_of (mn_servers (fst (ensureLocked env inst m))) (in_Id inst) of
    None \<Rightarrow> in_Clients inst = [] | Some mg \<Rightarrow> in_Clients inst \<noteq> [] \<and> runs env inst mg"
proof (cases "in_Clients inst = []")
  case True
  then show ?thesis using valid by (simp add: ensureLocked_def removeLocked_servers)
next
  case False
  have started: "runs env inst \<lparr>mg_server = server, mg_tag = in_Tag inst,
       mg_structuralFP = StructuralFingerprint (me_read_file env) (me_sha256_hex env) inst,
       mg_usersFP = UsersFingerprint inst\<rparr>"
    using started_ok(3) [OF starts] by (simp add: runs_def)
  show ?thesis
  proof (cases "map_of (mn_servers m) (in_Id inst)")
    case None
    then show ?thesis using valid False started by (simp add: ensureLocked_def start_new_servers starts)
  next
    case (Some mg)
    show ?thesis
    proof (cases "IsRunning (mg_server mg)
        \<and> mg_structuralFP mg = StructuralFingerprint (me_read_file env) (me_sha256_hex env) inst")
      case True
      then show ?thesis using valid False Some refresh_runs [of mg env inst]
        by (simp add: ensureLocked_def map_of_update)
    next
      case restart: False
      then have "ensureLocked env inst m = start_new env inst ((stopAndDrainLocked mg m)\<lparr>mn_servers :=
          AList.delete (in_Id inst) (mn_servers (stopAndDrainLocked mg m))\<rparr>)"
        using valid False Some by (auto simp: ensureLocked_def Let_def)
      then show ?thesis using False started by (simp add: start_new_servers starts)
    qed
  qed
qed

lemma ensure_all_other:
  "j \<notin> in_Id ` set insts \<Longrightarrow>
   map_of (mn_servers (fold (\<lambda>inst m. fst (ensureLocked env inst m)) insts m)) j = map_of (mn_servers m) j"
  by (induction insts arbitrary: m) (simp_all add: ensure_other)

lemma ensure_all_here:
  assumes "distinct (map in_Id insts)" "inst \<in> set insts"
    "ValidateClients (me_parse env) (in_Clients inst) = None" "startLocked env inst = Inr server"
  shows "case map_of (mn_servers (fold (\<lambda>inst m. fst (ensureLocked env inst m)) insts m)) (in_Id inst) of
    None \<Rightarrow> in_Clients inst = [] | Some mg \<Rightarrow> in_Clients inst \<noteq> [] \<and> runs env inst mg"
  using assms
proof (induction insts arbitrary: m)
  case (Cons i insts)
  show ?case
  proof (cases "inst = i")
    case True
    then show ?thesis using Cons.prems ensure_here [OF Cons.prems(3,4)] by (simp add: ensure_all_other)
  next
    case False
    then show ?thesis using Cons.IH Cons.prems by simp
  qed
qed simp


definition demo_env :: manager_env where
  "demo_env = \<lparr>me_parse = demo_parse, me_render = string_of_bytes, me_load = (\<lambda>_ _. Some ()),
     me_read_file = (\<lambda>_. None), me_sha256_hex = string_of_bytes, me_listens = (\<lambda>_. True),
     me_quic_listens = (\<lambda>_. True), me_error_text = (\<lambda>_ _. [])\<rparr>"

lemma demo_started: "startLocked demo_env demo_setup = Inr demo_server"
  by (simp add: startLocked_def demo_env_def demo_NewServer demo_server_def Start_def)

definition demo_managed :: managed where
  "demo_managed = \<lparr>mg_server = demo_server, mg_tag = in_Tag demo_setup,
     mg_structuralFP = StructuralFingerprint (\<lambda>_. None) string_of_bytes demo_setup,
     mg_usersFP = UsersFingerprint demo_setup\<rparr>"

lemma demo_setup_fields: "in_Id demo_setup = 1" "in_Clients demo_setup = [demo_client ''u1'' ''p'']"
  by (simp_all add: demo_setup_def demo_instance_def)

lemma demo_env_fields: "me_parse demo_env = demo_parse" "me_read_file demo_env = (\<lambda>_. None)"
  "me_sha256_hex demo_env = string_of_bytes"
  by (simp_all add: demo_env_def)

lemma demo_ensured: "fst (Ensure demo_env demo_setup new_manager) = new_manager\<lparr>mn_servers := [(1, demo_managed)]\<rparr>"
  using demo_valid(1)
  by (simp add: Ensure_def ensureLocked_def demo_setup_fields demo_env_fields new_manager_def start_new_def
      demo_started demo_managed_def)


text \<open>A run: an inbound is started, its server relays 40 bytes, and the inbound is removed.\<close>

definition demo_manager :: "serverSystem \<Rightarrow> managerSystem" where
  "demo_manager a = \<lparr>ns_mgr = new_manager\<lparr>mn_servers := [(1, demo_managed\<lparr>mg_server := ss_server a\<rparr>)]\<rparr>,
     ns_added = ss_added a, ns_reported = \<lambda>_ _. 0\<rparr>"

lemma demo_manager_serve:
  assumes "reach manager_start manager_step (demo_manager a)" "reach server_init server_step a"
    "server_step a b" "ss_collected b = ss_collected a" "billable (ss_server b)"
  shows "reach manager_start manager_step (demo_manager b)"
proof -
  let ?mg = "demo_managed\<lparr>mg_server := ss_server a\<rparr>"
  have "map_of (mn_servers (ns_mgr (demo_manager a))) 1 = Some ?mg" "ss_server a = mg_server ?mg"
    by (simp_all add: demo_manager_def)
  from reach_step [OF assms(1) mn_serve [OF this(1) assms(2) this(2) assms(3-5)]]
  show ?thesis by (simp add: demo_manager_def)
qed

lemma demo_billable: "billable (ss_server demo_accepted)" "billable (ss_server demo_logged_in)" "billable (ss_server demo_relayed)"
  by (simp_all add: billable_def demo_states demo_server_fields registerConn_def Let_def session_started_def
      add_bytes_def auth_demo_defs)

lemma demo_manager_reachable: "reach manager_start manager_step (demo_manager demo_relayed)"
proof -
  let ?s0 = "\<lparr>ns_mgr = new_manager, ns_added = \<lambda>_ _. 0, ns_reported = \<lambda>_ _. 0\<rparr>"
  have "reach manager_start manager_step ?s0" by (rule reach_init) (simp add: manager_start_def)
  from reach_step [OF this mn_ensure [of ?s0 demo_env demo_setup]]
  have r0: "reach manager_start manager_step (demo_manager demo_initial)"
    by (simp add: demo_ensured demo_manager_def demo_initial_def demo_managed_def)
  have r1: "reach manager_start manager_step (demo_manager demo_accepted)"
    by (rule demo_manager_serve [OF r0 demo_initial_reachable demo_accept_step _ demo_billable(1)]) (simp add: demo_states)
  have r2: "reach manager_start manager_step (demo_manager demo_logged_in)"
    by (rule demo_manager_serve [OF r1 reach_step [OF demo_initial_reachable demo_accept_step] demo_login_step _ demo_billable(2)])
      (simp add: demo_states)
  show ?thesis
    by (rule demo_manager_serve [OF r2 demo_logged_in_reachable demo_relay_step _ demo_billable(3)]) (simp add: demo_states)
qed


end
