(* ===== verification/Net_Addr.thy ===== *)
theory Net_Addr
  imports Tuic_Protocol
begin

text \<open>
  What the panel uses of Go's \<open>strings\<close>, \<open>strconv\<close>, \<open>net\<close> and \<open>net/netip\<close> to read ports and
  addresses: \<open>Split\<close>, \<open>Cut\<close>, \<open>Atoi\<close>, \<open>ParseAddr\<close>, \<open>ParsePrefix\<close> and \<open>net.ParseIP\<close>.
\<close>

subsection \<open>Splitting\<close>

fun split_on :: "char \<Rightarrow> string \<Rightarrow> string list" where
  "split_on c [] = [[]]"
| "split_on c (x # xs) =
     (if x = c then [] # split_on c xs
      else case split_on c xs of [] \<Rightarrow> [[x]] | f # fs \<Rightarrow> (x # f) # fs)"

definition cut_at :: "char \<Rightarrow> string \<Rightarrow> (string \<times> string) option" where
  "cut_at c s = (if c \<in> set s then Some (takeWhile (\<lambda>x. x \<noteq> c) s, tl (dropWhile (\<lambda>x. x \<noteq> c) s)) else None)"

definition cut_last :: "char \<Rightarrow> string \<Rightarrow> (string \<times> string) option" where
  "cut_last c s = (case cut_at c (rev s) of None \<Rightarrow> None | Some (a, b) \<Rightarrow> Some (rev b, rev a))"

lemma split_on_nonempty [simp]: "split_on c s \<noteq> []"
  by (induction s) (auto split: list.split)

lemma split_on_plain [simp]: "c \<notin> set s \<Longrightarrow> split_on c s = [s]"
  by (induction s) auto

lemma split_on_append [simp]: "c \<notin> set s \<Longrightarrow> split_on c (s @ c # t) = s # split_on c t"
  by (induction s) auto

lemma split_on_join:
  "xs \<noteq> [] \<Longrightarrow> (\<And>x. x \<in> set xs \<Longrightarrow> c \<notin> set x) \<Longrightarrow> split_on c (join_with [c] xs) = xs"
  by (induction "[c]" xs rule: join_with.induct) auto

subsection \<open>Numbers\<close>

definition atoi :: "string \<Rightarrow> int option" where
  "atoi s =
     (let (neg, digits) = (case s of
          [] \<Rightarrow> (False, [])
        | c # r \<Rightarrow> if c = CHR ''-'' then (True, r) else if c = CHR ''+'' then (False, r) else (False, s)) in
      if digits = [] \<or> \<not> list_all is_digit digits then None
      else let n = int (digits_value 0 digits); n = (if neg then - n else n) in
        if n < - (2 ^ 63) \<or> 2 ^ 63 \<le> n then None else Some n)"

lemma nat_digits_all [simp]: "list_all is_digit (nat_digits n)"
  by (simp add: list_all_iff nat_digits_is_digit)

lemma atoi_itoa: "- (2 ^ 63) \<le> i \<Longrightarrow> i < 2 ^ 63 \<Longrightarrow> atoi (itoa i) = Some i"
proof -
  assume r: "- (2 ^ 63) \<le> i" "i < 2 ^ 63"
  have plus: "CHR ''+'' \<notin> set (nat_digits n)" for n
    using nat_digits_is_digit [of "CHR ''+''" n] by (auto simp: is_digit_def of_char_def)
  have "(case nat_digits n of [] \<Rightarrow> (False, [])
      | c # r \<Rightarrow> if c = CHR ''-'' then (True, r) else if c = CHR ''+'' then (False, r) else (False, nat_digits n))
      = (False, nat_digits n)" for n
    using minus_not_digit [of n] plus [of n] nat_digits_nonempty [of n]
    by (cases "nat_digits n") auto
  then show ?thesis using r
    by (simp add: atoi_def itoa_def digits_value_nat_digits Let_def)
qed

definition is_hex :: "char \<Rightarrow> bool" where
  "is_hex c \<longleftrightarrow> is_digit c \<or> (97::nat) \<le> of_char c \<and> of_char c \<le> (102::nat)
     \<or> (65::nat) \<le> of_char c \<and> of_char c \<le> (70::nat)"

definition hex_value :: "char \<Rightarrow> nat" where
  "hex_value c = (if is_digit c then of_char c - 48 else if (97::nat) \<le> of_char c then of_char c - 87 else of_char c - 55)"

definition hex_number :: "string \<Rightarrow> nat" where
  "hex_number s = foldl (\<lambda>n c. 16 * n + hex_value c) 0 s"

subsection \<open>Addresses\<close>

datatype ip_addr = V4 bytes | V6 bytes string

definition ip4_field :: "string \<Rightarrow> byte option" where
  "ip4_field f =
     (if f = [] \<or> \<not> list_all is_digit f \<or> (1 < length f \<and> hd f = CHR ''0'') \<or> 255 < digits_value 0 f then None
      else Some (of_nat (digits_value 0 f)))"

definition parse_ip4 :: "string \<Rightarrow> bytes option" where
  "parse_ip4 s =
     (let fields = map ip4_field (split_on (CHR ''.'') s) in
      if length fields = 4 \<and> None \<notin> set fields then Some (map the fields) else None)"

fun ip6_fields :: "nat \<Rightarrow> bytes \<Rightarrow> nat option \<Rightarrow> string \<Rightarrow> (bytes \<times> nat option \<times> string) option" where
  "ip6_fields 0 acc e s = Some (acc, e, s)"
| "ip6_fields (Suc k) acc e s =
     (let h = takeWhile is_hex s; r = dropWhile is_hex s; n = hex_number h in
      if h = [] \<or> 4 < length h then None
      else if r \<noteq> [] \<and> hd r = CHR ''.'' then
        (if (e = None \<and> length acc \<noteq> 12) \<or> 16 < length acc + 4 then None
         else case parse_ip4 s of None \<Rightarrow> None | Some b \<Rightarrow> Some (acc @ b, e, []))
      else let acc = acc @ [of_nat (n div 256), of_nat (n mod 256)] in
        (case r of
           [] \<Rightarrow> Some (acc, e, [])
         | c # r \<Rightarrow>
             if c \<noteq> CHR '':'' \<or> r = [] then None
             else if hd r = CHR '':'' then
               (if e \<noteq> None then None
                else if tl r = [] then Some (acc, Some (length acc), [])
                else ip6_fields k acc (Some (length acc)) (tl r))
             else ip6_fields k acc e r))"

definition parse_ip6 :: "string \<Rightarrow> bytes option" where
  "parse_ip6 s =
     (let (e, s) = (if has_prefix s ''::'' then (Some 0, drop 2 s) else (None, s)) in
      if e = Some 0 \<and> s = [] then Some (replicate 16 0)
      else case ip6_fields 8 [] e s of
        None \<Rightarrow> None
      | Some (b, e, r) \<Rightarrow>
          if r \<noteq> [] then None
          else if length b < 16 then
            (case e of None \<Rightarrow> None | Some k \<Rightarrow> Some (take k b @ replicate (16 - length b) 0 @ drop k b))
          else if e \<noteq> None then None else Some b)"

definition ParseAddr :: "string \<Rightarrow> ip_addr option" where
  "ParseAddr s =
     (case filter (\<lambda>c. c = CHR ''.'' \<or> c = CHR '':'' \<or> c = CHR ''%'') s of
        [] \<Rightarrow> None
      | c # _ \<Rightarrow>
          if c = CHR ''.'' then map_option V4 (parse_ip4 s)
          else if c = CHR ''%'' then None
          else (case cut_at (CHR ''%'') s of
              None \<Rightarrow> map_option (\<lambda>b. V6 b []) (parse_ip6 s)
            | Some (host, zone) \<Rightarrow> if zone = [] then None else map_option (\<lambda>b. V6 b zone) (parse_ip6 host)))"

definition addr_String :: "ip_addr \<Rightarrow> string" where
  "addr_String a =
     (case a of
        V4 b \<Rightarrow> ip_string b
      | V6 b zone \<Rightarrow> (if ip_to4 b \<noteq> [] then ''::ffff:'' @ ip_string (ip_to4 b) else ip6_string b)
          @ (if zone = [] then [] else CHR ''%'' # zone))"

text \<open>A prefix is its address and its length.\<close>

definition ParsePrefix :: "string \<Rightarrow> (ip_addr \<times> int) option" where
  "ParsePrefix s =
     (case cut_last (CHR ''/'') s of
        None \<Rightarrow> None
      | Some (host, bits) \<Rightarrow>
          (case ParseAddr host of
             None \<Rightarrow> None
           | Some a \<Rightarrow>
               let max_bits = (case a of V4 _ \<Rightarrow> 32 | V6 _ _ \<Rightarrow> 128) in
               if (case a of V4 _ \<Rightarrow> False | V6 _ zone \<Rightarrow> zone \<noteq> []) then None
               else if 1 < length bits \<and> \<not> (is_digit (hd bits) \<and> hd bits \<noteq> CHR ''0'') then None
               else (case atoi bits of
                   None \<Rightarrow> None
                 | Some n \<Rightarrow> if n < 0 \<or> max_bits < n then None else Some (a, n))))"

text \<open>\<open>net.ParseIP\<close>: sixteen bytes, an IPv4 address in its mapped form; no zone.\<close>

definition ParseIP :: "string \<Rightarrow> bytes option" where
  "ParseIP s =
     (case ParseAddr s of
        None \<Rightarrow> None
      | Some (V4 b) \<Rightarrow> Some (v4_prefix @ b)
      | Some (V6 b zone) \<Rightarrow> if zone = [] then Some b else None)"

definition Is4 :: "ip_addr \<Rightarrow> bool" where
  "Is4 a = (case a of V4 _ \<Rightarrow> True | V6 _ _ \<Rightarrow> False)"

definition Is4In6 :: "ip_addr \<Rightarrow> bool" where
  "Is4In6 a = (case a of V4 _ \<Rightarrow> False | V6 b _ \<Rightarrow> ip_to4 b \<noteq> [])"

subsection \<open>Reading back what is printed\<close>

lemma ip4_field_nat_digits: "ip4_field (nat_digits (unat (b :: byte))) = Some b"
proof -
  have lt: "unat b < 256" using unsigned_less [of b, where 'a = nat] by simp
  have zero: "hd (nat_digits n) \<noteq> CHR ''0''" if "1 < length (nat_digits n)" for n
    using that
  proof (induction n rule: nat_digits.induct)
    case (1 n)
    show ?case
    proof (cases "n < 10")
      case True
      then have "length (nat_digits n) = 1" by (subst nat_digits.simps) simp
      with "1.prems" show ?thesis by simp
    next
      case False
      then have n: "nat_digits n = nat_digits (n div 10) @ [char_of (48 + n mod 10)]" by (subst nat_digits.simps) simp
      show ?thesis
      proof (cases "n div 10 < 10")
        case True
        then have d: "nat_digits (n div 10) = [char_of (48 + n div 10)]" by (subst nat_digits.simps) simp
        have "0 < n div 10" using False by simp
        moreover have zero: "(of_char (CHR ''0'') :: nat) = 48" by (simp add: of_char_def)
        ultimately have "(of_char (char_of (48 + n div 10)) :: nat) \<noteq> of_char (CHR ''0'')"
          unfolding of_char_digit [OF True] zero by simp
        then have "char_of (48 + n div 10) \<noteq> CHR ''0''" by metis
        then show ?thesis using n d by simp
      next
        case more: False
        then have "nat_digits (n div 10) = nat_digits (n div 10 div 10) @ [char_of (48 + n div 10 mod 10)]"
          by (subst nat_digits.simps) simp
        then have "length (nat_digits (n div 10)) = Suc (length (nat_digits (n div 10 div 10)))" by simp
        then have "1 < length (nat_digits (n div 10))" by simp
        then show ?thesis using "1.IH" False n by simp
      qed
    qed
  qed
  show ?thesis using lt zero by (auto simp: ip4_field_def digits_value_nat_digits)
qed

lemma dot_not_digit: "CHR ''.'' \<notin> set (nat_digits n)"
  using nat_digits_is_digit [of "CHR ''.''" n] by (auto simp: is_digit_def of_char_def)

lemma parse_ip4_string:
  assumes "length b = 4"
  shows "parse_ip4 (join_with ''.'' (map (nat_digits \<circ> unat) b)) = Some b"
proof -
  have "split_on (CHR ''.'') (join_with ''.'' (map (nat_digits \<circ> unat) b)) = map (nat_digits \<circ> unat) b"
    using assms by (intro split_on_join) (auto simp: dot_not_digit)
  then have "map ip4_field (split_on (CHR ''.'') (join_with ''.'' (map (nat_digits \<circ> unat) b))) = map Some b"
    by (simp add: ip4_field_nat_digits)
  then show ?thesis using assms by (simp add: parse_ip4_def)
qed

subsection \<open>Lengths\<close>

lemma parse_ip4_length: "parse_ip4 s = Some b \<Longrightarrow> length b = 4"
  by (auto simp: parse_ip4_def Let_def split: if_splits)

definition in_bounds :: "nat option \<Rightarrow> bytes \<Rightarrow> bool" where
  "in_bounds e b \<longleftrightarrow> (case e of None \<Rightarrow> True | Some k \<Rightarrow> k \<le> length b)"

lemma ip6_fields_length:
  "ip6_fields k acc e s = Some (b, e', r) \<Longrightarrow> length acc + 2 * k = 16 \<Longrightarrow> in_bounds e acc \<Longrightarrow>
   length b \<le> 16 \<and> in_bounds e' b"
proof (induction k acc e s rule: ip6_fields.induct)
  case (1 acc e s)
  then show ?case by simp
next
  case (2 k acc e s)
  let ?acc = "acc @ [of_nat (hex_number (takeWhile is_hex s) div 256), of_nat (hex_number (takeWhile is_hex s) mod 256)]"
  have grown: "length ?acc + 2 * k = 16" "in_bounds e ?acc" "in_bounds (Some (length ?acc)) ?acc"
    using "2.prems"(2,3) by (auto simp: in_bounds_def split: option.splits)
  show ?case
  proof (cases "dropWhile is_hex s")
    case Nil
    then have "b = ?acc" "e' = e" using "2.prems"(1)
      by (auto simp: Let_def simp del: dropWhile_eq_Nil_conv split: if_splits)
    then show ?thesis using grown by simp
  next
    case (Cons c r')
    show ?thesis
    proof (cases "c = CHR ''.''")
      case True
      with "2.prems"(1) Cons obtain b4 where "parse_ip4 s = Some b4" "b = acc @ b4" "e' = e" "length acc + 4 \<le> 16"
        by (auto simp: Let_def split: if_splits option.splits)
      then show ?thesis using "2.prems"(3) parse_ip4_length [of s b4] by (auto simp: in_bounds_def split: option.splits)
    next
      case False
      note rest = "2.prems"(1) Cons False
      show ?thesis
      proof (cases "hd r' = CHR '':'' \<and> tl r' \<noteq> []")
        case True
        then have "ip6_fields k ?acc (Some (length ?acc)) (tl r') = Some (b, e', r)"
          using rest by (auto simp: Let_def split: if_splits)
        then show ?thesis using "2.IH"(1) rest True grown by (auto simp: Let_def split: if_splits)
      next
        case other: False
        show ?thesis
        proof (cases "hd r' = CHR '':''")
          case True
          then have "b = ?acc" "e' = Some (length ?acc)" using rest other by (auto simp: Let_def split: if_splits)
          then show ?thesis using grown by simp
        next
          case plain: False
          then have "ip6_fields k ?acc e r' = Some (b, e', r)" using rest by (auto simp: Let_def split: if_splits)
          then show ?thesis using "2.IH"(2) rest plain grown by (auto simp: Let_def split: if_splits)
        qed
      qed
    qed
  qed
qed

lemma parse_ip6_length: "parse_ip6 s = Some b \<Longrightarrow> length b = 16"
proof -
  assume p: "parse_ip6 s = Some b"
  have expand: "length (take k c @ replicate (16 - length c) 0 @ drop k c) = 16"
    if "ip6_fields 8 [] e t = Some (c, Some k, [])" "in_bounds e []" for c :: bytes and k e t
    using ip6_fields_length [OF that(1) _ that(2)] by (simp add: in_bounds_def)
  have full: "length c = 16" if "ip6_fields 8 [] e t = Some (c, e', [])" "in_bounds e []" "\<not> length c < 16" for c :: bytes and e e' t
    using ip6_fields_length [OF that(1) _ that(2)] that(3) by simp
  show ?thesis
  proof (cases "has_prefix s ''::''")
    case True
    then show ?thesis using p expand [of "Some 0" "drop 2 s"] full [of "Some 0" "drop 2 s"]
      by (auto simp: parse_ip6_def in_bounds_def split: if_splits option.splits)
  next
    case False
    then show ?thesis using p expand [of None s] full [of None s]
      by (auto simp: parse_ip6_def in_bounds_def split: if_splits option.splits)
  qed
qed

lemma ParseAddr_length: "ParseAddr s = Some a \<Longrightarrow> (case a of V4 b \<Rightarrow> length b = 4 | V6 b _ \<Rightarrow> length b = 16)"
  by (auto simp: ParseAddr_def dest!: parse_ip4_length split: list.splits if_splits option.splits)
    (simp_all add: parse_ip6_length)

lemma ParseIP_length: "ParseIP s = Some ip \<Longrightarrow> length ip = 16"
  using ParseAddr_length [of s]
  by (auto simp: ParseIP_def v4_prefix_def split: option.splits ip_addr.splits if_splits)

end
