(* ===== verification/Port_Forward.thy ===== *)
theory Port_Forward
  imports Net_Addr
begin

text \<open>
  Port forwarding of AmneziaWG clients: \<open>internal/amneziawg/portfwd.go\<close> (the port list a client
  may type in), \<open>FirstIPv4\<close> and \<open>FirstIPv6\<close> of \<open>instance.go\<close>, and the supervisor of
  \<open>internal/amneziawgnet/portfwd.go\<close> that keeps one TCP and one UDP listener per forwarded port.

  A listener is a number; \<open>opens\<close> says which listener a key gets, or that binding fails.
\<close>

subsection \<open>Port lists\<close>

record portSpec =
  sp_start :: int
  sp_end :: int

definition parsePortNumber :: "string \<Rightarrow> int option" where
  "parsePortNumber s = (case atoi s of None \<Rightarrow> None | Some n \<Rightarrow> if n < 1 \<or> 65535 < n then None else Some n)"

definition parsePortToken :: "string \<Rightarrow> portSpec option" where
  "parsePortToken tok =
     (case cut_at (CHR ''-'') tok of
        Some (before, after) \<Rightarrow>
          (case (parsePortNumber (trim_space before), parsePortNumber (trim_space after)) of
             (Some s, Some e) \<Rightarrow> if s > e then None else Some \<lparr>sp_start = s, sp_end = e\<rparr>
           | _ \<Rightarrow> None)
      | None \<Rightarrow> map_option (\<lambda>p. \<lparr>sp_start = p, sp_end = p\<rparr>) (parsePortNumber tok))"

definition add_token :: "string \<Rightarrow> portSpec list \<Rightarrow> portSpec list" where
  "add_token tok specs =
     (let tok = trim_space tok in
      if tok = [] then specs
      else case parsePortToken tok of
        None \<Rightarrow> specs
      | Some spec \<Rightarrow> if spec \<in> set specs then specs else specs @ [spec])"

definition parseForwardedPorts :: "string \<Rightarrow> portSpec list" where
  "parseForwardedPorts input =
     (if input = [] then []
      else fold add_token (split_on (CHR '','') (map (\<lambda>c. if c = CHR '';'' then CHR '','' else c) input)) [])"

definition ForwardedPortsInclude :: "string \<Rightarrow> int \<Rightarrow> bool" where
  "ForwardedPortsInclude forwardedPorts port \<longleftrightarrow>
     (\<exists>spec \<in> set (parseForwardedPorts forwardedPorts). port \<ge> sp_start spec \<and> port \<le> sp_end spec)"

definition MaxForwardedPorts :: nat where "MaxForwardedPorts = 100"

text \<open>The inner loop; the flag says that it breaks out of the outer one.\<close>

function expand_range :: "nat \<Rightarrow> int \<Rightarrow> int \<Rightarrow> int list \<Rightarrow> int list \<times> bool" where
  "expand_range limit p e ports =
     (if p > e then (ports, False)
      else if limit \<le> length ports then (ports, True)
      else if p \<in> set ports then expand_range limit (p + 1) e ports
      else expand_range limit (p + 1) e (ports @ [p]))"
  by pat_completeness auto
termination
  by (relation "measure (\<lambda>(_, p, e, _). nat (e + 1 - p))") auto

declare expand_range.simps [simp del]

fun expand_specs :: "nat \<Rightarrow> portSpec list \<Rightarrow> int list \<Rightarrow> int list" where
  "expand_specs limit [] ports = ports"
| "expand_specs limit (spec # specs) ports =
     (case expand_range limit (sp_start spec) (sp_end spec) ports of
        (ports, True) \<Rightarrow> ports
      | (ports, False) \<Rightarrow> expand_specs limit specs ports)"

definition expandForwardedPorts :: "string \<Rightarrow> nat \<Rightarrow> int list" where
  "expandForwardedPorts forwardedPorts limit = sort (expand_specs limit (parseForwardedPorts forwardedPorts) [])"

definition ExpandForwardedPorts :: "string \<Rightarrow> int list" where
  "ExpandForwardedPorts forwardedPorts = expandForwardedPorts forwardedPorts MaxForwardedPorts"

definition ExceedsForwardedPortsCap :: "string \<Rightarrow> bool" where
  "ExceedsForwardedPortsCap forwardedPorts \<longleftrightarrow>
     MaxForwardedPorts < length (expandForwardedPorts forwardedPorts (MaxForwardedPorts + 1))"

subsection \<open>Peers and their targets\<close>

record Peer =
  pr_Email :: string
  pr_AllowedIPs :: "string list"
  pr_ForwardedPorts :: string

text \<open>Of the instance, what forwarding reads.\<close>

record AwgInstance =
  ai_Id :: int
  ai_IPv6Enabled :: bool
  ai_Peers :: "Peer list"

fun FirstIPv4 :: "string list \<Rightarrow> string" where
  "FirstIPv4 [] = []"
| "FirstIPv4 (a # rest) =
     (case ParsePrefix a of
        Some (addr, _) \<Rightarrow> if Is4 addr then addr_String addr else FirstIPv4 rest
      | None \<Rightarrow>
          (case ParseAddr a of
             Some addr \<Rightarrow> if Is4 addr then addr_String addr else FirstIPv4 rest
           | None \<Rightarrow> FirstIPv4 rest))"

fun FirstIPv6 :: "string list \<Rightarrow> string" where
  "FirstIPv6 [] = []"
| "FirstIPv6 (a # rest) =
     (case ParsePrefix a of
        Some (addr, _) \<Rightarrow> if \<not> Is4 addr \<and> \<not> Is4In6 addr then addr_String addr else FirstIPv6 rest
      | None \<Rightarrow>
          (case ParseAddr a of
             Some addr \<Rightarrow> if \<not> Is4 addr \<and> \<not> Is4In6 addr then addr_String addr else FirstIPv6 rest
           | None \<Rightarrow> FirstIPv6 rest))"

definition peer_target :: "AwgInstance \<Rightarrow> Peer \<Rightarrow> ip_addr option" where
  "peer_target inst p =
     (let raw = FirstIPv4 (pr_AllowedIPs p);
          raw = (if raw = [] \<and> ai_IPv6Enabled inst then FirstIPv6 (pr_AllowedIPs p) else raw) in
      if pr_Email p = [] \<or> raw = [] then None else ParseAddr raw)"

definition desiredPeerTargets :: "AwgInstance \<Rightarrow> (string \<times> ip_addr) list" where
  "desiredPeerTargets inst =
     fold (\<lambda>p out. case peer_target inst p of None \<Rightarrow> out | Some addr \<Rightarrow> AList.update (pr_Email p) addr out)
       (ai_Peers inst) []"

definition forwardingPeers :: "AwgInstance \<Rightarrow> Peer list" where
  "forwardingPeers inst =
     (let targets = desiredPeerTargets inst in
      filter (\<lambda>p. \<not> (pr_Email p = [] \<or> pr_ForwardedPorts p = []) \<and> map_of targets (pr_Email p) \<noteq> None) (ai_Peers inst))"

subsection \<open>The supervisor\<close>

datatype portForwardProto = tcpForward | udpForward

record portForwardKey =
  fk_email :: string
  fk_port :: int
  fk_proto :: portForwardProto

definition peer_keys :: "Peer \<Rightarrow> portForwardKey list" where
  "peer_keys p = concat (map (\<lambda>port.
     [\<lparr>fk_email = pr_Email p, fk_port = port, fk_proto = tcpForward\<rparr>,
      \<lparr>fk_email = pr_Email p, fk_port = port, fk_proto = udpForward\<rparr>])
     (ExpandForwardedPorts (pr_ForwardedPorts p)))"

definition desiredPortForwardKeys :: "AwgInstance \<Rightarrow> portForwardKey list" where
  "desiredPortForwardKeys inst = remdups (concat (map peer_keys (forwardingPeers inst)))"

definition ForwardedPortOwner :: "AwgInstance \<Rightarrow> int \<Rightarrow> string option" where
  "ForwardedPortOwner inst port =
     map_option pr_Email (List.find (\<lambda>p. port \<in> set (ExpandForwardedPorts (pr_ForwardedPorts p))) (forwardingPeers inst))"

record PortForwardSet =
  pf_peerTargets :: "(string \<times> ip_addr) list"
  pf_listeners :: "(portForwardKey \<times> nat) list"
  pf_closed :: "nat list"

definition NewPortForwardSet :: PortForwardSet where
  "NewPortForwardSet = \<lparr>pf_peerTargets = [], pf_listeners = [], pf_closed = []\<rparr>"

definition open_key :: "(portForwardKey \<Rightarrow> nat option) \<Rightarrow> portForwardKey \<Rightarrow> PortForwardSet \<Rightarrow> PortForwardSet" where
  "open_key opens key s =
     (case opens key of None \<Rightarrow> s | Some ln \<Rightarrow> s\<lparr>pf_listeners := AList.update key ln (pf_listeners s)\<rparr>)"

definition reconcile_forwards ::
  "(portForwardKey \<Rightarrow> nat option) \<Rightarrow> AwgInstance \<Rightarrow> PortForwardSet \<Rightarrow> PortForwardSet" where
  "reconcile_forwards opens inst s =
     (let wantKeys = desiredPortForwardKeys inst;
          toClose = map snd (filter (\<lambda>(key, _). key \<notin> set wantKeys) (pf_listeners s));
          kept = filter (\<lambda>(key, _). key \<in> set wantKeys) (pf_listeners s);
          toOpen = filter (\<lambda>key. map_of kept key = None) wantKeys in
      fold (open_key opens) toOpen
        (s\<lparr>pf_peerTargets := desiredPeerTargets inst, pf_listeners := kept, pf_closed := toClose @ pf_closed s\<rparr>))"

definition targetFor :: "string \<Rightarrow> PortForwardSet \<Rightarrow> ip_addr option" where
  "targetFor email s = map_of (pf_peerTargets s) email"

definition close_forwards :: "PortForwardSet \<Rightarrow> PortForwardSet" where
  "close_forwards s = s\<lparr>pf_listeners := [], pf_closed := map snd (pf_listeners s) @ pf_closed s\<rparr>"

subsection \<open>Expansion is exact up to the cap\<close>

definition covered :: "portSpec list \<Rightarrow> int set" where
  "covered specs = (\<Union>spec \<in> set specs. {sp_start spec .. sp_end spec})"

lemma covered_Cons [simp]: "covered (spec # specs) = {sp_start spec .. sp_end spec} \<union> covered specs"
  by (simp add: covered_def)

lemma finite_covered [simp]: "finite (covered specs)"
  by (simp add: covered_def)

text \<open>
  The expansion takes new ports only, and stops early only at the limit; the flag is set only then.
\<close>

lemma expand_range_spec:
  assumes "distinct ports" "length ports \<le> limit"
  shows "case expand_range limit p e ports of (out, stop) \<Rightarrow>
    distinct out \<and> set ports \<subseteq> set out \<and> set out \<subseteq> set ports \<union> {p..e} \<and> length out \<le> limit
    \<and> (if stop then length out = limit else {p..e} \<subseteq> set out)"
  using assms
proof (induction limit p e ports rule: expand_range.induct)
  case (1 limit p e ports)
  have split: "{p..e} = insert p {p + 1..e}" if "\<not> p > e" using that by auto
  show ?case
  proof (cases "p > e \<or> limit \<le> length ports")
    case True
    then show ?thesis using "1.prems" by (subst expand_range.simps) auto
  next
    case False
    show ?thesis
    proof (cases "p \<in> set ports")
      case True
      then have "expand_range limit p e ports = expand_range limit (p + 1) e ports"
        using False by (subst expand_range.simps) simp
      then show ?thesis using "1.IH"(1) False True "1.prems" split by (fastforce split: prod.splits if_splits)
    next
      case new: False
      then have "expand_range limit p e ports = expand_range limit (p + 1) e (ports @ [p])"
        using False by (subst expand_range.simps) simp
      then show ?thesis using "1.IH"(2) False new "1.prems" split by (fastforce split: prod.splits if_splits)
    qed
  qed
qed

lemma expand_specs_spec:
  assumes "distinct ports" "length ports \<le> limit"
  shows "let out = expand_specs limit specs ports in
    distinct out \<and> set ports \<subseteq> set out \<and> set out \<subseteq> set ports \<union> covered specs \<and> length out \<le> limit
    \<and> (length out = limit \<or> covered specs \<subseteq> set out)"
  using assms
proof (induction specs arbitrary: ports)
  case (Cons spec specs)
  obtain out stop where r: "expand_range limit (sp_start spec) (sp_end spec) ports = (out, stop)" by fastforce
  note s = expand_range_spec [OF Cons.prems, of "sp_start spec" "sp_end spec", unfolded r, simplified]
  show ?case
  proof (cases stop)
    case True
    then show ?thesis using s r by (auto simp: Let_def)
  next
    case False
    then have "expand_specs limit (spec # specs) ports = expand_specs limit specs out" using r by simp
    then show ?thesis using Cons.IH [of out] s False unfolding Let_def by auto
  qed
qed (auto simp: covered_def)

lemma expand_length:
  "length (expand_specs limit specs []) = min limit (card (covered specs))
   \<and> distinct (expand_specs limit specs []) \<and> set (expand_specs limit specs []) \<subseteq> covered specs"
proof -
  let ?out = "expand_specs limit specs []"
  have s: "distinct ?out" "set ?out \<subseteq> covered specs" "length ?out \<le> limit"
    "length ?out = limit \<or> covered specs \<subseteq> set ?out"
    using expand_specs_spec [of "[]" limit specs] by (auto simp: Let_def)
  have "length ?out = card (set ?out)" using s(1) by (simp add: distinct_card)
  moreover have "card (set ?out) \<le> card (covered specs)" using s(2) by (intro card_mono) auto
  moreover have "covered specs \<subseteq> set ?out \<Longrightarrow> card (covered specs) \<le> card (set ?out)" by (intro card_mono) auto
  ultimately have "length ?out = min limit (card (covered specs))" using s(3,4) by linarith
  then show ?thesis using s(1,2) by blast
qed

lemma include_covered: "ForwardedPortsInclude s p \<longleftrightarrow> p \<in> covered (parseForwardedPorts s)"
  by (auto simp: ForwardedPortsInclude_def covered_def)

definition spec_ok :: "portSpec \<Rightarrow> bool" where
  "spec_ok spec \<longleftrightarrow> 1 \<le> sp_start spec \<and> sp_start spec \<le> sp_end spec \<and> sp_end spec \<le> 65535"

lemma parsePortNumber_range: "parsePortNumber s = Some n \<Longrightarrow> 1 \<le> n \<and> n \<le> 65535"
  by (auto simp: parsePortNumber_def split: option.splits if_splits)

lemma parsePortToken_ok: "parsePortToken tok = Some spec \<Longrightarrow> spec_ok spec"
  by (auto simp: parsePortToken_def spec_ok_def split: option.splits if_splits dest!: parsePortNumber_range)

lemma add_tokens_ok: "\<forall>spec \<in> set specs. spec_ok spec \<Longrightarrow> \<forall>spec \<in> set (fold add_token toks specs). spec_ok spec"
proof (induction toks arbitrary: specs)
  case (Cons tok toks)
  have "\<forall>spec \<in> set (add_token tok specs). spec_ok spec"
    using Cons.prems parsePortToken_ok by (auto simp: add_token_def Let_def split: option.split)
  then show ?case using Cons.IH by simp
qed simp

lemma parsed_ok: "\<forall>spec \<in> set (parseForwardedPorts s). spec_ok spec"
  using add_tokens_ok [of "[]"] by (simp add: parseForwardedPorts_def)

text \<open>
  C14: a port list opens exactly the ports it covers, up to the cap. The expansion is sorted, without
  duplicates and within 1 to 65535; it has all ports the list covers if these are at most a hundred,
  otherwise exactly a hundred of them, and the cap check says which of the two is the case.
\<close>

theorem expand_ports_exact:
  "let ports = ExpandForwardedPorts s; all = {p. ForwardedPortsInclude s p} in
   sorted ports \<and> distinct ports \<and> set ports \<subseteq> all \<and> all \<subseteq> {1..65535}
   \<and> length ports = min 100 (card all) \<and> (ExceedsForwardedPortsCap s \<longleftrightarrow> 100 < card all)
   \<and> (ExceedsForwardedPortsCap s \<or> set ports = all)"
proof -
  let ?specs = "parseForwardedPorts s"
  have all: "{p. ForwardedPortsInclude s p} = covered ?specs" by (simp add: include_covered)
  have range: "covered ?specs \<subseteq> {1..65535}" using parsed_ok by (force simp: covered_def spec_ok_def)
  note e = expand_length [of MaxForwardedPorts ?specs] and e1 = expand_length [of "MaxForwardedPorts + 1" ?specs]
  have exceeds: "ExceedsForwardedPortsCap s \<longleftrightarrow> 100 < card (covered ?specs)"
    using e1 by (simp add: ExceedsForwardedPortsCap_def expandForwardedPorts_def MaxForwardedPorts_def)
  have "set (ExpandForwardedPorts s) = covered ?specs" if "\<not> 100 < card (covered ?specs)"
  proof (rule card_subset_eq [OF finite_covered])
    show "set (ExpandForwardedPorts s) \<subseteq> covered ?specs"
      using e by (simp add: ExpandForwardedPorts_def expandForwardedPorts_def)
    have "card (set (ExpandForwardedPorts s)) = length (ExpandForwardedPorts s)"
      using e by (intro distinct_card) (simp add: ExpandForwardedPorts_def expandForwardedPorts_def)
    then show "card (set (ExpandForwardedPorts s)) = card (covered ?specs)"
      using e that by (simp add: ExpandForwardedPorts_def expandForwardedPorts_def MaxForwardedPorts_def)
  qed
  then show ?thesis
    using e range exceeds unfolding all Let_def
    by (auto simp: ExpandForwardedPorts_def expandForwardedPorts_def MaxForwardedPorts_def)
qed

subsection \<open>The supervisor opens what is wanted\<close>

lemma desired_targets_dom:
  "map_of (fold (\<lambda>p out. case peer_target inst p of None \<Rightarrow> out | Some addr \<Rightarrow> AList.update (pr_Email p) addr out) ps out) e \<noteq> None
   \<longleftrightarrow> map_of out e \<noteq> None \<or> (\<exists>p \<in> set ps. pr_Email p = e \<and> peer_target inst p \<noteq> None)"
proof (induction ps arbitrary: out)
  case (Cons p ps)
  show ?case
  proof (cases "peer_target inst p")
    case None
    then show ?thesis using Cons.IH [of out] by auto
  next
    case (Some addr)
    then show ?thesis using Cons.IH [of "AList.update (pr_Email p) addr out"] by (auto simp: map_of_update)
  qed
qed simp

lemma target_exists:
  "map_of (desiredPeerTargets inst) e \<noteq> None \<longleftrightarrow> (\<exists>p \<in> set (ai_Peers inst). pr_Email p = e \<and> peer_target inst p \<noteq> None)"
  unfolding desiredPeerTargets_def desired_targets_dom by simp

lemma open_keys:
  assumes "wf_map (pf_listeners s)" "distinct ks" "\<forall>k \<in> set ks. map_of (pf_listeners s) k = None"
  shows "wf_map (pf_listeners (fold (open_key opens) ks s))
    \<and> map_of (pf_listeners (fold (open_key opens) ks s)) k = (if k \<in> set ks then opens k else map_of (pf_listeners s) k)
    \<and> pf_closed (fold (open_key opens) ks s) = pf_closed s \<and> pf_peerTargets (fold (open_key opens) ks s) = pf_peerTargets s"
  using assms
proof (induction ks arbitrary: s)
  case (Cons j ks)
  let ?s = "open_key opens j s"
  have "wf_map (pf_listeners ?s)" "pf_closed ?s = pf_closed s" "pf_peerTargets ?s = pf_peerTargets s"
    "map_of (pf_listeners ?s) i = (if i = j then opens j else map_of (pf_listeners s) i)" for i
    using Cons.prems by (auto simp: open_key_def map_of_update split: option.split)
  then show ?case using Cons.IH [of ?s] Cons.prems by auto
qed simp

text \<open>
  C13: reconciling the port forwards of an instance. A wanted listener that was open stays the same
  one, a wanted one that was not is opened if binding succeeds, every other is closed and nothing
  else is. Listeners are wanted exactly for the ports of the peers that have an address to forward
  to, one per protocol; and \<open>ForwardedPortOwner\<close> names a peer exactly when a listener is wanted on
  the port.
\<close>

theorem reconcile_forwards_exact:
  assumes "wf_map (pf_listeners s)"
  shows "let s' = reconcile_forwards opens inst s; want = set (desiredPortForwardKeys inst) in
    (\<forall>key. map_of (pf_listeners s') key = (if key \<notin> want then None
        else case map_of (pf_listeners s) key of Some ln \<Rightarrow> Some ln | None \<Rightarrow> opens key))
    \<and> wf_map (pf_listeners s')
    \<and> set (pf_closed s') = set (pf_closed s) \<union> {ln. \<exists>key. map_of (pf_listeners s) key = Some ln \<and> key \<notin> want}
    \<and> (\<forall>email port proto. \<lparr>fk_email = email, fk_port = port, fk_proto = proto\<rparr> \<in> want \<longleftrightarrow>
         email \<noteq> [] \<and> targetFor email s' \<noteq> None
         \<and> (\<exists>p \<in> set (ai_Peers inst). pr_Email p = email \<and> port \<in> set (ExpandForwardedPorts (pr_ForwardedPorts p))))
    \<and> (\<forall>port. ForwardedPortOwner inst port = None \<longleftrightarrow> (\<forall>key \<in> want. fk_port key \<noteq> port))"
proof -
  let ?want = "set (desiredPortForwardKeys inst)"
  let ?kept = "filter (\<lambda>(key, _). key \<in> ?want) (pf_listeners s)"
  let ?closed = "map snd (filter (\<lambda>(key, _). key \<notin> ?want) (pf_listeners s)) @ pf_closed s"
  let ?s = "s\<lparr>pf_peerTargets := desiredPeerTargets inst, pf_listeners := ?kept, pf_closed := ?closed\<rparr>"
  let ?open = "filter (\<lambda>key. map_of ?kept key = None) (desiredPortForwardKeys inst)"
  have s': "reconcile_forwards opens inst s = fold (open_key opens) ?open ?s"
    by (simp add: reconcile_forwards_def Let_def)
  have kept: "map_of ?kept k = (if k \<in> ?want then map_of (pf_listeners s) k else None)" for k
    using map_of_filter_wf [OF assms, of "\<lambda>(key, _). key \<in> ?want" k] by (auto split: option.split)
  have "wf_map (pf_listeners ?s)" "distinct ?open" "\<forall>k \<in> set ?open. map_of (pf_listeners ?s) k = None"
    using assms by (simp_all add: desiredPortForwardKeys_def)
  note opened = open_keys [OF this, of opens, folded s']
  have listeners: "map_of (pf_listeners (reconcile_forwards opens inst s)) k = (if k \<notin> ?want then None
        else case map_of (pf_listeners s) k of Some ln \<Rightarrow> Some ln | None \<Rightarrow> opens k)" for k
    using opened [of k] kept [of k] by (auto split: option.split)
  have closed: "set (pf_closed (reconcile_forwards opens inst s))
      = set (pf_closed s) \<union> {ln. \<exists>key. map_of (pf_listeners s) key = Some ln \<and> key \<notin> ?want}"
    using opened map_of_wf [OF assms] by (force simp: image_iff)
  have "ExpandForwardedPorts [] = []"
    by (simp add: ExpandForwardedPorts_def expandForwardedPorts_def parseForwardedPorts_def)
  then have peers: "p \<in> set (forwardingPeers inst) \<and> port \<in> set (ExpandForwardedPorts (pr_ForwardedPorts p)) \<longleftrightarrow>
      p \<in> set (ai_Peers inst) \<and> pr_Email p \<noteq> [] \<and> map_of (desiredPeerTargets inst) (pr_Email p) \<noteq> None
      \<and> port \<in> set (ExpandForwardedPorts (pr_ForwardedPorts p))" for p port
    by (auto simp: forwardingPeers_def Let_def)
  have want: "\<lparr>fk_email = email, fk_port = port, fk_proto = proto\<rparr> \<in> ?want \<longleftrightarrow>
      (\<exists>p \<in> set (forwardingPeers inst). pr_Email p = email \<and> port \<in> set (ExpandForwardedPorts (pr_ForwardedPorts p)))"
    for email port proto
    by (cases proto) (auto simp: desiredPortForwardKeys_def peer_keys_def)
  have key: "key = \<lparr>fk_email = fk_email key, fk_port = fk_port key, fk_proto = fk_proto key\<rparr>" for key :: portForwardKey
    by (cases key) simp
  have owner: "ForwardedPortOwner inst port = None \<longleftrightarrow> (\<forall>key \<in> ?want. fk_port key \<noteq> port)" for port
  proof -
    have "ForwardedPortOwner inst port = None \<longleftrightarrow>
        (\<forall>p \<in> set (forwardingPeers inst). port \<notin> set (ExpandForwardedPorts (pr_ForwardedPorts p)))"
      by (auto simp: ForwardedPortOwner_def find_None_iff)
    also have "\<dots> \<longleftrightarrow> (\<forall>key \<in> ?want. fk_port key \<noteq> port)"
      using want key by (metis portForwardKey.select_convs(2))
    finally show ?thesis .
  qed
  have targets: "targetFor email (reconcile_forwards opens inst s) = map_of (desiredPeerTargets inst) email" for email
    using opened by (simp add: targetFor_def)
  have wanted: "\<lparr>fk_email = email, fk_port = port, fk_proto = proto\<rparr> \<in> ?want \<longleftrightarrow>
      email \<noteq> [] \<and> targetFor email (reconcile_forwards opens inst s) \<noteq> None
      \<and> (\<exists>p \<in> set (ai_Peers inst). pr_Email p = email \<and> port \<in> set (ExpandForwardedPorts (pr_ForwardedPorts p)))"
    for email port proto
    unfolding want targets using peers by blast
  have wf: "wf_map (pf_listeners (reconcile_forwards opens inst s))" using opened by blast
  show ?thesis
    unfolding Let_def using wf wanted closed owner listeners by blast
qed

definition demo_peer :: Peer where
  "demo_peer = \<lparr>pr_Email = ''a'', pr_AllowedIPs = [''10.8.1.2/32''], pr_ForwardedPorts = ''443; 80''\<rparr>"

definition demo_awg :: AwgInstance where
  "demo_awg = \<lparr>ai_Id = 1, ai_IPv6Enabled = False, ai_Peers = [demo_peer]\<rparr>"

lemma demo_awg_wanted: "\<lparr>fk_email = ''a'', fk_port = 443, fk_proto = udpForward\<rparr> \<in> set (desiredPortForwardKeys demo_awg)"
  by code_simp

theorem reconcile_forwards_exact_witness:
  "map_of (pf_listeners (reconcile_forwards (\<lambda>_. Some 5) demo_awg NewPortForwardSet))
      \<lparr>fk_email = ''a'', fk_port = 443, fk_proto = udpForward\<rparr> = Some 5"
proof -
  have "wf_map (pf_listeners NewPortForwardSet)" "pf_listeners NewPortForwardSet = []"
    by (simp_all add: NewPortForwardSet_def)
  with reconcile_forwards_exact [of NewPortForwardSet "\<lambda>_. Some 5" demo_awg] demo_awg_wanted
  show ?thesis by (auto simp: Let_def)
qed

end
