(* ===== verification/Go_Json.thy ===== *)
theory Go_Json
  imports Go_Prelude "HOL-Library.Char_ord" "HOL-Library.List_Lexorder"
begin

text \<open>
  The parts of \<open>encoding/json\<close> the panel relies on: values, the maps a decoded object becomes, the
  encoder, and decoding into a structure. Parsing text into a value is a parameter of the components.

  A value keeps the members of its objects in the order of the text, duplicates included, and its
  numbers as written (\<open>json.Number\<close>). Strings are the bytes of valid UTF-8, as decoding makes them.
\<close>

datatype json = JNull | JBool bool | JNum string | JStr string | JArr "json list" | JObj "(string \<times> json) list"

subsection \<open>Maps\<close>

text \<open>
  An object decoded into a \<open>map[string]any\<close> keeps the last of the members with a name, and the
  encoder writes the members sorted: \<open>canon\<close> is the value in that form.
\<close>

definition go_map :: "(string \<times> json) list \<Rightarrow> (string \<times> json) list" where
  "go_map m = sort_key fst (fold (\<lambda>(k, v). AList.update k v) m [])"

fun canon :: "json \<Rightarrow> json" where
  "canon (JObj m) = JObj (go_map (map (\<lambda>(k, v). (k, canon v)) m))"
| "canon (JArr vs) = JArr (map canon vs)"
| "canon v = v"

lemma fold_update_keys: "wf_map m0 \<Longrightarrow> wf_map (fold (\<lambda>(k, v). AList.update k v) m m0)"
  by (induction m arbitrary: m0) auto

lemma go_map_wf [simp]: "wf_map (go_map m)"
proof -
  let ?d = "fold (\<lambda>(k, v). AList.update k v) m []"
  have "distinct (map fst ?d)" using fold_update_keys [of "[]" m] by (simp add: wf_map_def)
  then have "distinct (map fst (sort_key fst ?d))"
    by (metis distinct_map distinct_sort inj_on_cong set_sort)
  then show ?thesis by (simp add: go_map_def wf_map_def)
qed

lemma go_map_sorted [simp]: "sorted (map fst (go_map m))"
  by (simp add: go_map_def)

lemma go_map_of: "map_of (go_map m) k = map_of (rev m) k"
proof -
  have *: "map_of (fold (\<lambda>(k, v). AList.update k v) m m0) = map_of m0 ++ map_of (rev m)" for m0
    by (induction m arbitrary: m0) (auto simp: map_add_assoc)
  let ?d = "fold (\<lambda>(k, v). AList.update k v) m []"
  have "map_of (go_map m) k = Some v \<longleftrightarrow> map_of ?d k = Some v" for v
    using map_of_wf [OF go_map_wf, of m k v] map_of_wf [OF fold_update_keys [OF wf_map_Nil], of m k v]
    by (simp add: go_map_def)
  then have "map_of (go_map m) k = map_of ?d k" by (metis option.exhaust)
  then show ?thesis by (simp add: *)
qed

subsection \<open>The encoder\<close>

definition backslash :: char where "backslash = CHR 0x5C"
definition dquote :: char where "dquote = CHR 0x22"

definition hex_char :: "nat \<Rightarrow> char" where
  "hex_char n = (if n < 10 then char_of (48 + n) else char_of (87 + n))"

definition escape_char :: "char \<Rightarrow> string" where
  "escape_char c =
     (if c = dquote \<or> c = backslash then [backslash, c]
      else if c = CHR 0x08 then [backslash, CHR ''b''] else if c = CHR 0x0C then [backslash, CHR ''f'']
      else if c = CHR 0x0A then [backslash, CHR ''n''] else if c = CHR 0x0D then [backslash, CHR ''r'']
      else if c = CHR 0x09 then [backslash, CHR ''t'']
      else if of_char c < (32::nat) \<or> c = CHR ''<'' \<or> c = CHR ''>'' \<or> c = CHR ''&'' then
        [backslash, CHR ''u'', CHR ''0'', CHR ''0'', hex_char (of_char c div 16), hex_char (of_char c mod 16)]
      else [c])"

text \<open>The line separators U+2028 and U+2029 are escaped too; other bytes outside ASCII are copied.\<close>

fun escape :: "string \<Rightarrow> string" where
  "escape [] = []"
| "escape (c # s) =
     (if c = CHR 0xE2 \<and> take 2 s = [CHR 0x80, CHR 0xA8] then backslash # ''u2028'' @ escape (drop 2 s)
      else if c = CHR 0xE2 \<and> take 2 s = [CHR 0x80, CHR 0xA9] then backslash # ''u2029'' @ escape (drop 2 s)
      else escape_char c @ escape s)"

definition json_quote :: "string \<Rightarrow> string" where
  "json_quote s = dquote # escape s @ [dquote]"

fun enc :: "json \<Rightarrow> string" and enc_list :: "json list \<Rightarrow> string" and enc_members :: "(string \<times> json) list \<Rightarrow> string" where
  "enc JNull = ''null''"
| "enc (JBool b) = (if b then ''true'' else ''false'')"
| "enc (JNum n) = n"
| "enc (JStr s) = json_quote s"
| "enc (JArr vs) = CHR ''['' # enc_list vs"
| "enc (JObj m) = CHR ''{'' # enc_members m"
| "enc_list [] = '']''"
| "enc_list [v] = enc v @ '']''"
| "enc_list (v # w # vs) = enc v @ CHR '','' # enc_list (w # vs)"
| "enc_members [] = ''}''"
| "enc_members [(k, v)] = json_quote k @ CHR '':'' # enc v @ ''}''"
| "enc_members ((k, v) # e # m) = json_quote k @ CHR '':'' # enc v @ CHR '','' # enc_members (e # m)"

text \<open>\<open>json.Marshal\<close> of a decoded value, which cannot fail.\<close>

definition marshal :: "json \<Rightarrow> string" where
  "marshal v = enc (canon v)"

subsection \<open>The encoding determines the value\<close>

fun simple_escape :: "char \<Rightarrow> char" where
  "simple_escape e = (if e = CHR ''b'' then CHR 0x08 else if e = CHR ''f'' then CHR 0x0C else if e = CHR ''n'' then CHR 0x0A
     else if e = CHR ''r'' then CHR 0x0D else if e = CHR ''t'' then CHR 0x09 else e)"

definition hex_value :: "char \<Rightarrow> nat" where
  "hex_value c = (if is_digit c then of_char c - 48 else of_char c - 87)"

fun unescape :: "string \<Rightarrow> (string \<times> string) option" where
  "unescape [] = None"
| "unescape (c # s) =
     (if c = dquote then Some ([], s)
      else if c \<noteq> backslash then map_option (apfst (Cons c)) (unescape s)
      else case s of [] \<Rightarrow> None
        | e # s \<Rightarrow>
            if e \<noteq> CHR ''u'' then map_option (apfst (Cons (simple_escape e))) (unescape s)
            else if take 3 s = ''202'' then
              map_option (apfst (\<lambda>t. CHR 0xE2 # CHR 0x80 # (if s ! 3 = CHR ''8'' then CHR 0xA8 else CHR 0xA9) # t)) (unescape (drop 4 s))
            else map_option (apfst (Cons (char_of (16 * hex_value (s ! 2) + hex_value (s ! 3))))) (unescape (drop 4 s)))"

lemma hex_value_char: "n < 16 \<Longrightarrow> hex_value (hex_char n) = n"
  by (auto simp: hex_value_def hex_char_def is_digit_def)

lemma unescape_char: "unescape (escape_char c @ r) = map_option (apfst (Cons c)) (unescape r)"
proof -
  let ?special = "of_char c < (32::nat) \<or> c = CHR ''<'' \<or> c = CHR ''>'' \<or> c = CHR ''&''"
  consider "c \<in> {dquote, backslash, CHR 0x08, CHR 0x0C, CHR 0x0A, CHR 0x0D, CHR 0x09}"
    | "c \<notin> {dquote, backslash, CHR 0x08, CHR 0x0C, CHR 0x0A, CHR 0x0D, CHR 0x09}" "?special"
    | "c \<notin> {dquote, backslash, CHR 0x08, CHR 0x0C, CHR 0x0A, CHR 0x0D, CHR 0x09}" "\<not> ?special" by blast
  then show ?thesis
  proof cases
    case 1
    then show ?thesis by (auto simp: escape_char_def dquote_def backslash_def)
  next
    case 2
    then have e: "escape_char c = [backslash, CHR ''u'', CHR ''0'', CHR ''0'', hex_char (of_char c div 16), hex_char (of_char c mod 16)]"
      unfolding escape_char_def by (simp only: insert_iff de_Morgan_disj if_True if_False simp_thms)
    have "(of_char c :: nat) div 16 < 16" using of_char_less_256 [of c] by (intro less_mult_imp_div_less) simp
    then have "char_of (16 * hex_value (hex_char (of_char c div 16)) + hex_value (hex_char (of_char c mod 16))) = c"
      by (simp add: hex_value_char)
    then show ?thesis unfolding e by (simp add: dquote_def backslash_def)
  next
    case 3
    then have "escape_char c = [c]" "c \<noteq> dquote" "c \<noteq> backslash"
      unfolding escape_char_def by (simp_all only: insert_iff de_Morgan_disj if_True if_False simp_thms)
    then show ?thesis by simp
  qed
qed

lemma unescape_escape: "unescape (escape s @ dquote # r) = Some (s, r)"
proof (induction s rule: escape.induct)
  case (2 c s)
  have sep: "s = [a, b] @ drop 2 s" if "take 2 s = [a, b]" for a b using that by (metis append_take_drop_id)
  show ?case
    using 2 sep [of "CHR 0x80" "CHR 0xA8"] sep [of "CHR 0x80" "CHR 0xA9"]
    by (auto simp: unescape_char dquote_def backslash_def)
qed (simp add: dquote_def)

text \<open>Values as the decoder makes them: numbers are in the grammar of JSON numbers.\<close>

definition num_char :: "char \<Rightarrow> bool" where
  "num_char c \<longleftrightarrow> is_digit c \<or> c \<in> set ''+-.eE''"

definition num_ok :: "string \<Rightarrow> bool" where
  "num_ok n \<longleftrightarrow> (case n of [] \<Rightarrow> False | c # _ \<Rightarrow> is_digit c \<or> c = CHR ''-'') \<and> list_all num_char n"

fun json_ok :: "json \<Rightarrow> bool" where
  "json_ok (JNum n) \<longleftrightarrow> num_ok n"
| "json_ok (JArr vs) \<longleftrightarrow> list_all json_ok vs"
| "json_ok (JObj m) \<longleftrightarrow> list_all json_ok (map snd m)"
| "json_ok _ \<longleftrightarrow> True"

definition delim :: "string \<Rightarrow> bool" where
  "delim r \<longleftrightarrow> (case r of [] \<Rightarrow> True | c # _ \<Rightarrow> c \<in> set '',]}'')"

lemma delim_simps [simp]: "delim []" "delim (CHR '','' # r)" "delim (CHR '']'' # r)" "delim (CHR ''}'' # r)"
  by (simp_all add: delim_def)

lemma quote_cancel: "json_quote k @ r = json_quote l @ s \<longleftrightarrow> k = l \<and> r = s"
proof
  assume "json_quote k @ r = json_quote l @ s"
  then have "unescape (escape k @ dquote # r) = unescape (escape l @ dquote # s)" by (simp add: json_quote_def)
  then show "k = l \<and> r = s" by (simp add: unescape_escape)
qed simp

lemma quote_hd: "json_quote k @ r = CHR 0x22 # escape k @ dquote # r"
  by (simp add: json_quote_def dquote_def)

lemma num_cancel:
  assumes "list_all num_char n" "list_all num_char m" "delim r" "delim s" "n @ r = m @ s"
  shows "n = m \<and> r = s"
proof -
  have nn: "\<not> num_char c" if "c \<in> set '',]}''" for c
    using that by (auto simp: num_char_def is_digit_def of_char_def)
  have "takeWhile num_char y = []" if "delim y" for y
    using that nn by (cases y) (simp_all add: delim_def)
  then have "takeWhile num_char (x @ y) = x" if "list_all num_char x" "delim y" for x y
    using that by (induction x) simp_all
  from this [OF assms(1,3)] this [OF assms(2,4)] show ?thesis using assms(5) by auto
qed

lemma not_digits: "\<not> is_digit (CHR ''n'')" "\<not> is_digit (CHR ''t'')" "\<not> is_digit (CHR ''f'')"
  "\<not> is_digit (CHR ''['')" "\<not> is_digit (CHR ''{'')" "\<not> is_digit (CHR 0x22)"
  by code_simp+

lemma enc_head_all:
  assumes "json_ok v" "c # x = enc v @ s"
  shows "c \<notin> set '',:]}'' \<and> (c = CHR ''n'' \<longleftrightarrow> v = JNull) \<and> (c = CHR ''t'' \<longleftrightarrow> v = JBool True)
    \<and> (c = CHR ''f'' \<longleftrightarrow> v = JBool False) \<and> (c = CHR ''['' \<longleftrightarrow> (\<exists>vs. v = JArr vs)) \<and> (c = CHR ''{'' \<longleftrightarrow> (\<exists>m. v = JObj m))
    \<and> (c = CHR 0x22 \<longleftrightarrow> (\<exists>s. v = JStr s)) \<and> (is_digit c \<or> c = CHR ''-'' \<longleftrightarrow> (\<exists>n. v = JNum n))"
proof -
  have num: "is_digit c \<or> c = CHR ''-''" if "v = JNum n" for n
    using that assms by (auto simp: num_ok_def split: list.splits)
  have d: "is_digit d \<or> d = CHR ''-'' \<Longrightarrow> d \<notin> set '',:]}ntf[{'' \<and> d \<noteq> CHR 0x22" for d
    by (auto simp: is_digit_def of_char_def)
  show ?thesis
  proof (cases v)
    case (JNum n)
    then show ?thesis using num [OF JNum] d [of c] by auto
  qed (use assms(2) in \<open>simp_all add: json_quote_def dquote_def not_digits split: if_splits\<close>)
qed

lemmas enc_head =
  enc_head_all [THEN conjunct1]
  enc_head_all [THEN conjunct2, THEN conjunct1]
  enc_head_all [THEN conjunct2, THEN conjunct2, THEN conjunct1]
  enc_head_all [THEN conjunct2, THEN conjunct2, THEN conjunct2, THEN conjunct1]
  enc_head_all [THEN conjunct2, THEN conjunct2, THEN conjunct2, THEN conjunct2, THEN conjunct1]
  enc_head_all [THEN conjunct2, THEN conjunct2, THEN conjunct2, THEN conjunct2, THEN conjunct2, THEN conjunct1]
  enc_head_all [THEN conjunct2, THEN conjunct2, THEN conjunct2, THEN conjunct2, THEN conjunct2, THEN conjunct2, THEN conjunct1]
  enc_head_all [THEN conjunct2, THEN conjunct2, THEN conjunct2, THEN conjunct2, THEN conjunct2, THEN conjunct2, THEN conjunct2]

lemma enc_not_closed: "json_ok v \<Longrightarrow> CHR '']'' # r \<noteq> enc v @ s" "json_ok v \<Longrightarrow> enc v @ s \<noteq> CHR '']'' # r"
  using enc_head(1) [of v "CHR '']''" r s] by fastforce+

lemma list_cases3 [case_names empty single more]:
  obtains "xs = []" | x where "xs = [x]" | x y ys where "xs = x # y # ys"
  by (metis list.exhaust)

lemma enc_inject_aux:
  "json_ok v \<Longrightarrow> json_ok w \<Longrightarrow> delim r \<Longrightarrow> delim s \<Longrightarrow> enc v @ r = enc w @ s \<Longrightarrow> v = w \<and> r = s"
  "list_all json_ok vs \<Longrightarrow> list_all json_ok ws \<Longrightarrow> enc_list vs @ r = enc_list ws @ s \<Longrightarrow> vs = ws \<and> r = s"
  "list_all json_ok (map snd m) \<Longrightarrow> list_all json_ok (map snd m') \<Longrightarrow> enc_members m @ r = enc_members m' @ s \<Longrightarrow> m = m' \<and> r = s"
proof (induction v and vs and m arbitrary: w r s and ws r s and m' r s rule: enc_enc_list_enc_members.induct)
  case 1
  then have "w = JNull" using enc_head(2) [of w "CHR ''n''" "''ull'' @ r" s] by simp
  then show ?case using 1 by simp
next
  case (2 b)
  have "w = JBool b"
    using 2 enc_head(3) [of w "CHR ''t''" "''rue'' @ r" s] enc_head(4) [of w "CHR ''f''" "''alse'' @ r" s] by (cases b) simp_all
  then show ?case using 2 by simp
next
  case (3 n)
  obtain c t where n: "n = c # t" "is_digit c \<or> c = CHR ''-''" "list_all num_char n"
    using 3(1) by (auto simp: num_ok_def split: list.splits)
  then obtain n' where w: "w = JNum n'" using 3(2,5) enc_head(8) [of w c "t @ r" s] by (metis append_Cons enc.simps(3))
  then have "list_all num_char n'" "n @ r = n' @ s" using 3(2,5) by (simp_all add: num_ok_def)
  then show ?case using num_cancel [OF n(3) _ 3(3,4), of n'] w by simp
next
  case (4 k)
  then obtain l where "w = JStr l" using enc_head(7) [of w "CHR 0x22" _ s] by (metis enc.simps(4) quote_hd)
  then show ?case using 4 by (simp add: quote_cancel)
next
  case (5 vs)
  then obtain ws where "w = JArr ws" using enc_head(5) [of w "CHR ''[''" "enc_list vs @ r" s] by (metis append_Cons enc.simps(5))
  then show ?case using 5(1) [of ws r s] 5(2-) by simp
next
  case (6 m)
  then obtain m' where "w = JObj m'" using enc_head(6) [of w "CHR ''{''" "enc_members m @ r" s] by (metis append_Cons enc.simps(6))
  then show ?case using 6(1) [of m' r s] 6(2-) by simp
next
  case 7
  then show ?case by (cases ws rule: list_cases3) (simp_all add: enc_not_closed)
next
  case (8 v)
  show ?case
  proof (cases ws rule: list_cases3)
    case empty
    then show ?thesis using 8 by (simp add: enc_not_closed)
  next
    case (single w)
    then show ?thesis using 8(1) [of w "'']'' @ r" "'']'' @ s"] 8(2-) by simp
  next
    case (more w w2 ws')
    then show ?thesis using 8(1) [of w "'']'' @ r" "CHR '','' # enc_list (w2 # ws') @ s"] 8(2-) by simp
  qed
next
  case (9 v v2 vs)
  show ?case
  proof (cases ws rule: list_cases3)
    case empty
    then show ?thesis using 9 by (simp add: enc_not_closed)
  next
    case (single w)
    then show ?thesis using 9(1) [of w "CHR '','' # enc_list (v2 # vs) @ r" "'']'' @ s"] 9(3-) by simp
  next
    case (more w w2 ws')
    then show ?thesis
      using 9(1) [of w "CHR '','' # enc_list (v2 # vs) @ r" "CHR '','' # enc_list (w2 # ws') @ s"] 9(2) [of "w2 # ws'" r s] 9(3-) by simp
  qed
next
  case 10
  then show ?case by (cases m' rule: list_cases3) (auto simp: quote_hd)
next
  case (11 k v)
  show ?case
  proof (cases m' rule: list_cases3)
    case empty
    then show ?thesis using 11 by (simp add: quote_hd)
  next
    case (single f)
    then show ?thesis using 11(1) [of "snd f" "''}'' @ r" "''}'' @ s"] 11(2-) by (cases f) (simp add: quote_cancel)
  next
    case (more f e m'')
    then show ?thesis using 11(1) [of "snd f" "''}'' @ r" "CHR '','' # enc_members (e # m'') @ s"] 11(2-) by (cases f) (simp add: quote_cancel)
  qed
next
  case (12 k v e m)
  show ?case
  proof (cases m' rule: list_cases3)
    case empty
    then show ?thesis using 12 by (simp add: quote_hd)
  next
    case (single f)
    then show ?thesis using 12(1) [of "snd f" "CHR '','' # enc_members (e # m) @ r" "''}'' @ s"] 12(3-) by (cases f) (simp add: quote_cancel)
  next
    case (more f e2 m'')
    then show ?thesis
      using 12(1) [of "snd f" "CHR '','' # enc_members (e # m) @ r" "CHR '','' # enc_members (e2 # m'') @ s"]
        12(2) [of "e2 # m''" r s] 12(3-) by (cases f) (simp add: quote_cancel)
  qed
qed

lemma json_ok_go_map: "list_all json_ok (map snd m) \<Longrightarrow> list_all json_ok (map snd (go_map m))"
proof -
  assume ok: "list_all json_ok (map snd m)"
  have "json_ok v" if "(k, v) \<in> set (go_map m)" for k v
  proof -
    have "map_of (rev m) k = Some v" using that map_of_wf [OF go_map_wf] go_map_of by metis
    then have "(k, v) \<in> set m" by (metis map_of_SomeD set_rev)
    then show ?thesis using ok by (force simp: list_all_iff)
  qed
  then show ?thesis by (auto simp: list_all_iff)
qed

lemma json_ok_canon: "json_ok v \<Longrightarrow> json_ok (canon v)"
proof (induction v rule: canon.induct)
  case (1 m)
  have "list_all json_ok (map snd (map (\<lambda>(k, v). (k, canon v)) m))" using 1 by (force simp: list_all_iff)
  then show ?case using json_ok_go_map by simp
qed (auto simp: list_all_iff)

lemma marshal_eq: "json_ok v \<Longrightarrow> json_ok w \<Longrightarrow> marshal v = marshal w \<longleftrightarrow> canon v = canon w"
  using enc_inject_aux(1) [of "canon v" "canon w" "[]" "[]"] json_ok_canon [of v] json_ok_canon [of w]
  unfolding marshal_def by (metis append_Nil2 delim_simps(1))

subsection \<open>Decoding into structures\<close>

text \<open>
  \<open>json.Unmarshal\<close> into a Go value is a function from the JSON value and the present Go value to the new
  one, or to \<open>None\<close> when it returns an error. Names of fields match regardless of case, \<open>null\<close> leaves a value as it
  is, members without a field are skipped, and each array is decoded afresh.
\<close>

definition into_string :: "json \<Rightarrow> string \<Rightarrow> string option" where
  "into_string v s = (case v of JStr t \<Rightarrow> Some t | JNull \<Rightarrow> Some s | _ \<Rightarrow> None)"

definition find_field :: "(string \<times> 'f) list \<Rightarrow> string \<Rightarrow> 'f option" where
  "find_field fields k = map_of (map (\<lambda>(n, f). (to_lower n, f)) fields) (to_lower k)"

definition into_struct :: "(string \<times> (json \<Rightarrow> 'a \<Rightarrow> 'a option)) list \<Rightarrow> json \<Rightarrow> 'a \<Rightarrow> 'a option" where
  "into_struct fields v a =
     (case v of
        JNull \<Rightarrow> Some a
      | JObj m \<Rightarrow> fold (\<lambda>(k, w) acc. case acc of None \<Rightarrow> None
          | Some a \<Rightarrow> (case find_field fields k of None \<Rightarrow> Some a | Some f \<Rightarrow> f w a)) m (Some a)
      | _ \<Rightarrow> None)"

fun decode_elements :: "(json \<Rightarrow> 'a \<Rightarrow> 'a option) \<Rightarrow> 'a \<Rightarrow> json list \<Rightarrow> 'a list option" where
  "decode_elements f zero [] = Some []"
| "decode_elements f zero (v # vs) =
     (case (f v zero, decode_elements f zero vs) of (Some a, Some as) \<Rightarrow> Some (a # as) | _ \<Rightarrow> None)"

definition into_slice :: "(json \<Rightarrow> 'a \<Rightarrow> 'a option) \<Rightarrow> 'a \<Rightarrow> json \<Rightarrow> 'a list \<Rightarrow> 'a list option" where
  "into_slice f zero v as = (case v of JNull \<Rightarrow> Some [] | JArr vs \<Rightarrow> decode_elements f zero vs | _ \<Rightarrow> None)"

text \<open>A type assertion \<open>m[k].(string)\<close> that yields the empty string when it fails.\<close>

definition str_field :: "(string \<times> json) list \<Rightarrow> string \<Rightarrow> string" where
  "str_field m k = (case map_of m k of Some (JStr s) \<Rightarrow> s | _ \<Rightarrow> [])"

end
