(* ===== verification/Port_Claims.thy ===== *)
theory Port_Claims
  imports Net_Addr Port_Forward Tuic_Types Tuic_Socks Go_Json
begin

unbundle bit_operations_syntax

text \<open>
  \<open>internal/web/service/port_conflict.go\<close>, what an inbound claims: its transports, its listen
  address, and the tag derived from them. The checks against the database are in \<open>Port_Conflict\<close>.

  The panel's surroundings are a record of parameters: the decoders of the stored JSON into the
  structures the code asks for, the configuration template and the port of the egress server. A
  \<open>map[string]any\<close> is an association list of \<open>json\<close> values.
\<close>

record InboundRow =
  rw_Id :: int
  rw_Remark :: string
  rw_Enable :: bool
  rw_Listen :: string
  rw_Port :: int
  rw_Protocol :: string
  rw_Settings :: string
  rw_StreamSettings :: string
  rw_Tag :: string
  rw_NodeID :: "int option"

record awg_client =
  ac_Enable :: bool
  ac_Email :: string
  ac_PublicKey :: string
  ac_AllowedIPs :: "string list"
  ac_ForwardedPorts :: string

record awg_server =
  as_KernelMode :: bool
  as_IPv6Enabled :: bool

record awg_settings =
  aw_Server :: "awg_server option"
  aw_Clients :: "awg_client list"

record bridge_route =
  br_RouteThroughXray :: bool
  br_XrayRoutingMode :: string
  br_TproxyPort :: int

record panel_env =
  pe_object :: "string \<Rightarrow> (string \<times> json) list option"
  pe_alpn :: "string \<Rightarrow> string list"
  pe_v6only :: "string \<Rightarrow> bool"
  pe_awg :: "string \<Rightarrow> awg_settings option"
  pe_route :: "string \<Rightarrow> bridge_route option"
  pe_wg_kernel :: "string \<Rightarrow> bool option"
  pe_behindCover :: "string \<Rightarrow> bool"
  pe_gateway_rows :: "string \<Rightarrow> nat"
  pe_tuic :: "string \<Rightarrow> parsed_settings option"
  pe_template :: "string option"
  pe_template_ports :: "string \<Rightarrow> (string \<times> int) list option"
  pe_template_tags :: "string \<Rightarrow> (string list \<times> string) option"
  pe_egress_port :: int

subsection \<open>Protocols\<close>

definition pHysteria :: string where "pHysteria = ''hysteria''"
definition pWireGuard :: string where "pWireGuard = ''wireguard''"
definition pAWG :: string where "pAWG = ''awg''"
definition pAmneziaWG :: string where "pAmneziaWG = ''amneziawg''"
definition pMTProto :: string where "pMTProto = ''mtproto''"
definition pNaive :: string where "pNaive = ''naive''"
definition pOlcrtc :: string where "pOlcrtc = ''olcrtc''"
definition pQwdtt :: string where "pQwdtt = ''qwdtt''"
definition pOpenflux :: string where "pOpenflux = ''openflux''"
definition pAnytls :: string where "pAnytls = ''anytls''"
definition pTproxy :: string where "pTproxy = ''tproxy''"
definition pCover :: string where "pCover = ''cover''"
definition pGateway :: string where "pGateway = ''gateway''"
definition pWgosocks :: string where "pWgosocks = ''wgosocks''"
definition pTrustTunnel :: string where "pTrustTunnel = ''trusttunnel''"
definition pMASQUE :: string where "pMASQUE = ''masque''"
definition pShadowsocks :: string where "pShadowsocks = ''shadowsocks''"
definition pTunnel :: string where "pTunnel = ''tunnel''"
definition pMixed :: string where "pMixed = ''mixed''"
definition pMieru :: string where "pMieru = ''mieru''"

lemmas protocol_defs = pHysteria_def pWireGuard_def pAWG_def pAmneziaWG_def pMTProto_def pNaive_def
  pOlcrtc_def pQwdtt_def pOpenflux_def pAnytls_def pTproxy_def pCover_def pGateway_def pWgosocks_def
  pTrustTunnel_def pMASQUE_def pShadowsocks_def pTunnel_def pMixed_def pMieru_def tuic_protocol_def

subsection \<open>Transports\<close>

type_synonym transportBits = "8 word"

definition transportTCP :: transportBits where "transportTCP = 1"
definition transportUDP :: transportBits where "transportUDP = 2"

definition masqueTransports :: "panel_env \<Rightarrow> string \<Rightarrow> transportBits" where
  "masqueTransports env streamSettings =
     (let alpn = pe_alpn env streamSettings; h2 = ''h2'' \<in> set alpn;
          bits = (if h2 then transportTCP else 0) in
      if \<not> h2 \<or> ''h3'' \<in> set alpn then bits OR transportUDP else bits)"

definition csv_transports :: "string \<Rightarrow> transportBits" where
  "csv_transports n = fold (\<lambda>part bits.
     let part = trim_space part in
     if part = ''tcp'' then bits OR transportTCP
     else if part = ''udp'' then bits OR transportUDP else bits) (split_on (CHR '','') n) 0"

definition mieru_transports :: "json list \<Rightarrow> transportBits" where
  "mieru_transports items = fold (\<lambda>item bits.
     case item of
       JObj m \<Rightarrow> if to_upper (trim_space (str_field m ''protocol'')) = ''UDP'' then bits OR transportUDP
                 else bits OR transportTCP
     | _ \<Rightarrow> bits) items 0"

definition settings_transports :: "string \<Rightarrow> (string \<times> json) list \<Rightarrow> transportBits \<Rightarrow> transportBits" where
  "settings_transports protocol st bits =
     (if protocol = pShadowsocks \<or> protocol = pTunnel then
        (let n = str_field st (if protocol = pTunnel then ''allowedNetwork'' else ''network'') in
         if n \<noteq> [] then csv_transports n else bits)
      else if protocol = pMixed then
        (if map_of st ''udp'' = Some (JBool True) then bits OR transportUDP else bits)
      else if protocol = pMieru then
        (case map_of st ''portBindings'' of Some (JArr items) \<Rightarrow> mieru_transports items | _ \<Rightarrow> 0)
      else bits)"

definition inboundTransports :: "panel_env \<Rightarrow> string \<Rightarrow> string \<Rightarrow> string \<Rightarrow> transportBits" where
  "inboundTransports env protocol streamSettings settings =
     (if protocol \<in> {pHysteria, pWireGuard, pAWG, pAmneziaWG, tuic_protocol} then transportUDP
      else if protocol \<in> {pMTProto, pNaive, pOlcrtc, pQwdtt, pOpenflux} then transportTCP
      else if protocol \<in> {pAnytls, pTproxy, pCover, pGateway, pWgosocks} then transportTCP
      else if protocol = pTrustTunnel then transportTCP OR transportUDP
      else if protocol = pMASQUE then masqueTransports env streamSettings
      else
        (let network = (if streamSettings = [] then []
               else case pe_object env streamSettings of None \<Rightarrow> [] | Some ss \<Rightarrow> str_field ss ''network'');
             bits = (if network = ''kcp'' \<or> network = ''quic'' then transportUDP else transportTCP);
             bits = (if settings = [] then bits
               else case pe_object env settings of None \<Rightarrow> bits | Some st \<Rightarrow> settings_transports protocol st bits) in
         if bits = 0 then transportTCP else bits))"

subsection \<open>Listen addresses\<close>

record bindAddr =
  ba_listen :: string
  ba_v6only :: bool

definition loopbackBind :: bindAddr where
  "loopbackBind = \<lparr>ba_listen = ''127.0.0.1'', ba_v6only = False\<rparr>"

definition streamV6Only :: "panel_env \<Rightarrow> string \<Rightarrow> bool" where
  "streamV6Only env streamSettings \<longleftrightarrow> contains_sub streamSettings ''v6only'' \<and> pe_v6only env streamSettings"

definition inboundBindAddr :: "panel_env \<Rightarrow> InboundRow \<Rightarrow> bindAddr" where
  "inboundBindAddr env ib = \<lparr>ba_listen = rw_Listen ib, ba_v6only = streamV6Only env (rw_StreamSettings ib)\<rparr>"

definition isAnyListen :: "string \<Rightarrow> bool" where
  "isAnyListen s \<longleftrightarrow> s = [] \<or> s = ''0.0.0.0'' \<or> s = ''::'' \<or> s = ''::0''"

definition familyIPv4 :: "8 word" where "familyIPv4 = 1"
definition familyIPv6 :: "8 word" where "familyIPv6 = 2"

definition bindFamilies :: "bindAddr \<Rightarrow> 8 word \<times> bool \<times> bool" where
  "bindFamilies a =
     (if isAnyListen (ba_listen a) then
        (if ba_v6only a then (familyIPv6, True, True) else (familyIPv4 OR familyIPv6, True, True))
      else case ParseIP (ba_listen a) of
        None \<Rightarrow> (0, False, False)
      | Some ip \<Rightarrow> if ip_to4 ip \<noteq> [] then (familyIPv4, False, True) else (familyIPv6, False, True))"

definition listenOverlaps :: "bindAddr \<Rightarrow> bindAddr \<Rightarrow> bool" where
  "listenOverlaps a b \<longleftrightarrow>
     (if ba_listen a = ba_listen b then True
      else case (bindFamilies a, bindFamilies b) of
        ((familiesA, wildcardA, okA), (familiesB, wildcardB, okB)) \<Rightarrow>
          if \<not> okA \<or> \<not> okB then wildcardA \<or> wildcardB
          else (wildcardA \<or> wildcardB) \<and> familiesA AND familiesB \<noteq> 0)"

subsection \<open>Kinds of inbound\<close>

definition amneziawgKernelModeSettings :: "panel_env \<Rightarrow> string \<Rightarrow> bool" where
  "amneziawgKernelModeSettings env raw =
     (case pe_awg env raw of
        None \<Rightarrow> False
      | Some s \<Rightarrow> (case aw_Server s of None \<Rightarrow> False | Some server \<Rightarrow> as_KernelMode server))"

definition amneziawgKernelMode :: "panel_env \<Rightarrow> InboundRow \<Rightarrow> bool" where
  "amneziawgKernelMode env ib \<longleftrightarrow> rw_Protocol ib = pAmneziaWG \<and> amneziawgKernelModeSettings env (rw_Settings ib)"

definition SettingsBehindCover :: "panel_env \<Rightarrow> string \<Rightarrow> string \<Rightarrow> bool" where
  "SettingsBehindCover env protocol settings \<longleftrightarrow>
     \<not> (protocol \<noteq> pNaive \<and> protocol \<noteq> pTproxy) \<and> pe_behindCover env settings"

definition gatewayOccupiesListen :: "panel_env \<Rightarrow> InboundRow \<Rightarrow> bool" where
  "gatewayOccupiesListen env ib \<longleftrightarrow>
     (if rw_Protocol ib \<noteq> pGateway then True
      else let raw = trim_space (rw_Settings ib) in
        0 < (if raw \<noteq> [] \<and> raw \<noteq> ''{}'' then pe_gateway_rows env raw else 0))"

definition IsLoopbackListen :: "string \<Rightarrow> bool" where
  "IsLoopbackListen listen \<longleftrightarrow> trim_space listen = ''127.0.0.1'' \<or> trim_space listen = ''::1''"

definition IsKernel :: "panel_env \<Rightarrow> InboundRow \<Rightarrow> bool" where
  "IsKernel env ib \<longleftrightarrow> rw_Protocol ib = pWireGuard \<and> pe_wg_kernel env (rw_Settings ib) = Some True"

definition sameNode :: "int option \<Rightarrow> int option \<Rightarrow> bool" where
  "sameNode a b = (case (a, b) of (None, None) \<Rightarrow> True | (Some x, Some y) \<Rightarrow> x = y | _ \<Rightarrow> False)"

text \<open>\<open>amneziawgnet.SOCKSPortForInbound\<close>; \<open>%\<close> keeps the sign of the dividend.\<close>

definition awgSOCKSBasePort :: int where "awgSOCKSBasePort = 65100"
definition awgRelayPortSlots :: int where "awgRelayPortSlots = 65535 - awgSOCKSBasePort"

definition awgSOCKSPortForInbound :: "int \<Rightarrow> int" where
  "awgSOCKSPortForInbound inboundID =
     awgSOCKSBasePort + 1 + (if inboundID - 1 < 0 then - ((1 - inboundID) mod awgRelayPortSlots)
                              else (inboundID - 1) mod awgRelayPortSlots)"

definition awgInstanceFromInbound :: "panel_env \<Rightarrow> InboundRow \<Rightarrow> AwgInstance option" where
  "awgInstanceFromInbound env ib =
     (if rw_Protocol ib \<noteq> pAmneziaWG then None
      else case pe_awg env (rw_Settings ib) of
        None \<Rightarrow> None
      | Some parsed \<Rightarrow> (case aw_Server parsed of
          None \<Rightarrow> None
        | Some server \<Rightarrow>
            let peers = map (\<lambda>c. \<lparr>pr_Email = ac_Email c, pr_AllowedIPs = ac_AllowedIPs c, pr_ForwardedPorts = ac_ForwardedPorts c\<rparr>)
                  (filter (\<lambda>c. \<not> (\<not> ac_Enable c \<or> ac_PublicKey c = [] \<or> ac_AllowedIPs c = [])) (aw_Clients parsed)) in
            if peers = [] then None
            else Some \<lparr>ai_Id = rw_Id ib, ai_IPv6Enabled = as_IPv6Enabled server, ai_Peers = peers\<rparr>))"

definition tuic_inbound :: "InboundRow \<Rightarrow> Inbound" where
  "tuic_inbound ib = \<lparr>ib_Id = rw_Id ib, ib_Tag = rw_Tag ib, ib_Listen = rw_Listen ib, ib_Port = rw_Port ib,
     ib_Protocol = rw_Protocol ib, ib_Settings = rw_Settings ib\<rparr>"

subsection \<open>Tags and messages\<close>

definition transportTagSuffix :: "transportBits \<Rightarrow> string" where
  "transportTagSuffix b =
     (if b = transportTCP then ''tcp'' else if b = transportUDP then ''udp''
      else if b = transportTCP OR transportUDP then ''tcpudp'' else ''any'')"

definition baseInboundTag :: "int \<Rightarrow> string" where
  "baseInboundTag port = ''in-'' @ itoa port"

definition nodeTagPrefix :: "int option \<Rightarrow> string" where
  "nodeTagPrefix nodeID = (case nodeID of None \<Rightarrow> [] | Some n \<Rightarrow> ''n'' @ itoa n @ ''-'')"

definition composeInboundTag :: "int \<Rightarrow> int option \<Rightarrow> transportBits \<Rightarrow> string" where
  "composeInboundTag port nodeID bits = nodeTagPrefix nodeID @ baseInboundTag port @ ''-'' @ transportTagSuffix bits"

definition isAutoGeneratedTag :: "string \<Rightarrow> int \<Rightarrow> int option \<Rightarrow> transportBits \<Rightarrow> bool" where
  "isAutoGeneratedTag tag port nodeID bits \<longleftrightarrow>
     (let base = composeInboundTag port nodeID bits in
      if tag = base then True
      else case cut_prefix tag (base @ ''-'') of
        None \<Rightarrow> False
      | Some suffix \<Rightarrow> if suffix = [] then False else list_all is_digit suffix)"

record portConflictDetail =
  pd_InboundID :: int
  pd_Remark :: string
  pd_Tag :: string
  pd_Listen :: string
  pd_Port :: int
  pd_Relay :: bool
  pd_ForwardedBy :: string
  pd_Transports :: transportBits

definition detail_String :: "portConflictDetail \<Rightarrow> string" where
  "detail_String d =
     (let name = (if pd_Remark d = [] then pd_Tag d else pd_Remark d);
          name = (if name = [] then ''#'' @ itoa (pd_InboundID d)
                  else if pd_InboundID d > 0 then [CHR 0x27] @ name @ [CHR 0x27] @ '' (#'' @ itoa (pd_InboundID d) @ '')''
                  else [CHR 0x27] @ name @ [CHR 0x27]);
          listen = (if isAnyListen (pd_Listen d) then ''*'' else pd_Listen d);
          port = (if pd_Relay d then ''relay port '' else ''port '') @ itoa (pd_Port d);
          transports = '' ('' @ transportTagSuffix (pd_Transports d) @ '')'' in
      if pd_ForwardedBy d \<noteq> [] then
        port @ transports @ '' already forwarded on inbound '' @ name @ '' on '' @ listen @ '' by its client '' @ pd_ForwardedBy d
      else port @ transports @ '' already used by inbound '' @ name @ '' on '' @ listen)"

subsection \<open>What a listen address claims\<close>

text \<open>
  The addresses a listen receives on, IPv4 ones in their mapped form: a wildcard all of them, or
  the IPv6 ones alone when it is restricted to IPv6; any other listen its address.
\<close>

definition addresses :: "bindAddr \<Rightarrow> bytes set" where
  "addresses a =
     (if isAnyListen (ba_listen a) then {ip. length ip = 16 \<and> (ba_v6only a \<longrightarrow> ip_to4 ip = [])}
      else case ParseIP (ba_listen a) of None \<Rightarrow> {} | Some ip \<Rightarrow> {ip})"

definition is_address :: "bindAddr \<Rightarrow> bool" where
  "is_address a \<longleftrightarrow> isAnyListen (ba_listen a) \<or> ParseIP (ba_listen a) \<noteq> None"

lemma family_bits [simp]: "familyIPv4 AND familyIPv6 = 0" "familyIPv6 AND familyIPv4 = 0"
  "familyIPv4 AND (familyIPv4 OR familyIPv6) = familyIPv4" "familyIPv6 AND (familyIPv4 OR familyIPv6) = familyIPv6"
  "(familyIPv4 OR familyIPv6) AND familyIPv4 = familyIPv4" "(familyIPv4 OR familyIPv6) AND familyIPv6 = familyIPv6"
  "familyIPv4 \<noteq> 0" "familyIPv6 \<noteq> 0" "familyIPv4 OR familyIPv6 \<noteq> 0"
  by (simp_all add: familyIPv4_def familyIPv6_def)

lemma zero_address: "ip_to4 (replicate 16 0) = []"
  by code_simp

lemma wildcards_meet:
  "isAnyListen (ba_listen a) \<Longrightarrow> isAnyListen (ba_listen b) \<Longrightarrow> addresses a \<inter> addresses b \<noteq> {}"
proof -
  assume "isAnyListen (ba_listen a)" "isAnyListen (ba_listen b)"
  then have "replicate 16 0 \<in> addresses a \<inter> addresses b"
    unfolding addresses_def using zero_address by simp
  then show ?thesis by blast
qed

lemma wildcard_meets:
  assumes "isAnyListen (ba_listen a)" "\<not> isAnyListen (ba_listen b)" "ParseIP (ba_listen b) = Some ip"
  shows "addresses a \<inter> addresses b \<noteq> {} \<longleftrightarrow> fst (bindFamilies a) AND fst (bindFamilies b) \<noteq> 0"
  using assms ParseIP_length [OF assms(3)] by (simp add: addresses_def bindFamilies_def)

lemma bind_wildcard: "is_address a \<Longrightarrow> snd (bindFamilies a) = (isAnyListen (ba_listen a), True)"
  by (auto simp: bindFamilies_def is_address_def split: option.splits)

text \<open>
  C11: two listens overlap exactly when they claim a common address, if they are IP addresses or
  wildcards; two addresses that are not wildcards are compared by their spelling.
\<close>

theorem listenOverlaps_exact:
  assumes "is_address a" "is_address b"
  shows "listenOverlaps a b \<longleftrightarrow> addresses a \<inter> addresses b \<noteq> {}
    \<and> (isAnyListen (ba_listen a) \<or> isAnyListen (ba_listen b) \<or> ba_listen a = ba_listen b)"
proof -
  obtain fa fb where f: "bindFamilies a = (fa, isAnyListen (ba_listen a), True)"
    "bindFamilies b = (fb, isAnyListen (ba_listen b), True)"
    using bind_wildcard [OF assms(1)] bind_wildcard [OF assms(2)] by (metis prod.collapse)
  consider (same) "ba_listen a = ba_listen b" "\<not> isAnyListen (ba_listen a)"
    | (both) "isAnyListen (ba_listen a)" "isAnyListen (ba_listen b)"
    | (left) "isAnyListen (ba_listen a)" "\<not> isAnyListen (ba_listen b)"
    | (right) "\<not> isAnyListen (ba_listen a)" "isAnyListen (ba_listen b)"
    | (none) "\<not> isAnyListen (ba_listen a)" "\<not> isAnyListen (ba_listen b)" "ba_listen a \<noteq> ba_listen b" by blast
  then show ?thesis
  proof cases
    case same
    then show ?thesis using assms by (auto simp: listenOverlaps_def addresses_def is_address_def)
  next
    case both
    have "fa AND fb \<noteq> 0" using f both by (auto simp: bindFamilies_def split: if_splits)
    then show ?thesis using both f wildcards_meet [OF both] by (simp add: listenOverlaps_def)
  next
    case left
    obtain ip where "ParseIP (ba_listen b) = Some ip" using assms(2) left by (auto simp: is_address_def)
    from wildcard_meets [OF left this] show ?thesis using left f by (auto simp: listenOverlaps_def)
  next
    case right
    obtain ip where "ParseIP (ba_listen a) = Some ip" using assms(1) right by (auto simp: is_address_def)
    from wildcard_meets [OF right(2,1) this] show ?thesis
      using right f by (auto simp: listenOverlaps_def Int_commute and.commute)
  next
    case none
    then show ?thesis using f by (simp add: listenOverlaps_def)
  qed
qed

theorem listenOverlaps_exact_witness:
  "listenOverlaps \<lparr>ba_listen = ''::'', ba_v6only = True\<rparr> \<lparr>ba_listen = ''::1'', ba_v6only = False\<rparr>
   \<and> \<not> listenOverlaps \<lparr>ba_listen = ''::'', ba_v6only = True\<rparr> \<lparr>ba_listen = ''127.0.0.1'', ba_v6only = False\<rparr>"
proof -
  have p: "ParseIP ''::1'' = Some (replicate 15 0 @ [1])" "ParseIP ''127.0.0.1'' = Some (v4_prefix @ [127, 0, 0, 1])"
    by code_simp+
  let ?w = "\<lparr>ba_listen = ''::'', ba_v6only = True\<rparr>"
  have "is_address ?w" "is_address \<lparr>ba_listen = ''::1'', ba_v6only = False\<rparr>"
    "is_address \<lparr>ba_listen = ''127.0.0.1'', ba_v6only = False\<rparr>"
    by (simp_all add: is_address_def isAnyListen_def p)
  note e = listenOverlaps_exact [OF this(1,2)] listenOverlaps_exact [OF this(1,3)]
  have "ip_to4 (replicate 15 0 @ [1]) = []" "ip_to4 (v4_prefix @ [127, 0, 0, 1]) \<noteq> []"
    "length (v4_prefix @ [127, 0, 0, 1]) = 16" by code_simp+
  then show ?thesis unfolding e by (simp add: addresses_def isAnyListen_def p)
qed

text \<open>So one IPv6 address spelled in two ways goes unnoticed.\<close>

lemma respelled_address:
  "ParseIP ''::1'' = ParseIP ''0:0:0:0:0:0:0:1''
   \<and> \<not> listenOverlaps \<lparr>ba_listen = ''::1'', ba_v6only = False\<rparr> \<lparr>ba_listen = ''0:0:0:0:0:0:0:1'', ba_v6only = False\<rparr>"
  by code_simp

subsection \<open>Tags\<close>

definition transport_set :: "transportBits \<Rightarrow> bool" where
  "transport_set b \<longleftrightarrow> b \<in> {0, transportTCP, transportUDP, transportTCP OR transportUDP}"

lemma transport_set_or: "transport_set b \<Longrightarrow> transport_set (b OR transportTCP) \<and> transport_set (b OR transportUDP)"
  by (auto simp: transport_set_def transportTCP_def transportUDP_def)

lemma transport_set_base [simp]: "transport_set 0" "transport_set transportTCP" "transport_set transportUDP"
  "transport_set (transportTCP OR transportUDP)"
  by (simp_all add: transport_set_def)

lemma transport_set_fold:
  "transport_set b \<Longrightarrow> (\<And>x b. transport_set b \<Longrightarrow> transport_set (f x b)) \<Longrightarrow> transport_set (fold f xs b)"
  by (induction xs arbitrary: b) simp_all

lemma csv_transport_set: "transport_set (csv_transports n)"
  unfolding csv_transports_def by (rule transport_set_fold) (simp_all add: Let_def transport_set_or)

lemma mieru_transport_set: "transport_set (mieru_transports items)"
  unfolding mieru_transports_def by (rule transport_set_fold) (simp_all add: transport_set_or split: json.split)

lemma settings_transport_set: "transport_set b \<Longrightarrow> transport_set (settings_transports protocol st b)"
  by (simp add: settings_transports_def Let_def transport_set_or csv_transport_set mieru_transport_set
      split: option.split json.split)

text \<open>Whatever its settings say, an inbound claims TCP, UDP or both.\<close>

lemma transports_cases:
  "inboundTransports env protocol ss st \<in> {transportTCP, transportUDP, transportTCP OR transportUDP}"
proof -
  have "transport_set (inboundTransports env protocol ss st)"
    unfolding inboundTransports_def masqueTransports_def Let_def
    by (auto simp: settings_transport_set transport_set_or split: option.split)
  moreover have "inboundTransports env protocol ss st \<noteq> 0"
    unfolding inboundTransports_def masqueTransports_def Let_def
    by (auto simp: transportTCP_def transportUDP_def)
  ultimately show ?thesis by (auto simp: transport_set_def)
qed

lemma suffix_inject:
  assumes "b \<in> {transportTCP, transportUDP, transportTCP OR transportUDP}"
    "c \<in> {transportTCP, transportUDP, transportTCP OR transportUDP}"
  shows "transportTagSuffix b = transportTagSuffix c \<longleftrightarrow> b = c"
  using assms by (auto simp: transportTagSuffix_def transportTCP_def transportUDP_def)

lemma not_dash: "CHR ''-'' \<notin> set (itoa n)" if "0 \<le> n"
  using that minus_not_digit by (simp add: itoa_def)

lemma baseInboundTag_dash: "0 \<le> port \<Longrightarrow> baseInboundTag port @ CHR ''-'' # s = ''in-'' @ (itoa port @ CHR ''-'' # s)"
  by (simp add: baseInboundTag_def)

text \<open>
  C12: the generated tag tells what an inbound binds. Two inbounds, local or on nodes, have the same
  tag before numbering exactly when they have the same port, node and transports; and a tag is
  recognised as generated exactly when it is that tag, possibly followed by a number.
\<close>

theorem composeInboundTag_inject:
  assumes "0 \<le> port" "0 \<le> port'" "\<forall>n \<in> set_option node \<union> set_option node'. 0 \<le> n"
    "bits = inboundTransports env protocol ss st" "bits' = inboundTransports env' protocol' ss' st'"
  shows "(composeInboundTag port node bits = composeInboundTag port' node' bits'
      \<longleftrightarrow> port = port' \<and> node = node' \<and> bits = bits')
    \<and> (isAutoGeneratedTag tag port node bits \<longleftrightarrow> tag = composeInboundTag port node bits
        \<or> (\<exists>k. k \<noteq> [] \<and> list_all is_digit k \<and> tag = composeInboundTag port node bits @ ''-'' @ k))"
proof -
  have base: "''in-'' @ itoa port @ ''-'' @ transportTagSuffix bits = ''in-'' @ itoa port' @ ''-'' @ transportTagSuffix bits'
      \<longleftrightarrow> port = port' \<and> bits = bits'"
    using split_at [OF not_dash [OF assms(1)] not_dash [OF assms(2)]] suffix_inject assms(4,5) transports_cases by auto
  have "composeInboundTag port node bits = composeInboundTag port' node' bits'
      \<longleftrightarrow> port = port' \<and> node = node' \<and> bits = bits'"
  proof (cases node; cases node')
    fix n n' assume n: "node = Some n" "node' = Some n'"
    then have "0 \<le> n" "0 \<le> n'" using assms(3) by auto
    from split_at [OF not_dash [OF this(1)] not_dash [OF this(2)]] base show ?thesis
      by (auto simp: n composeInboundTag_def nodeTagPrefix_def baseInboundTag_def)
  qed (use base in \<open>auto simp: composeInboundTag_def nodeTagPrefix_def baseInboundTag_def\<close>)
  moreover have "isAutoGeneratedTag tag port node bits \<longleftrightarrow> tag = composeInboundTag port node bits
        \<or> (\<exists>k. k \<noteq> [] \<and> list_all is_digit k \<and> tag = composeInboundTag port node bits @ ''-'' @ k)"
  proof (cases "cut_prefix tag (composeInboundTag port node bits @ ''-'')")
    case None
    then have "tag \<noteq> composeInboundTag port node bits @ ''-'' @ k" for k
      using cut_prefix_Some [of tag "composeInboundTag port node bits @ ''-''" k] by auto
    then show ?thesis using None by (simp add: isAutoGeneratedTag_def Let_def)
  next
    case (Some suffix)
    have "tag = (composeInboundTag port node bits @ ''-'') @ suffix" using Some by (simp only: cut_prefix_Some)
    moreover have "isAutoGeneratedTag tag port node bits
        \<longleftrightarrow> tag = composeInboundTag port node bits \<or> (suffix \<noteq> [] \<and> list_all is_digit suffix)"
      by (simp add: isAutoGeneratedTag_def Let_def Some)
    ultimately show ?thesis by auto
  qed
  ultimately show ?thesis by blast
qed

theorem composeInboundTag_inject_witness:
  "composeInboundTag 443 None transportTCP \<noteq> composeInboundTag 443 (Some 2) transportTCP
   \<and> isAutoGeneratedTag ''in-443-tcp-7'' 443 None transportTCP"
proof -
  define env :: panel_env where "env = \<lparr>pe_object = \<lambda>_. None, pe_alpn = \<lambda>_. [], pe_v6only = \<lambda>_. False,
     pe_awg = \<lambda>_. None, pe_route = \<lambda>_. None, pe_wg_kernel = \<lambda>_. None, pe_behindCover = \<lambda>_. False,
     pe_gateway_rows = \<lambda>_. 0, pe_tuic = \<lambda>_. None, pe_template = None, pe_template_ports = \<lambda>_. None,
     pe_template_tags = \<lambda>_. None, pe_egress_port = 0\<rparr>"
  have "transportTCP = inboundTransports env ''naive'' [] []"
    by (simp add: inboundTransports_def protocol_defs)
  note tcp = this
  have "itoa 443 = ''443''" by code_simp
  then have "''in-443-tcp-7'' = composeInboundTag 443 None transportTCP @ ''-'' @ ''7''"
    by (simp add: composeInboundTag_def nodeTagPrefix_def baseInboundTag_def transportTagSuffix_def)
  moreover have "list_all is_digit ''7''" by (simp add: is_digit_def of_char_def)
  ultimately have "isAutoGeneratedTag ''in-443-tcp-7'' 443 None transportTCP"
    using composeInboundTag_inject [of 443 443 None None, OF _ _ _ tcp tcp, of "''in-443-tcp-7''"]
    by (metis empty_iff Un_iff list.distinct(1) option.simps(14) order_refl zero_le_numeral)
  moreover have "composeInboundTag 443 None transportTCP \<noteq> composeInboundTag 443 (Some 2) transportTCP"
    using composeInboundTag_inject [of 443 443 None "Some 2", OF _ _ _ tcp tcp] by simp
  ultimately show ?thesis by blast
qed

end
