(* ===== verification/Port_Conflict.thy ===== *)
theory Port_Conflict
  imports Port_Claims
begin

text \<open>
  \<open>internal/web/service/port_conflict.go\<close>, the checks of a new or changed inbound against the
  database, and the choice of its tag.

  The database is the list of its rows; a query filters it, or fails when the connection does.
\<close>

record Database =
  db_rows :: "InboundRow list"
  db_ok :: bool

datatype conflict_err = DbError | SelfConflict string | TemplateError | NoUniqueTag int

definition query :: "Database \<Rightarrow> (InboundRow \<Rightarrow> bool) \<Rightarrow> conflict_err + InboundRow list" where
  "query db P = (if db_ok db then Inr (filter P (db_rows db)) else Inl DbError)"

definition not_ignored :: "int \<Rightarrow> InboundRow \<Rightarrow> bool" where
  "not_ignored ignoreId c \<longleftrightarrow> ignoreId > 0 \<longrightarrow> rw_Id c \<noteq> ignoreId"

definition row_detail :: "InboundRow \<Rightarrow> string \<Rightarrow> int \<Rightarrow> bool \<Rightarrow> transportBits \<Rightarrow> portConflictDetail" where
  "row_detail c listen port relay bits =
     \<lparr>pd_InboundID = rw_Id c, pd_Remark = rw_Remark c, pd_Tag = rw_Tag c, pd_Listen = listen, pd_Port = port,
      pd_Relay = relay, pd_ForwardedBy = [], pd_Transports = bits\<rparr>"

text \<open>The first row of a query that a check objects to.\<close>

definition first_conflict ::
  "Database \<Rightarrow> (InboundRow \<Rightarrow> bool) \<Rightarrow> (InboundRow \<Rightarrow> bool) \<Rightarrow> (InboundRow \<Rightarrow> portConflictDetail)
   \<Rightarrow> conflict_err + portConflictDetail option" where
  "first_conflict db Q P detail =
     (case query db Q of Inl e \<Rightarrow> Inl e | Inr rows \<Rightarrow> Inr (map_option detail (List.find P rows)))"

text \<open>Checks run one after the other until one objects or fails.\<close>

definition and_then :: "conflict_err + portConflictDetail option \<Rightarrow> (conflict_err + portConflictDetail option)
    \<Rightarrow> conflict_err + portConflictDetail option" where
  "and_then r next_check = (case r of Inl e \<Rightarrow> Inl e | Inr (Some d) \<Rightarrow> Inr (Some d) | Inr None \<Rightarrow> next_check)"

subsection \<open>Reserved ports of the panel\<close>

definition defaultXrayAPIPort :: int where "defaultXrayAPIPort = 62789"

definition reservedAPIPort :: "panel_env \<Rightarrow> int" where
  "reservedAPIPort env =
     (case pe_template env of
        None \<Rightarrow> defaultXrayAPIPort
      | Some tmpl \<Rightarrow>
          if tmpl = [] then defaultXrayAPIPort
          else case pe_template_ports env tmpl of
            None \<Rightarrow> defaultXrayAPIPort
          | Some inbounds \<Rightarrow> (case List.find (\<lambda>(tag, port). tag = ''api'' \<and> port > 0) inbounds of
              None \<Rightarrow> defaultXrayAPIPort | Some (_, port) \<Rightarrow> port))"

definition system_detail :: "string \<Rightarrow> int \<Rightarrow> portConflictDetail" where
  "system_detail tag port =
     \<lparr>pd_InboundID = 0, pd_Remark = [], pd_Tag = tag, pd_Listen = ''127.0.0.1'', pd_Port = port,
      pd_Relay = False, pd_ForwardedBy = [], pd_Transports = transportTCP\<rparr>"

definition on_loopback :: "panel_env \<Rightarrow> InboundRow \<Rightarrow> bool" where
  "on_loopback env ib \<longleftrightarrow> rw_NodeID ib = None \<and> listenOverlaps loopbackBind (inboundBindAddr env ib)"

definition check_bridges :: "panel_env \<Rightarrow> Database \<Rightarrow> InboundRow \<Rightarrow> int \<Rightarrow> transportBits
    \<Rightarrow> conflict_err + portConflictDetail option" where
  "check_bridges env db inbound ignoreId newBits =
     (if on_loopback env inbound then
        first_conflict db
          (\<lambda>b. rw_Protocol b \<in> {pAWG, pWireGuard} \<and> rw_NodeID b = None \<and> rw_Id b \<noteq> ignoreId)
          (\<lambda>b. case pe_route env (rw_Settings b) of
             None \<Rightarrow> False
           | Some route \<Rightarrow> ((br_RouteThroughXray route \<and> br_XrayRoutingMode route = ''tproxy'') \<or> IsKernel env b)
               \<and> br_TproxyPort route = rw_Port inbound)
          (\<lambda>b. row_detail b ''127.0.0.1'' (rw_Port inbound) True newBits)
      else Inr None)"

definition check_system :: "panel_env \<Rightarrow> InboundRow \<Rightarrow> transportBits \<Rightarrow> portConflictDetail option" where
  "check_system env inbound newBits =
     (if rw_NodeID inbound = None \<and> rw_Port inbound = reservedAPIPort env
         \<and> newBits AND transportTCP \<noteq> 0 \<and> listenOverlaps loopbackBind (inboundBindAddr env inbound)
      then Some (system_detail ''api'' (rw_Port inbound))
      else if rw_NodeID inbound = None \<and> rw_Port inbound = pe_egress_port env
         \<and> newBits AND transportTCP \<noteq> 0 \<and> listenOverlaps loopbackBind (inboundBindAddr env inbound)
      then Some (system_detail ''amneziawg-egress'' (rw_Port inbound))
      else None)"

subsection \<open>Relay ports of embedded inbounds\<close>

definition checkAmneziawgnetSocksConflict where
  "checkAmneziawgnetSocksConflict env db inbound ignoreId newBits =
     first_conflict db
       (\<lambda>c. rw_Protocol c = pAmneziaWG \<and> rw_NodeID c = None \<and> not_ignored ignoreId c)
       (\<lambda>c. \<not> amneziawgKernelMode env c \<and> awgSOCKSPortForInbound (rw_Id c) = rw_Port inbound)
       (\<lambda>c. row_detail c ''127.0.0.1'' (rw_Port inbound) False newBits)"

definition checkAmneziawgnetSocksRelayCollision where
  "checkAmneziawgnetSocksRelayCollision env db i =
     first_conflict db
       (\<lambda>c. rw_Protocol c = pAmneziaWG \<and> rw_NodeID c = None \<and> rw_Id c \<noteq> i)
       (\<lambda>c. \<not> amneziawgKernelMode env c \<and> awgSOCKSPortForInbound (rw_Id c) = awgSOCKSPortForInbound i)
       (\<lambda>c. row_detail c ''127.0.0.1'' (awgSOCKSPortForInbound i) True transportTCP)"

definition amneziawgnetSocksSelfConflict :: "panel_env \<Rightarrow> InboundRow \<Rightarrow> int \<Rightarrow> string" where
  "amneziawgnetSocksSelfConflict env inbound i =
     (if i \<le> 0 \<or> rw_NodeID inbound \<noteq> None \<or> amneziawgKernelMode env inbound
         \<or> \<not> listenOverlaps loopbackBind (inboundBindAddr env inbound) then []
      else if rw_Port inbound \<noteq> awgSOCKSPortForInbound i then []
      else ''WireGuard port '' @ itoa (awgSOCKSPortForInbound i) @ '' is inbound #'' @ itoa i
        @ [CHR 0x27] @ ''s own SOCKS5 relay port on 127.0.0.1; choose a different WireGuard port'')"

definition checkAmneziawgnetSocksReverseConflict where
  "checkAmneziawgnetSocksReverseConflict env db i =
     first_conflict db
       (\<lambda>c. rw_Port c = awgSOCKSPortForInbound i \<and> rw_NodeID c = None \<and> rw_Id c \<noteq> i)
       (\<lambda>c. \<not> amneziawgKernelMode env c \<and> listenOverlaps loopbackBind (inboundBindAddr env c))
       (\<lambda>c. row_detail c (rw_Listen c) (awgSOCKSPortForInbound i) True transportTCP)"

definition checkTuicSocksConflict where
  "checkTuicSocksConflict env db inbound ignoreId newBits =
     first_conflict db
       (\<lambda>c. rw_Protocol c = tuic_protocol \<and> rw_NodeID c = None \<and> not_ignored ignoreId c)
       (\<lambda>c. InstanceFromInbound (pe_tuic env) (Some (tuic_inbound c)) \<noteq> None \<and> SOCKSPortForInbound (rw_Id c) = rw_Port inbound)
       (\<lambda>c. row_detail c ''127.0.0.1'' (rw_Port inbound) False newBits)"

definition checkTuicSocksRelayCollision :: "Database \<Rightarrow> int \<Rightarrow> conflict_err + portConflictDetail option" where
  "checkTuicSocksRelayCollision db i =
     first_conflict db
       (\<lambda>c. rw_Protocol c = tuic_protocol \<and> rw_NodeID c = None \<and> rw_Id c \<noteq> i)
       (\<lambda>c. SOCKSPortForInbound (rw_Id c) = SOCKSPortForInbound i)
       (\<lambda>c. row_detail c ''127.0.0.1'' (SOCKSPortForInbound i) True transportTCP)"

definition tuicSocksSelfConflict :: "panel_env \<Rightarrow> InboundRow \<Rightarrow> int \<Rightarrow> string" where
  "tuicSocksSelfConflict env inbound i =
     (if i \<le> 0 \<or> rw_NodeID inbound \<noteq> None \<or> \<not> listenOverlaps loopbackBind (inboundBindAddr env inbound) then []
      else if rw_Port inbound \<noteq> SOCKSPortForInbound i then []
      else ''TUIC port '' @ itoa (SOCKSPortForInbound i) @ '' is inbound #'' @ itoa i
        @ [CHR 0x27] @ ''s own SOCKS5 relay port on 127.0.0.1; choose a different TUIC port'')"

definition checkTuicSocksReverseConflict where
  "checkTuicSocksReverseConflict env db i =
     first_conflict db
       (\<lambda>c. rw_Port c = SOCKSPortForInbound i \<and> rw_NodeID c = None \<and> rw_Id c \<noteq> i)
       (\<lambda>c. listenOverlaps loopbackBind (inboundBindAddr env c))
       (\<lambda>c. row_detail c (rw_Listen c) (SOCKSPortForInbound i) True transportTCP)"

definition check_relays where
  "check_relays env db inbound ignoreId newBits =
     (if on_loopback env inbound then
        and_then (checkAmneziawgnetSocksConflict env db inbound ignoreId newBits)
          (checkTuicSocksConflict env db inbound ignoreId newBits)
      else Inr None)"

definition check_own_awg_relay where
  "check_own_awg_relay env db inbound ignoreId =
     (if rw_NodeID inbound = None \<and> rw_Protocol inbound = pAmneziaWG \<and> ignoreId > 0 \<and> \<not> amneziawgKernelMode env inbound then
        (if amneziawgnetSocksSelfConflict env inbound ignoreId \<noteq> []
         then Inl (SelfConflict (amneziawgnetSocksSelfConflict env inbound ignoreId))
         else and_then (checkAmneziawgnetSocksRelayCollision env db ignoreId)
           (checkAmneziawgnetSocksReverseConflict env db ignoreId))
      else Inr None)"

definition check_own_tuic_relay where
  "check_own_tuic_relay env db inbound ignoreId =
     (if rw_NodeID inbound = None \<and> rw_Protocol inbound = tuic_protocol \<and> ignoreId > 0 then
        (if tuicSocksSelfConflict env inbound ignoreId \<noteq> []
         then Inl (SelfConflict (tuicSocksSelfConflict env inbound ignoreId))
         else and_then (checkTuicSocksRelayCollision db ignoreId) (checkTuicSocksReverseConflict env db ignoreId))
      else Inr None)"

subsection \<open>Forwarded ports and rows\<close>

definition forwards_port :: "panel_env \<Rightarrow> InboundRow \<Rightarrow> InboundRow \<Rightarrow> string option" where
  "forwards_port env inbound row =
     (if \<not> sameNode (rw_NodeID row) (rw_NodeID inbound) \<or> amneziawgKernelMode env row then None
      else case awgInstanceFromInbound env row of
        None \<Rightarrow> None | Some inst \<Rightarrow> ForwardedPortOwner inst (rw_Port inbound))"

definition amneziawgForwardedPortOwner where
  "amneziawgForwardedPortOwner env db inbound ignoreId =
     first_conflict db
       (\<lambda>row. rw_Protocol row = pAmneziaWG \<and> not_ignored ignoreId row)
       (\<lambda>row. forwards_port env inbound row \<noteq> None)
       (\<lambda>row. (row_detail row [] (rw_Port inbound) False 0)\<lparr>pd_ForwardedBy := the (forwards_port env inbound row)\<rparr>)"

definition row_objects :: "panel_env \<Rightarrow> InboundRow \<Rightarrow> transportBits \<Rightarrow> InboundRow \<Rightarrow> bool" where
  "row_objects env inbound newBits c \<longleftrightarrow>
     \<not> SettingsBehindCover env (rw_Protocol c) (rw_Settings c) \<and> gatewayOccupiesListen env c
     \<and> sameNode (rw_NodeID c) (rw_NodeID inbound)
     \<and> listenOverlaps (inboundBindAddr env c) (inboundBindAddr env inbound)
     \<and> inboundTransports env (rw_Protocol c) (rw_StreamSettings c) (rw_Settings c) AND newBits \<noteq> 0"

definition check_rows where
  "check_rows env db inbound ignoreId newBits =
     first_conflict db (\<lambda>c. rw_Port c = rw_Port inbound \<and> not_ignored ignoreId c)
       (row_objects env inbound newBits)
       (\<lambda>c. row_detail c (rw_Listen c) (rw_Port c) False
          (inboundTransports env (rw_Protocol c) (rw_StreamSettings c) (rw_Settings c) AND newBits))"

definition checkCoverHTTPPorts where
  "checkCoverHTTPPorts env db inbound ignoreId newBits =
     (if newBits AND transportTCP = 0 then Inr None
      else and_then
        (if rw_Protocol inbound = pCover \<and> \<not> IsLoopbackListen (rw_Listen inbound) then
           first_conflict db (\<lambda>c. rw_Port c = 80 \<and> not_ignored ignoreId c)
             (\<lambda>c. \<not> SettingsBehindCover env (rw_Protocol c) (rw_Settings c)
                \<and> sameNode (rw_NodeID c) (rw_NodeID inbound)
                \<and> listenOverlaps (inboundBindAddr env c) (inboundBindAddr env inbound)
                \<and> inboundTransports env (rw_Protocol c) (rw_StreamSettings c) (rw_Settings c) AND transportTCP \<noteq> 0)
             (\<lambda>c. row_detail c (rw_Listen c) 80 False transportTCP)
         else Inr None)
        (if rw_Port inbound \<noteq> 80 then Inr None
         else first_conflict db (\<lambda>c. rw_Protocol c = pCover \<and> not_ignored ignoreId c)
             (\<lambda>c. rw_Enable c \<and> \<not> IsLoopbackListen (rw_Listen c) \<and> sameNode (rw_NodeID c) (rw_NodeID inbound)
                \<and> listenOverlaps (inboundBindAddr env c) (inboundBindAddr env inbound))
             (\<lambda>c. row_detail c (rw_Listen c) 80 False transportTCP)))"

definition with_transports :: "transportBits \<Rightarrow> conflict_err + portConflictDetail option
    \<Rightarrow> conflict_err + portConflictDetail option" where
  "with_transports bits r = map_sum id (map_option (\<lambda>d. d\<lparr>pd_Transports := bits\<rparr>)) r"

definition checkPortConflictTx :: "panel_env \<Rightarrow> Database \<Rightarrow> InboundRow \<Rightarrow> int \<Rightarrow> conflict_err + portConflictDetail option" where
  "checkPortConflictTx env db inbound ignoreId =
     (if rw_Port inbound \<le> 0 then Inr None
      else if \<not> gatewayOccupiesListen env inbound then Inr None
      else if SettingsBehindCover env (rw_Protocol inbound) (rw_Settings inbound) then Inr None
      else
        let newBits = inboundTransports env (rw_Protocol inbound) (rw_StreamSettings inbound) (rw_Settings inbound) in
        and_then (check_bridges env db inbound ignoreId newBits)
        (and_then (Inr (check_system env inbound newBits))
        (and_then (check_relays env db inbound ignoreId newBits)
        (and_then (check_own_awg_relay env db inbound ignoreId)
        (and_then (with_transports newBits (amneziawgForwardedPortOwner env db inbound ignoreId))
        (and_then (check_own_tuic_relay env db inbound ignoreId)
        (and_then (check_rows env db inbound ignoreId newBits)
          (checkCoverHTTPPorts env db inbound ignoreId newBits))))))))"

definition checkPortConflict :: "panel_env \<Rightarrow> Database \<Rightarrow> InboundRow \<Rightarrow> int \<Rightarrow> conflict_err + portConflictDetail option" where
  "checkPortConflict env db inbound ignoreId = checkPortConflictTx env db inbound ignoreId"

subsection \<open>Tags\<close>

definition templateInboundTags :: "panel_env \<Rightarrow> conflict_err + string list" where
  "templateInboundTags env =
     (case pe_template env of
        None \<Rightarrow> Inl TemplateError
      | Some raw \<Rightarrow> (case pe_template_tags env raw of
          None \<Rightarrow> Inl TemplateError
        | Some (tags, api) \<Rightarrow> Inr (''api'' # (if api \<noteq> [] then [api] else []) @ filter (\<lambda>t. t \<noteq> []) tags)))"

definition tagExists :: "panel_env \<Rightarrow> Database \<Rightarrow> string \<Rightarrow> int \<Rightarrow> conflict_err + bool" where
  "tagExists env db tag ignoreId =
     (case templateInboundTags env of
        Inl e \<Rightarrow> Inl e
      | Inr reserved \<Rightarrow>
          if tag \<in> set reserved then Inr True
          else (case query db (\<lambda>c. rw_Tag c = tag \<and> not_ignored ignoreId c) of
              Inl e \<Rightarrow> Inl e | Inr rows \<Rightarrow> Inr (rows \<noteq> [])))"

text \<open>The numbered candidates are tried from \<open>i\<close> below 100.\<close>

function numbered_tag :: "panel_env \<Rightarrow> Database \<Rightarrow> string \<Rightarrow> int \<Rightarrow> int \<Rightarrow> int \<Rightarrow> conflict_err + string" where
  "numbered_tag env db candidate ignoreId port i =
     (if 100 \<le> i then Inl (NoUniqueTag port)
      else let c = candidate @ ''-'' @ itoa i in
        (case tagExists env db c ignoreId of
           Inl e \<Rightarrow> Inl e
         | Inr False \<Rightarrow> Inr c
         | Inr True \<Rightarrow> numbered_tag env db candidate ignoreId port (i + 1)))"
  by pat_completeness auto
termination
  by (relation "measure (\<lambda>(_, _, _, _, _, i). nat (100 - i))") auto

declare numbered_tag.simps [simp del]

definition generateInboundTag :: "panel_env \<Rightarrow> Database \<Rightarrow> InboundRow \<Rightarrow> int \<Rightarrow> conflict_err + string" where
  "generateInboundTag env db inbound ignoreId =
     (let bits = inboundTransports env (rw_Protocol inbound) (rw_StreamSettings inbound) (rw_Settings inbound);
          candidate = composeInboundTag (rw_Port inbound) (rw_NodeID inbound) bits in
      case tagExists env db candidate ignoreId of
        Inl e \<Rightarrow> Inl e
      | Inr False \<Rightarrow> Inr candidate
      | Inr True \<Rightarrow> numbered_tag env db candidate ignoreId (rw_Port inbound) 2)"

definition resolveInboundTag :: "panel_env \<Rightarrow> Database \<Rightarrow> InboundRow \<Rightarrow> int \<Rightarrow> conflict_err + string" where
  "resolveInboundTag env db inbound ignoreId =
     (if rw_Tag inbound \<noteq> [] then
        (case tagExists env db (rw_Tag inbound) ignoreId of
           Inl e \<Rightarrow> Inl e
         | Inr False \<Rightarrow> Inr (rw_Tag inbound)
         | Inr True \<Rightarrow> generateInboundTag env db inbound ignoreId)
      else generateInboundTag env db inbound ignoreId)"

subsection \<open>What passing the check means\<close>

lemma first_conflict_None:
  "first_conflict db Q P detail = Inr None \<longleftrightarrow> db_ok db \<and> (\<forall>c \<in> set (db_rows db). Q c \<longrightarrow> \<not> P c)"
  by (auto simp: first_conflict_def query_def find_None_iff)

lemma and_then_None: "and_then r s = Inr None \<longleftrightarrow> r = Inr None \<and> s = Inr None"
  by (auto simp: and_then_def split: sum.split option.split)

lemma with_transports_None: "with_transports bits r = Inr None \<longleftrightarrow> r = Inr None"
  by (cases r) (auto simp: with_transports_def)

text \<open>An inbound that binds a port of its own, and the checks it passes when it is accepted.\<close>

definition active :: "panel_env \<Rightarrow> InboundRow \<Rightarrow> bool" where
  "active env c \<longleftrightarrow> rw_Port c > 0 \<and> gatewayOccupiesListen env c \<and> \<not> SettingsBehindCover env (rw_Protocol c) (rw_Settings c)"

definition transports_of :: "panel_env \<Rightarrow> InboundRow \<Rightarrow> transportBits" where
  "transports_of env c = inboundTransports env (rw_Protocol c) (rw_StreamSettings c) (rw_Settings c)"

lemma check_passed:
  assumes "checkPortConflictTx env db inbound ignoreId = Inr None" "active env inbound"
  shows "check_relays env db inbound ignoreId (transports_of env inbound) = Inr None"
    "check_own_awg_relay env db inbound ignoreId = Inr None"
    "amneziawgForwardedPortOwner env db inbound ignoreId = Inr None"
    "check_own_tuic_relay env db inbound ignoreId = Inr None"
    "check_rows env db inbound ignoreId (transports_of env inbound) = Inr None"
  using assms by (auto simp: checkPortConflictTx_def active_def transports_of_def Let_def and_then_None with_transports_None)

definition compatible :: "panel_env \<Rightarrow> InboundRow \<Rightarrow> InboundRow \<Rightarrow> bool" where
  "compatible env a b \<longleftrightarrow> \<not> (rw_Port a = rw_Port b \<and> sameNode (rw_NodeID a) (rw_NodeID b)
     \<and> listenOverlaps (inboundBindAddr env a) (inboundBindAddr env b) \<and> transports_of env a AND transports_of env b \<noteq> 0)"

text \<open>The loopback port on which the traffic of an embedded local inbound is relayed into Xray.\<close>

definition relay_port :: "panel_env \<Rightarrow> InboundRow \<Rightarrow> int option" where
  "relay_port env c =
     (if rw_NodeID c \<noteq> None then None
      else if rw_Protocol c = pAmneziaWG then
        (if amneziawgKernelMode env c then None else Some (awgSOCKSPortForInbound (rw_Id c)))
      else if rw_Protocol c = tuic_protocol \<and> InstanceFromInbound (pe_tuic env) (Some (tuic_inbound c)) \<noteq> None
        then Some (SOCKSPortForInbound (rw_Id c))
      else None)"

text \<open>\<open>b\<close> leaves the relay port of \<open>a\<close> alone; a kernel WireGuard interface binds no relay's socket.\<close>

definition spares_relay :: "panel_env \<Rightarrow> InboundRow \<Rightarrow> InboundRow \<Rightarrow> bool" where
  "spares_relay env a b \<longleftrightarrow> (case relay_port env a of
      None \<Rightarrow> True
    | Some p \<Rightarrow> (on_loopback env b \<and> \<not> amneziawgKernelMode env b \<longrightarrow> rw_Port b \<noteq> p)
        \<and> (rw_Id a \<noteq> rw_Id b \<longrightarrow> relay_port env b \<noteq> Some p))"

definition ports_disjoint :: "panel_env \<Rightarrow> InboundRow list \<Rightarrow> bool" where
  "ports_disjoint env rows \<longleftrightarrow>
     (\<forall>a \<in> set rows. \<forall>b \<in> set rows. active env a \<longrightarrow> active env b \<longrightarrow>
        (rw_Id a \<noteq> rw_Id b \<longrightarrow> compatible env a b) \<and> spares_relay env a b)"

lemma listenOverlaps_sym: "listenOverlaps a b = listenOverlaps b a"
  by (auto simp: listenOverlaps_def and.commute split: prod.split)

lemma compatible_sym: "compatible env a b = compatible env b a"
  by (auto simp: compatible_def listenOverlaps_sym and.commute sameNode_def split: option.splits)

lemma relay_windows: "0 < i \<Longrightarrow> 65101 \<le> awgSOCKSPortForInbound i" "SOCKSPortForInbound j \<le> 65000"
proof -
  show "65101 \<le> awgSOCKSPortForInbound i" if "0 < i"
    using that by (simp add: awgSOCKSPortForInbound_def awgSOCKSBasePort_def awgRelayPortSlots_def)
  have "(j - 1) mod 1000 \<le> 999" by (smt (verit) pos_mod_bound)
  then show "SOCKSPortForInbound j \<le> 65000"
    by (simp add: SOCKSPortForInbound_def SOCKSBasePort_def relayPortSlots_def)
qed

lemma tuic_not_awg: "tuic_protocol \<noteq> pAmneziaWG"
  by (simp add: protocol_defs)

lemma accepted_compatible:
  assumes "checkPortConflictTx env db inbound ignoreId = Inr None" "active env inbound" "active env c"
    "c \<in> set (db_rows db)" "rw_Id c \<noteq> ignoreId"
  shows "compatible env inbound c"
proof -
  have "not_ignored ignoreId c" using assms(5) by (simp add: not_ignored_def)
  then have "rw_Port c = rw_Port inbound \<Longrightarrow> \<not> row_objects env inbound (transports_of env inbound) c"
    using check_passed(5) [OF assms(1,2)] assms(4) by (auto simp: check_rows_def first_conflict_None)
  then have "compatible env c inbound" using assms(3)
    by (auto simp: compatible_def row_objects_def active_def transports_of_def)
  then show ?thesis by (simp add: compatible_sym)
qed

lemma accepted_spares_others:
  assumes "checkPortConflictTx env db inbound ignoreId = Inr None" "active env inbound"
    "c \<in> set (db_rows db)" "rw_Id c \<noteq> ignoreId" "relay_port env c = Some p" "on_loopback env inbound"
  shows "rw_Port inbound \<noteq> p"
proof -
  have "not_ignored ignoreId c" using assms(4) by (simp add: not_ignored_def)
  then show ?thesis using check_passed(1) [OF assms(1,2)] assms(3,5,6)
    by (auto simp: check_relays_def and_then_None checkAmneziawgnetSocksConflict_def checkTuicSocksConflict_def
        first_conflict_None relay_port_def split: if_splits)
qed

lemma own_relay_checked:
  assumes "checkPortConflictTx env db inbound (rw_Id inbound) = Inr None" "active env inbound" "0 < rw_Id inbound"
    "relay_port env inbound = Some p"
  shows "on_loopback env inbound \<Longrightarrow> rw_Port inbound \<noteq> p"
    "c \<in> set (db_rows db) \<Longrightarrow> rw_Id c \<noteq> rw_Id inbound \<Longrightarrow> on_loopback env c \<Longrightarrow> \<not> amneziawgKernelMode env c
       \<Longrightarrow> rw_Port c \<noteq> p"
    "c \<in> set (db_rows db) \<Longrightarrow> rw_Id c \<noteq> rw_Id inbound \<Longrightarrow> 0 < rw_Id c \<Longrightarrow> relay_port env c \<noteq> Some p"
proof -
  note checks = check_passed(2,4) [OF assms(1,2)]
  consider (awg) "rw_Protocol inbound = pAmneziaWG" "\<not> amneziawgKernelMode env inbound" "rw_NodeID inbound = None"
      "p = awgSOCKSPortForInbound (rw_Id inbound)"
    | (tuic) "rw_Protocol inbound = tuic_protocol" "rw_NodeID inbound = None" "p = SOCKSPortForInbound (rw_Id inbound)"
    using assms(4) by (auto simp: relay_port_def split: if_splits)
  then have "(on_loopback env inbound \<longrightarrow> rw_Port inbound \<noteq> p)
    \<and> (\<forall>c \<in> set (db_rows db). rw_Id c \<noteq> rw_Id inbound \<longrightarrow>
         (on_loopback env c \<longrightarrow> \<not> amneziawgKernelMode env c \<longrightarrow> rw_Port c \<noteq> p)
         \<and> (0 < rw_Id c \<longrightarrow> relay_port env c \<noteq> Some p))"
  proof cases
    case awg
    then have self: "amneziawgnetSocksSelfConflict env inbound (rw_Id inbound) = []"
      and parts: "checkAmneziawgnetSocksRelayCollision env db (rw_Id inbound) = Inr None"
        "checkAmneziawgnetSocksReverseConflict env db (rw_Id inbound) = Inr None"
      using checks(1) assms(3) by (auto simp: check_own_awg_relay_def and_then_None split: if_splits)
    have "relay_port env c \<noteq> Some p" if "c \<in> set (db_rows db)" "rw_Id c \<noteq> rw_Id inbound" for c
      using parts(1) that relay_windows(1) [OF assms(3)] relay_windows(2) [of "rw_Id c"] tuic_not_awg
      by (auto simp: checkAmneziawgnetSocksRelayCollision_def first_conflict_None relay_port_def awg(4) split: if_splits)
    then show ?thesis
      using self parts(2) awg assms(3)
      by (auto simp: checkAmneziawgnetSocksReverseConflict_def first_conflict_None on_loopback_def
          amneziawgnetSocksSelfConflict_def split: if_splits)
  next
    case tuic
    then have self: "tuicSocksSelfConflict env inbound (rw_Id inbound) = []"
      and parts: "checkTuicSocksRelayCollision db (rw_Id inbound) = Inr None"
        "checkTuicSocksReverseConflict env db (rw_Id inbound) = Inr None"
      using checks(2) assms(3) by (auto simp: check_own_tuic_relay_def and_then_None split: if_splits)
    have "relay_port env c \<noteq> Some p" if "c \<in> set (db_rows db)" "rw_Id c \<noteq> rw_Id inbound" "0 < rw_Id c" for c
      using parts(1) that relay_windows(1) [OF that(3)] relay_windows(2) [of "rw_Id inbound"] tuic_not_awg
      by (auto simp: checkTuicSocksRelayCollision_def first_conflict_None relay_port_def tuic(3) split: if_splits)
    then show ?thesis
      using self parts(2) tuic assms(3)
      by (auto simp: checkTuicSocksReverseConflict_def first_conflict_None on_loopback_def
          tuicSocksSelfConflict_def split: if_splits)
  qed
  then show "on_loopback env inbound \<Longrightarrow> rw_Port inbound \<noteq> p"
    "c \<in> set (db_rows db) \<Longrightarrow> rw_Id c \<noteq> rw_Id inbound \<Longrightarrow> on_loopback env c \<Longrightarrow> \<not> amneziawgKernelMode env c
       \<Longrightarrow> rw_Port c \<noteq> p"
    "c \<in> set (db_rows db) \<Longrightarrow> rw_Id c \<noteq> rw_Id inbound \<Longrightarrow> 0 < rw_Id c \<Longrightarrow> relay_port env c \<noteq> Some p"
    by blast+
qed

text \<open>
  C9: the port check keeps the ports of all inbounds apart. If no two active inbounds of the
  database claim a common socket and none sits on the relay port of an embedded one, the same holds
  after an inbound that passes the check replaces the row with its id or is added.
\<close>

theorem accepted_inbound_disjoint:
  assumes disjoint: "ports_disjoint env (db_rows db)" and ids: "\<forall>c \<in> set (db_rows db). 0 < rw_Id c"
    and new: "active env inbound" "0 < rw_Id inbound" "checkPortConflictTx env db inbound (rw_Id inbound) = Inr None"
  shows "ports_disjoint env (inbound # filter (\<lambda>c. rw_Id c \<noteq> rw_Id inbound) (db_rows db))"
proof -
  have self: "spares_relay env inbound inbound"
    using own_relay_checked(1) [OF new(3,1,2)] by (auto simp: spares_relay_def split: option.split)
  have "compatible env inbound c \<and> compatible env c inbound \<and> spares_relay env inbound c \<and> spares_relay env c inbound"
    if c: "c \<in> set (db_rows db)" "rw_Id c \<noteq> rw_Id inbound" "active env c" for c
  proof -
    have "compatible env inbound c" by (rule accepted_compatible [OF new(3,1) c(3,1,2)])
    moreover have "spares_relay env inbound c"
      using own_relay_checked(2,3) [OF new(3,1,2) _ c(1,2)] ids c(1) by (auto simp: spares_relay_def split: option.split)
    moreover have "spares_relay env c inbound"
      using accepted_spares_others [OF new(3,1) c(1,2)] own_relay_checked(3) [OF new(3,1,2) _ c(1,2)] ids c(1)
      by (auto simp: spares_relay_def split: option.split)
    ultimately show ?thesis by (simp add: compatible_sym)
  qed
  with self disjoint show ?thesis unfolding ports_disjoint_def by auto
qed

definition demo_panel :: panel_env where
  "demo_panel = \<lparr>pe_object = \<lambda>_. None, pe_alpn = \<lambda>_. [], pe_v6only = \<lambda>_. False,
     pe_awg = \<lambda>_. Some \<lparr>aw_Server = Some \<lparr>as_KernelMode = False, as_IPv6Enabled = False\<rparr>, aw_Clients = []\<rparr>,
     pe_route = \<lambda>_. None, pe_wg_kernel = \<lambda>_. None, pe_behindCover = \<lambda>_. False,
     pe_gateway_rows = \<lambda>_. 0, pe_tuic = \<lambda>_. None, pe_template = Some ''t'', pe_template_ports = \<lambda>_. None,
     pe_template_tags = \<lambda>_. Some ([''in-443-tcp''], []), pe_egress_port = 0\<rparr>"

definition demo_row :: "int \<Rightarrow> string \<Rightarrow> int \<Rightarrow> InboundRow" where
  "demo_row i protocol port = \<lparr>rw_Id = i, rw_Remark = [], rw_Enable = True, rw_Listen = [], rw_Port = port,
     rw_Protocol = protocol, rw_Settings = [], rw_StreamSettings = [], rw_Tag = [], rw_NodeID = None\<rparr>"

definition demo_db :: Database where
  "demo_db = \<lparr>db_rows = [demo_row 1 pAmneziaWG 51820], db_ok = True\<rparr>"

text \<open>An embedded AmneziaWG inbound with id 1 relays on port 65101; a second inbound must spare it.\<close>

theorem accepted_inbound_disjoint_witness:
  "ports_disjoint demo_panel (demo_row 2 pNaive 443 # db_rows demo_db)"
proof -
  have "ports_disjoint demo_panel (db_rows demo_db)" "\<forall>c \<in> set (db_rows demo_db). 0 < rw_Id c"
    "active demo_panel (demo_row 2 pNaive 443)" "0 < rw_Id (demo_row 2 pNaive 443)"
    "checkPortConflictTx demo_panel demo_db (demo_row 2 pNaive 443) (rw_Id (demo_row 2 pNaive 443)) = Inr None"
    "filter (\<lambda>c. rw_Id c \<noteq> rw_Id (demo_row 2 pNaive 443)) (db_rows demo_db) = db_rows demo_db"
    by code_simp+
  from accepted_inbound_disjoint [OF this(1-5)] this(6) show ?thesis by simp
qed

text \<open>
  The two directions differ on a kernel interface: as the new inbound it is rejected on the relay
  port of an embedded one, as the existing one it does not stop the embedded one.
\<close>

lemma relay_check_asymmetric:
  "let env = demo_panel\<lparr>pe_awg := (\<lambda>s. Some \<lparr>aw_Server = Some \<lparr>as_KernelMode = (s \<noteq> []), as_IPv6Enabled = False\<rparr>, aw_Clients = []\<rparr>)\<rparr>;
       kernel = (demo_row 2 pAmneziaWG 65101)\<lparr>rw_Settings := ''k''\<rparr>; embedded = demo_row 1 pAmneziaWG 51820 in
   checkPortConflictTx env \<lparr>db_rows = [embedded], db_ok = True\<rparr> kernel 2 \<noteq> Inr None
   \<and> checkPortConflictTx env \<lparr>db_rows = [kernel], db_ok = True\<rparr> embedded 1 = Inr None"
  by code_simp

subsection \<open>The chosen tag is free\<close>

lemma tagExists_error: "tagExists env db tag ignoreId = Inl e \<Longrightarrow> e \<in> {DbError, TemplateError}"
  by (auto simp: tagExists_def templateInboundTags_def query_def split: sum.splits option.splits if_splits)

lemma numbered_tag_spec:
  "i \<le> 100 \<Longrightarrow> case numbered_tag env db candidate ignoreId port i of
     Inr tag \<Rightarrow> tagExists env db tag ignoreId = Inr False \<and> (\<exists>j \<ge> i. tag = candidate @ ''-'' @ itoa j)
   | Inl e \<Rightarrow> e \<in> {DbError, TemplateError}
       \<or> (e = NoUniqueTag port \<and> (\<lambda>j. candidate @ ''-'' @ itoa j) ` {i..99} \<subseteq> {t. tagExists env db t ignoreId = Inr True})"
proof (induction env db candidate ignoreId port i rule: numbered_tag.induct)
  case (1 env db candidate ignoreId port i)
  let ?c = "candidate @ ''-'' @ itoa i"
  show ?case
  proof (cases "100 \<le> i")
    case True
    then show ?thesis by (subst numbered_tag.simps) simp
  next
    case False
    show ?thesis
    proof (cases "tagExists env db ?c ignoreId")
      case (Inl e)
      then show ?thesis using False tagExists_error by (subst numbered_tag.simps) (auto simp: Let_def)
    next
      case (Inr taken)
      show ?thesis
      proof (cases taken)
        case free: False
        then show ?thesis using False Inr by (subst numbered_tag.simps) (auto simp: Let_def)
      next
        case True
        then have step: "numbered_tag env db candidate ignoreId port i = numbered_tag env db candidate ignoreId port (i + 1)"
          using False Inr by (subst numbered_tag.simps) (simp add: Let_def)
        have "{i..99} = insert i {i + 1..99}" using False by auto
        moreover have "tagExists env db ?c ignoreId = Inr True" using Inr True by simp
        ultimately show ?thesis
          using "1.IH" [OF False refl Inr] True False unfolding step by (fastforce split: sum.splits)
      qed
    qed
  qed
qed

lemma numbered_is_generated:
  assumes "2 \<le> j"
  shows "isAutoGeneratedTag (composeInboundTag port node bits @ ''-'' @ itoa j) port node bits"
proof -
  have "cut_prefix (composeInboundTag port node bits @ ''-'' @ itoa j) (composeInboundTag port node bits @ ''-'') = Some (itoa j)"
    by (simp add: cut_prefix_def has_prefix_def)
  moreover have "list_all is_digit (itoa j)" "itoa j \<noteq> []" using assms by (simp_all add: itoa_def)
  ultimately show ?thesis unfolding isAutoGeneratedTag_def Let_def by (simp only: option.case if_False if_True split: if_split) simp
qed

lemma generateInboundTag_spec:
  "let bits = inboundTransports env (rw_Protocol ib) (rw_StreamSettings ib) (rw_Settings ib);
       candidate = composeInboundTag (rw_Port ib) (rw_NodeID ib) bits in
   case generateInboundTag env db ib ignoreId of
     Inr tag \<Rightarrow> tagExists env db tag ignoreId = Inr False \<and> isAutoGeneratedTag tag (rw_Port ib) (rw_NodeID ib) bits
   | Inl e \<Rightarrow> e \<in> {DbError, TemplateError}
       \<or> (e = NoUniqueTag (rw_Port ib) \<and> insert candidate ((\<lambda>j. candidate @ ''-'' @ itoa j) ` {2..99})
            \<subseteq> {t. tagExists env db t ignoreId = Inr True})"
proof -
  define bits where "bits = inboundTransports env (rw_Protocol ib) (rw_StreamSettings ib) (rw_Settings ib)"
  define candidate where "candidate = composeInboundTag (rw_Port ib) (rw_NodeID ib) bits"
  have gen: "generateInboundTag env db ib ignoreId = (case tagExists env db candidate ignoreId of
        Inl e \<Rightarrow> Inl e | Inr False \<Rightarrow> Inr candidate
      | Inr True \<Rightarrow> numbered_tag env db candidate ignoreId (rw_Port ib) 2)"
    unfolding generateInboundTag_def Let_def bits_def candidate_def by (rule refl)
  have auto: "isAutoGeneratedTag candidate (rw_Port ib) (rw_NodeID ib) bits"
    by (simp add: isAutoGeneratedTag_def candidate_def)
  have numbered: "2 \<le> j \<Longrightarrow> isAutoGeneratedTag (candidate @ ''-'' @ itoa j) (rw_Port ib) (rw_NodeID ib) bits" for j
    unfolding candidate_def by (rule numbered_is_generated)
  have "case generateInboundTag env db ib ignoreId of
     Inr tag \<Rightarrow> tagExists env db tag ignoreId = Inr False \<and> isAutoGeneratedTag tag (rw_Port ib) (rw_NodeID ib) bits
   | Inl e \<Rightarrow> e \<in> {DbError, TemplateError}
       \<or> (e = NoUniqueTag (rw_Port ib) \<and> insert candidate ((\<lambda>j. candidate @ ''-'' @ itoa j) ` {2..99})
            \<subseteq> {t. tagExists env db t ignoreId = Inr True})"
  proof (cases "tagExists env db candidate ignoreId")
    case (Inl e)
    then show ?thesis using tagExists_error by (auto simp: gen)
  next
    case (Inr taken)
    show ?thesis
    proof (cases taken)
      case False
      then show ?thesis using Inr auto by (simp add: gen)
    next
      case True
      then show ?thesis
        using Inr numbered_tag_spec [where i = 2 and env = env and db = db and candidate = candidate and ignoreId = ignoreId and port = "rw_Port ib"] numbered
        by (fastforce simp: gen split: sum.splits)
    qed
  qed
  then show ?thesis unfolding Let_def bits_def candidate_def .
qed


end
