(* ===== verification/Login_Limiter.thy ===== *)
theory Login_Limiter
  imports Go_Prelude
begin

text \<open>
  \<open>internal/web/controller/login_limiter.go\<close>: failed logins are counted per address and user name,
  and a pair with too many recent ones is blocked for a while.

  Times are nanoseconds since Go's zero time, which is 0. Ranges over the map follow its list; the
  results hold for every order.
\<close>

record loginLimitRecord =
  lr_failures :: "int list"
  lr_blockedUntil :: int

record loginLimiter =
  ll_maxFailures :: nat
  ll_window :: int
  ll_cooldown :: int
  ll_attempts :: "(string \<times> loginLimitRecord) list"

definition loginLimitMaxFailures :: nat where "loginLimitMaxFailures = 5"
definition loginLimitWindow :: int where "loginLimitWindow = 5 * 60 * 10 ^ 9"
definition loginLimitCooldown :: int where "loginLimitCooldown = 15 * 60 * 10 ^ 9"
definition loginLimitMaxRecords :: nat where "loginLimitMaxRecords = 10000"

definition newLoginLimiter :: "nat \<Rightarrow> int \<Rightarrow> int \<Rightarrow> loginLimiter" where
  "newLoginLimiter maxFailures window cooldown =
     \<lparr>ll_maxFailures = maxFailures, ll_window = window, ll_cooldown = cooldown, ll_attempts = []\<rparr>"

definition defaultLoginLimiter :: loginLimiter where
  "defaultLoginLimiter = newLoginLimiter loginLimitMaxFailures loginLimitWindow loginLimitCooldown"

definition loginLimitKey :: "string \<Rightarrow> string \<Rightarrow> string" where
  "loginLimitKey ip username = trim_space ip @ CHR 0x00 # to_lower (trim_space username)"

definition pruneLoginFailures :: "int list \<Rightarrow> int \<Rightarrow> int list" where
  "pruneLoginFailures failures cutoff = dropWhile (\<lambda>t. t < cutoff) failures"

definition limiter_allow :: "string \<Rightarrow> string \<Rightarrow> int \<Rightarrow> loginLimiter \<Rightarrow> loginLimiter \<times> int \<times> bool" where
  "limiter_allow ip username now l =
     (let key = loginLimitKey ip username in
      case map_of (ll_attempts l) key of
        None \<Rightarrow> (l, 0, True)
      | Some record \<Rightarrow>
          if now < lr_blockedUntil record then (l, lr_blockedUntil record, False)
          else let record = record\<lparr>lr_blockedUntil := 0,
                     lr_failures := pruneLoginFailures (lr_failures record) (now - ll_window l)\<rparr> in
            (if lr_failures record = [] then l\<lparr>ll_attempts := AList.delete key (ll_attempts l)\<rparr>
             else l\<lparr>ll_attempts := AList.update key record (ll_attempts l)\<rparr>, 0, True))"

definition reclaim :: "int \<Rightarrow> int \<Rightarrow> (string \<times> loginLimitRecord) list \<Rightarrow> (string \<times> loginLimitRecord) list" where
  "reclaim now cutoff attempts =
     concat (map (\<lambda>(key, record).
       if now < lr_blockedUntil record then [(key, record)]
       else let record = record\<lparr>lr_failures := pruneLoginFailures (lr_failures record) cutoff\<rparr> in
         if lr_failures record = [] then [] else [(key, record)]) attempts)"

definition drop_one :: "int \<Rightarrow> (string \<times> loginLimitRecord) list \<Rightarrow> (string \<times> loginLimitRecord) list" where
  "drop_one now attempts =
     (case List.find (\<lambda>(_, record). \<not> now < lr_blockedUntil record) attempts of
        Some (key, _) \<Rightarrow> AList.delete key attempts
      | None \<Rightarrow> (case attempts of [] \<Rightarrow> [] | (key, _) # _ \<Rightarrow> AList.delete key attempts))"

definition evictForRoom :: "int \<Rightarrow> loginLimiter \<Rightarrow> loginLimiter" where
  "evictForRoom now l =
     (if length (ll_attempts l) < loginLimitMaxRecords then l
      else let l = l\<lparr>ll_attempts := reclaim now (now - ll_window l) (ll_attempts l)\<rparr> in
        if length (ll_attempts l) < loginLimitMaxRecords then l
        else l\<lparr>ll_attempts := drop_one now (ll_attempts l)\<rparr>)"

definition no_failures :: loginLimitRecord where
  "no_failures = \<lparr>lr_failures = [], lr_blockedUntil = 0\<rparr>"

definition fail_record :: "loginLimiter \<Rightarrow> int \<Rightarrow> loginLimitRecord \<Rightarrow> loginLimitRecord \<times> int \<times> bool" where
  "fail_record l now record =
     (let failures = pruneLoginFailures (lr_failures record) (now - ll_window l) @ [now] in
      if ll_maxFailures l \<le> length failures
      then (record\<lparr>lr_failures := [], lr_blockedUntil := now + ll_cooldown l\<rparr>, now + ll_cooldown l, True)
      else (record\<lparr>lr_failures := failures\<rparr>, 0, False))"

definition registerFailure :: "string \<Rightarrow> string \<Rightarrow> int \<Rightarrow> loginLimiter \<Rightarrow> loginLimiter \<times> int \<times> bool" where
  "registerFailure ip username now l =
     (let key = loginLimitKey ip username;
          (l, record) = (case map_of (ll_attempts l) key of
             None \<Rightarrow> (evictForRoom now l, no_failures) | Some record \<Rightarrow> (l, record));
          (record, until, blocked) = fail_record l now record in
      (l\<lparr>ll_attempts := AList.update key record (ll_attempts l)\<rparr>, until, blocked))"

definition registerSuccess :: "string \<Rightarrow> string \<Rightarrow> loginLimiter \<Rightarrow> loginLimiter" where
  "registerSuccess ip username l = l\<lparr>ll_attempts := AList.delete (loginLimitKey ip username) (ll_attempts l)\<rparr>"

subsection \<open>Runs and the reference counters\<close>

datatype login_event = Ask string string | Fail string string | Succeed string string

text \<open>What a call answers: until when the pair is blocked, and \<open>allow\<close>'s or \<open>registerFailure\<close>'s flag.\<close>

fun limiter_call :: "login_event \<times> int \<Rightarrow> loginLimiter \<Rightarrow> loginLimiter \<times> int \<times> bool" where
  "limiter_call (Ask ip username, now) l = limiter_allow ip username now l"
| "limiter_call (Fail ip username, now) l = registerFailure ip username now l"
| "limiter_call (Succeed ip username, now) l = (registerSuccess ip username l, 0, True)"

fun limiter_answers :: "(login_event \<times> int) list \<Rightarrow> loginLimiter \<Rightarrow> (int \<times> bool) list" where
  "limiter_answers [] l = []"
| "limiter_answers (e # es) l = (case limiter_call e l of (l, a) \<Rightarrow> a # limiter_answers es l)"

fun limiter_after :: "(login_event \<times> int) list \<Rightarrow> loginLimiter \<Rightarrow> loginLimiter" where
  "limiter_after [] l = l"
| "limiter_after (e # es) l = limiter_after es (fst (limiter_call e l))"

fun event_key :: "login_event \<Rightarrow> string" where
  "event_key (Ask ip username) = loginLimitKey ip username"
| "event_key (Fail ip username) = loginLimitKey ip username"
| "event_key (Succeed ip username) = loginLimitKey ip username"

text \<open>
  The reference: one counter per pair, never forgotten, that remembers all failures since the last
  block or success and the end of the block.
\<close>

record counter_state =
  ct_failures :: "int list"
  ct_blockedUntil :: int

fun reference_answers :: "loginLimiter \<Rightarrow> (login_event \<times> int) list \<Rightarrow> (string \<Rightarrow> counter_state) \<Rightarrow> (int \<times> bool) list" where
  "reference_answers l [] c = []"
| "reference_answers l ((Ask ip username, now) # es) c =
     (let s = c (loginLimitKey ip username) in
      (if now < ct_blockedUntil s then (ct_blockedUntil s, False) else (0, True)) # reference_answers l es c)"
| "reference_answers l ((Fail ip username, now) # es) c =
     (let k = loginLimitKey ip username; recent = filter (\<lambda>t. now - ll_window l \<le> t) (ct_failures (c k)) @ [now] in
      if ll_maxFailures l \<le> length recent
      then (now + ll_cooldown l, True) # reference_answers l es (c(k := \<lparr>ct_failures = [], ct_blockedUntil = now + ll_cooldown l\<rparr>))
      else (0, False) # reference_answers l es (c(k := (c k)\<lparr>ct_failures := ct_failures (c k) @ [now]\<rparr>)))"
| "reference_answers l ((Succeed ip username, now) # es) c =
     (0, True) # reference_answers l es (c(loginLimitKey ip username := \<lparr>ct_failures = [], ct_blockedUntil = 0\<rparr>))"

subsection \<open>The table stays bounded\<close>

definition limiter_inv :: "loginLimiter \<Rightarrow> bool" where
  "limiter_inv l \<longleftrightarrow> wf_map (ll_attempts l) \<and> length (ll_attempts l) \<le> loginLimitMaxRecords
     \<and> (\<forall>(k, r) \<in> set (ll_attempts l). length (lr_failures r) < max 1 (ll_maxFailures l))"

lemma prune_length: "length (pruneLoginFailures fs c) \<le> length fs"
  by (simp add: pruneLoginFailures_def length_dropWhile_le)

lemma reclaim_keys: "fst ` set (reclaim now c m) \<subseteq> fst ` set m"
  by (force simp: reclaim_def Let_def split: if_splits)

lemma reclaim_wf: "wf_map m \<Longrightarrow> wf_map (reclaim now c m)"
proof (induction m)
  case (Cons e m)
  have "reclaim now c (e # m) = reclaim now c [e] @ reclaim now c m" by (simp add: reclaim_def)
  moreover have "fst ` set (reclaim now c [e]) \<subseteq> {fst e}" "length (reclaim now c [e]) \<le> 1"
    by (auto simp: reclaim_def Let_def split: prod.splits if_splits)
  moreover have "fst e \<notin> fst ` set (reclaim now c m)" using Cons.prems reclaim_keys [of now c m] by (auto simp: wf_map_def)
  ultimately show ?case using Cons by (cases "reclaim now c [e]") (auto simp: wf_map_def)
qed (simp add: reclaim_def)

lemma reclaim_records:
  "(k, r) \<in> set (reclaim now c m) \<Longrightarrow> \<exists>r'. (k, r') \<in> set m \<and> length (lr_failures r) \<le> length (lr_failures r')"
  by (force simp: reclaim_def Let_def prune_length split: if_splits)

lemma length_delete_present:
  "wf_map m \<Longrightarrow> (k, v) \<in> set m \<Longrightarrow> length (AList.delete k m) < length m"
  by (induction m) (auto simp: wf_map_def less_Suc_eq_le intro: le_less_trans [OF length_delete_le])

lemma drop_one_less: "wf_map m \<Longrightarrow> m \<noteq> [] \<Longrightarrow> length (drop_one now m) < length m"
proof (cases "List.find (\<lambda>(_, record). \<not> now < lr_blockedUntil record) m")
  case None
  then show "wf_map m \<Longrightarrow> m \<noteq> [] \<Longrightarrow> length (drop_one now m) < length m"
    by (cases m) (auto simp: drop_one_def less_Suc_eq_le split: prod.split)
next
  case (Some e)
  then have "e \<in> set m" by (metis find_Some_iff nth_mem)
  then show "wf_map m \<Longrightarrow> m \<noteq> [] \<Longrightarrow> length (drop_one now m) < length m"
    using Some length_delete_present [of m "fst e" "snd e"] by (auto simp: drop_one_def split: prod.split)
qed

lemma wf_map_tl: "wf_map (e # m) \<Longrightarrow> wf_map m"
  by (simp add: wf_map_def)

lemma drop_one_sub: "set (drop_one now m) \<subseteq> set m" "wf_map m \<Longrightarrow> wf_map (drop_one now m)"
proof -
  show "set (drop_one now m) \<subseteq> set m" by (auto simp: drop_one_def set_delete split: option.split list.split)
  have "drop_one now m = m \<or> (\<exists>k. drop_one now m = AList.delete k m)"
    by (auto simp: drop_one_def split: option.split list.split)
  then show "wf_map m \<Longrightarrow> wf_map (drop_one now m)" by (metis wf_map_delete)
qed

lemma evict_inv:
  assumes "limiter_inv l"
  shows "limiter_inv (evictForRoom now l) \<and> length (ll_attempts (evictForRoom now l)) < loginLimitMaxRecords
    \<and> fst ` set (ll_attempts (evictForRoom now l)) \<subseteq> fst ` set (ll_attempts l)
    \<and> ll_maxFailures (evictForRoom now l) = ll_maxFailures l \<and> ll_window (evictForRoom now l) = ll_window l
    \<and> ll_cooldown (evictForRoom now l) = ll_cooldown l"
proof (cases "length (ll_attempts l) < loginLimitMaxRecords")
  case True
  then show ?thesis using assms by (simp add: evictForRoom_def)
next
  case False
  let ?m = "reclaim now (now - ll_window l) (ll_attempts l)"
  have wf: "wf_map ?m" using assms reclaim_wf by (simp add: limiter_inv_def)
  have short: "length (lr_failures r) < max 1 (ll_maxFailures l)" if "(k, r) \<in> set ?m" for k r
    using reclaim_records [OF that] assms unfolding limiter_inv_def by (metis (no_types, lifting) case_prodD le_less_trans)
  have "length ?m = card (fst ` set ?m)" using wf by (metis distinct_card length_map list.set_map wf_map_def)
  also have "\<dots> \<le> card (fst ` set (ll_attempts l))" by (intro card_mono reclaim_keys) simp
  also have "\<dots> \<le> length (ll_attempts l)" by (metis card_length length_map list.set_map)
  finally have len: "length ?m \<le> loginLimitMaxRecords" using assms by (simp add: limiter_inv_def)
  show ?thesis
  proof (cases "length ?m < loginLimitMaxRecords")
    case True
    then show ?thesis using False wf short reclaim_keys [of now "now - ll_window l" "ll_attempts l"]
      by (auto simp: evictForRoom_def Let_def limiter_inv_def)
  next
    case full: False
    then have "?m \<noteq> []" by (auto simp: loginLimitMaxRecords_def)
    then have less: "length (drop_one now ?m) < length ?m" by (rule drop_one_less [OF wf])
    have e: "evictForRoom now l = l\<lparr>ll_attempts := drop_one now ?m\<rparr>"
      using False full by (simp add: evictForRoom_def Let_def)
    have "fst ` set (drop_one now ?m) \<subseteq> fst ` set (ll_attempts l)"
      using drop_one_sub(1) [of now ?m] reclaim_keys [of now "now - ll_window l" "ll_attempts l"] by blast
    moreover have "\<forall>(k, r) \<in> set (drop_one now ?m). length (lr_failures r) < max 1 (ll_maxFailures l)"
      using drop_one_sub(1) [of now ?m] short by blast
    ultimately show ?thesis
      using less len drop_one_sub(2) [OF wf] unfolding e limiter_inv_def by simp
  qed
qed

lemma set_update_sub: "set (AList.update k v m) \<subseteq> insert (k, v) (set m)"
  by (induction m) auto

lemma set_delete_sub: "set (AList.delete k m) \<subseteq> set m"
  by (auto simp: set_delete)

lemma add_record_inv:
  assumes "limiter_inv l" "length (lr_failures r) < max 1 (ll_maxFailures l)"
    "k \<in> fst ` set (ll_attempts l) \<or> length (ll_attempts l) < loginLimitMaxRecords"
  shows "limiter_inv (l\<lparr>ll_attempts := AList.update k r (ll_attempts l)\<rparr>)"
proof -
  have "length (AList.update k r (ll_attempts l)) \<le> loginLimitMaxRecords"
    using assms(1,3) by (auto simp: limiter_inv_def length_update)
  moreover have "\<forall>(k', r') \<in> set (AList.update k r (ll_attempts l)). length (lr_failures r') < max 1 (ll_maxFailures l)"
  proof (intro ballI, clarify)
    fix k' r' assume "(k', r') \<in> set (AList.update k r (ll_attempts l))"
    then consider "r' = r" | "(k', r') \<in> set (ll_attempts l)" using set_update_sub [of k r "ll_attempts l"] by blast
    then show "length (lr_failures r') < max 1 (ll_maxFailures l)"
      using assms(1,2) unfolding limiter_inv_def by cases blast+
  qed
  ultimately show ?thesis using assms(1) unfolding limiter_inv_def by simp
qed

lemma prune_update_short:
  assumes "limiter_inv l" "map_of (ll_attempts l) k = Some r" "length (lr_failures r') \<le> length (lr_failures r)"
  shows "limiter_inv (l\<lparr>ll_attempts := AList.update k r' (ll_attempts l)\<rparr>)"
proof -
  have "(k, r) \<in> set (ll_attempts l)" using assms(2) by (rule map_of_SomeD)
  then have "k \<in> fst ` set (ll_attempts l)" "length (lr_failures r) < max 1 (ll_maxFailures l)"
    using assms(1) by (force simp: limiter_inv_def)+
  then show ?thesis using assms(3) by (intro add_record_inv [OF assms(1)]) simp_all
qed

lemma delete_inv: "limiter_inv l \<Longrightarrow> limiter_inv (l\<lparr>ll_attempts := AList.delete k (ll_attempts l)\<rparr>)"
  using length_delete_le [of k "ll_attempts l"] by (auto simp: limiter_inv_def set_delete simp del: length_delete_le)

lemma allow_inv:
  assumes "limiter_inv l" "limiter_allow ip username now l = (l', a)"
  shows "limiter_inv l'"
  using assms delete_inv prune_update_short [OF assms(1)]
  by (auto simp: limiter_allow_def Let_def prune_length split: option.splits if_splits)

lemma fail_record_short:
  "fail_record l now r = (r', u, b) \<Longrightarrow> length (lr_failures r') < max 1 (ll_maxFailures l)"
  by (auto simp: fail_record_def Let_def split: if_splits)

lemma failure_inv:
  assumes inv: "limiter_inv l" and call: "registerFailure ip username now l = (l', a)"
  shows "limiter_inv l'"
proof (cases "map_of (ll_attempts l) (loginLimitKey ip username)")
  case None
  let ?l = "evictForRoom now l"
  obtain r' u b where f: "fail_record ?l now no_failures = (r', u, b)" by (metis prod_cases3)
  have "l' = ?l\<lparr>ll_attempts := AList.update (loginLimitKey ip username) r' (ll_attempts ?l)\<rparr>"
    using call None f by (simp add: registerFailure_def)
  then show ?thesis using add_record_inv [of ?l] fail_record_short [OF f] evict_inv [OF inv] by simp
next
  case (Some r)
  obtain r' u b where f: "fail_record l now r = (r', u, b)" by (metis prod_cases3)
  have "l' = l\<lparr>ll_attempts := AList.update (loginLimitKey ip username) r' (ll_attempts l)\<rparr>"
    using call Some f by (simp add: registerFailure_def)
  moreover have "loginLimitKey ip username \<in> fst ` set (ll_attempts l)" using Some by (force dest: map_of_SomeD)
  ultimately show ?thesis using add_record_inv [OF inv] fail_record_short [OF f] by simp
qed

lemma limiter_call_inv:
  assumes "limiter_inv l"
  shows "limiter_inv (fst (limiter_call e l))"
proof (cases e)
  case (Pair ev now)
  show ?thesis
  proof (cases ev)
    case (Ask ip u)
    then show ?thesis using Pair allow_inv [OF assms] by (metis limiter_call.simps(1) prod.collapse)
  next
    case (Fail ip u)
    then show ?thesis using Pair failure_inv [OF assms] by (metis limiter_call.simps(2) prod.collapse)
  next
    case (Succeed ip u)
    then show ?thesis using Pair delete_inv [OF assms] by (simp add: registerSuccess_def)
  qed
qed

lemma limiter_after_inv: "limiter_inv l \<Longrightarrow> limiter_inv (limiter_after es l)"
  by (induction es l rule: limiter_after.induct) (auto intro: limiter_call_inv)

lemma new_limiter_inv: "limiter_inv (newLoginLimiter n w c)"
  by (simp add: limiter_inv_def newLoginLimiter_def)

subsection \<open>The table agrees with the reference counters\<close>

definition record_of :: "loginLimiter \<Rightarrow> string \<Rightarrow> loginLimitRecord" where
  "record_of l k = (case map_of (ll_attempts l) k of None \<Rightarrow> no_failures | Some r \<Rightarrow> r)"

definition record_tracks :: "int \<Rightarrow> int \<Rightarrow> loginLimitRecord \<Rightarrow> counter_state \<Rightarrow> bool" where
  "record_tracks w now r s \<longleftrightarrow> sorted (lr_failures r) \<and> (\<forall>t \<in> set (lr_failures r). t \<le> now)
     \<and> filter (\<lambda>t. now - w \<le> t) (lr_failures r) = filter (\<lambda>t. now - w \<le> t) (ct_failures s)
     \<and> (lr_blockedUntil r = ct_blockedUntil s \<or> lr_blockedUntil r \<le> now \<and> ct_blockedUntil s \<le> now)"

lemma prune_sorted: "sorted fs \<Longrightarrow> pruneLoginFailures fs c = filter (\<lambda>t. c \<le> t) fs"
proof (induction fs)
  case (Cons t fs)
  then have "\<not> t < c \<Longrightarrow> filter (\<lambda>t. c \<le> t) fs = fs" by (fastforce simp: filter_id_conv)
  with Cons show ?case by (cases "t < c") (auto simp: pruneLoginFailures_def)
qed (simp add: pruneLoginFailures_def)

lemma tracks_later:
  assumes "record_tracks w now r s" "now \<le> now'"
  shows "record_tracks w now' r s"
proof -
  have later: "filter (\<lambda>t. now' - w \<le> t) fs = filter (\<lambda>t. now' - w \<le> t) (filter (\<lambda>t. now - w \<le> t) fs)" for fs
    using assms(2) by (auto intro: filter_cong)
  show ?thesis using assms later [of "lr_failures r"] later [of "ct_failures s"]
    by (auto simp: record_tracks_def)
qed

lemma tracks_recent:
  assumes "record_tracks w now r s"
  shows "sorted (filter (\<lambda>t. now - w \<le> t) (ct_failures s))" "x \<in> set (ct_failures s) \<Longrightarrow> now - w \<le> x \<Longrightarrow> x \<le> now"
proof -
  have e: "filter (\<lambda>t. now - w \<le> t) (ct_failures s) = filter (\<lambda>t. now - w \<le> t) (lr_failures r)"
    using assms by (simp add: record_tracks_def)
  show "sorted (filter (\<lambda>t. now - w \<le> t) (ct_failures s))"
    unfolding e by (intro sorted_wrt_filter) (use assms in \<open>simp add: record_tracks_def\<close>)
  assume "x \<in> set (ct_failures s)" "now - w \<le> x"
  then have "x \<in> set (filter (\<lambda>t. now - w \<le> t) (lr_failures r))" unfolding e [symmetric] by simp
  then show "x \<le> now" using assms by (simp add: record_tracks_def)
qed

lemma tracks_pruned:
  assumes "record_tracks w now r s"
  shows "record_tracks w now (r\<lparr>lr_failures := pruneLoginFailures (lr_failures r) (now - w)\<rparr>) s"
  using assms tracks_recent [OF assms] by (auto simp: record_tracks_def prune_sorted)

lemma tracks_fail:
  assumes t: "record_tracks (ll_window l) now r s" and f: "fail_record l now r = (r', u, b)"
    and recent: "recent = filter (\<lambda>t. now - ll_window l \<le> t) (ct_failures s) @ [now]"
  shows "(if ll_maxFailures l \<le> length recent
      then u = now + ll_cooldown l \<and> b \<and> record_tracks (ll_window l) now r' \<lparr>ct_failures = [], ct_blockedUntil = now + ll_cooldown l\<rparr>
      else u = 0 \<and> \<not> b \<and> record_tracks (ll_window l) now r' (s\<lparr>ct_failures := ct_failures s @ [now]\<rparr>))"
proof -
  have p: "pruneLoginFailures (lr_failures r) (now - ll_window l) @ [now] = recent"
    using t recent by (simp add: record_tracks_def prune_sorted)
  have "sorted recent" "\<forall>x \<in> set recent. x \<le> now"
    using tracks_recent [OF t] unfolding recent by (auto simp: sorted_append)
  then show ?thesis using t f unfolding fail_record_def p Let_def recent record_tracks_def by auto
qed

lemma tracks_empty: "0 \<le> now \<Longrightarrow> record_tracks w now no_failures \<lparr>ct_failures = [], ct_blockedUntil = 0\<rparr>"
  by (simp add: record_tracks_def no_failures_def)

lemma tracks_nothing_left:
  assumes "record_tracks w now r s" "0 \<le> now" "ct_blockedUntil s \<le> now" "pruneLoginFailures (lr_failures r) (now - w) = []"
  shows "record_tracks w now no_failures s"
  using assms by (auto simp: record_tracks_def prune_sorted no_failures_def)

definition limiter_tracks :: "int \<Rightarrow> loginLimiter \<Rightarrow> (string \<Rightarrow> counter_state) \<Rightarrow> bool" where
  "limiter_tracks now l c \<longleftrightarrow> (\<forall>k. record_tracks (ll_window l) now (record_of l k) (c k))"

lemma limiter_tracks_later: "limiter_tracks now l c \<Longrightarrow> now \<le> now' \<Longrightarrow> limiter_tracks now' l c"
  by (auto simp: limiter_tracks_def intro: tracks_later)

lemma record_of_write:
  "record_of (l\<lparr>ll_attempts := AList.update k r (ll_attempts l)\<rparr>) = (record_of l)(k := r)"
  "record_of (l\<lparr>ll_attempts := AList.delete k (ll_attempts l)\<rparr>) = (record_of l)(k := no_failures)"
  by (auto simp: record_of_def)

lemma limiter_tracks_write:
  assumes "limiter_tracks now l c" "record_tracks (ll_window l) now r s"
    "record_of l' = (record_of l)(k := r)" "ll_window l' = ll_window l"
  shows "limiter_tracks now l' (c(k := s))"
  using assms by (auto simp: limiter_tracks_def)

lemma allow_tracks:
  assumes t: "limiter_tracks now l c" and now: "0 \<le> now" and a: "limiter_allow ip u now l = (l', until, ok)"
  defines "s \<equiv> c (loginLimitKey ip u)"
  shows "limiter_tracks now l' c \<and> (until, ok) = (if now < ct_blockedUntil s then (ct_blockedUntil s, False) else (0, True))"
proof -
  let ?k = "loginLimitKey ip u"
  have tr: "record_tracks (ll_window l) now (record_of l ?k) s" using t by (simp add: limiter_tracks_def s_def)
  have c: "c(?k := s) = c" by (simp add: s_def)
  show ?thesis
  proof (cases "map_of (ll_attempts l) ?k")
    case None
    then have "\<not> now < ct_blockedUntil s" using tr now by (auto simp: record_of_def record_tracks_def no_failures_def)
    then show ?thesis using a None t by (simp add: limiter_allow_def)
  next
    case (Some r)
    then have r: "record_tracks (ll_window l) now r s" using tr by (simp add: record_of_def)
    show ?thesis
    proof (cases "now < lr_blockedUntil r")
      case True
      then show ?thesis using a Some t r by (auto simp: limiter_allow_def record_tracks_def)
    next
      case False
      then have free: "\<not> now < ct_blockedUntil s" using r by (auto simp: record_tracks_def)
      let ?r = "r\<lparr>lr_blockedUntil := 0, lr_failures := pruneLoginFailures (lr_failures r) (now - ll_window l)\<rparr>"
      have r': "record_tracks (ll_window l) now ?r s"
        using tracks_pruned [OF r] free now by (auto simp: record_tracks_def)
      have "record_tracks (ll_window l) now no_failures s" if "pruneLoginFailures (lr_failures r) (now - ll_window l) = []"
        using tracks_nothing_left [OF r now _ that] free by simp
      then show ?thesis using a Some False free limiter_tracks_write [OF t r', of l' ?k]
          limiter_tracks_write [OF t, of no_failures s l' ?k]
        by (auto simp: limiter_allow_def Let_def record_of_write c split: if_splits)
    qed
  qed
qed

lemma failure_tracks:
  assumes t: "limiter_tracks now l c" and a: "registerFailure ip u now l = (l', until, b)"
    and room: "loginLimitKey ip u \<in> fst ` set (ll_attempts l) \<or> length (ll_attempts l) < loginLimitMaxRecords"
    and recent: "recent = filter (\<lambda>t. now - ll_window l \<le> t) (ct_failures (c (loginLimitKey ip u))) @ [now]"
  defines "k \<equiv> loginLimitKey ip u"
  shows "(if ll_maxFailures l \<le> length recent
     then (until, b) = (now + ll_cooldown l, True) \<and> limiter_tracks now l' (c(k := \<lparr>ct_failures = [], ct_blockedUntil = now + ll_cooldown l\<rparr>))
     else (until, b) = (0, False) \<and> limiter_tracks now l' (c(k := (c k)\<lparr>ct_failures := ct_failures (c k) @ [now]\<rparr>)))"
proof -
  obtain r' u b' where f: "fail_record l now (record_of l k) = (r', u, b')" by (metis prod_cases3)
  have "map_of (ll_attempts l) k = None \<Longrightarrow> evictForRoom now l = l"
    using room by (auto simp: evictForRoom_def k_def map_of_None_fst)
  then have l': "l' = l\<lparr>ll_attempts := AList.update k r' (ll_attempts l)\<rparr>" "until = u" "b = b'"
    using a f by (auto simp: registerFailure_def k_def [symmetric] record_of_def split: option.splits)
  have "record_of l' = (record_of l)(k := r')" "ll_window l' = ll_window l" by (simp_all add: l' record_of_write)
  note w = limiter_tracks_write [OF t _ this]
  have "record_tracks (ll_window l) now (record_of l k) (c k)" using t by (simp add: limiter_tracks_def)
  from tracks_fail [OF this f recent [folded k_def]] show ?thesis by (auto simp: l'(2,3) split: if_splits intro: w)
qed

lemma evict_frame:
  "ll_maxFailures (evictForRoom now l) = ll_maxFailures l \<and> ll_window (evictForRoom now l) = ll_window l
    \<and> ll_cooldown (evictForRoom now l) = ll_cooldown l"
  by (simp add: evictForRoom_def Let_def)

lemma limiter_call_frame:
  "ll_maxFailures (fst (limiter_call e l)) = ll_maxFailures l \<and> ll_window (fst (limiter_call e l)) = ll_window l
    \<and> ll_cooldown (fst (limiter_call e l)) = ll_cooldown l"
  by (induction e l rule: limiter_call.induct)
    (auto simp: limiter_allow_def registerFailure_def registerSuccess_def Let_def evict_frame split: option.splits prod.splits)

lemma limiter_call_keys:
  assumes "limiter_inv l"
  shows "fst ` set (ll_attempts (fst (limiter_call (e, now) l))) \<subseteq> insert (event_key e) (fst ` set (ll_attempts l))"
proof -
  have u: "fst ` set (AList.update k r m) \<subseteq> insert k (fst ` set m)" for k and r :: loginLimitRecord and m
    using set_update_sub [of k r m] by auto
  have d: "fst ` set (AList.delete k m) \<subseteq> fst ` set m" for k and m :: "(string \<times> loginLimitRecord) list"
    by (auto simp: set_delete)
  have v: "fst ` set (ll_attempts (evictForRoom now l)) \<subseteq> fst ` set (ll_attempts l)" using evict_inv [OF assms] by blast
  show ?thesis
  proof (cases e)
    case (Ask ip us)
    let ?m = "ll_attempts (fst (limiter_allow ip us now l))" and ?k = "loginLimitKey ip us"
    have "?m = ll_attempts l \<or> ?m = AList.delete ?k (ll_attempts l) \<or> (\<exists>r. ?m = AList.update ?k r (ll_attempts l))"
      by (auto simp: limiter_allow_def Let_def split: option.split)
    then show ?thesis using Ask u d by (metis (no_types, lifting) event_key.simps(1) limiter_call.simps(1) subset_insertI subset_insertI2)
  next
    case (Fail ip us)
    have "\<exists>m r. (m = l \<or> m = evictForRoom now l) \<and> ll_attempts (fst (registerFailure ip us now l))
        = AList.update (loginLimitKey ip us) r (ll_attempts m)"
      by (cases "map_of (ll_attempts l) (loginLimitKey ip us)") (auto simp: registerFailure_def split: prod.split)
    then show ?thesis using Fail u v by (metis (no_types, lifting) event_key.simps(2) insert_mono limiter_call.simps(2) subset_trans)
  next
    case (Succeed ip us)
    then show ?thesis using d by (simp add: registerSuccess_def subset_insertI2)
  qed
qed

lemma reference_cong:
  assumes "ll_maxFailures l' = ll_maxFailures l" "ll_window l' = ll_window l" "ll_cooldown l' = ll_cooldown l"
  shows "reference_answers l' es c = reference_answers l es c"
  using assms by (induction l es c rule: reference_answers.induct) (simp_all add: Let_def)

lemma room_for_key:
  assumes "limiter_inv l" "insert k (fst ` set (ll_attempts l)) \<subseteq> K" "finite K" "card K \<le> loginLimitMaxRecords"
  shows "k \<in> fst ` set (ll_attempts l) \<or> length (ll_attempts l) < loginLimitMaxRecords"
proof (rule disjCI)
  assume "\<not> length (ll_attempts l) < loginLimitMaxRecords"
  moreover have "length (ll_attempts l) = card (fst ` set (ll_attempts l))"
    using assms(1) by (metis distinct_card length_map limiter_inv_def list.set_map wf_map_def)
  ultimately have "card K \<le> card (fst ` set (ll_attempts l))" using assms(4) by simp
  then have "fst ` set (ll_attempts l) = K" using assms(2,3) by (intro card_seteq) auto
  then show "k \<in> fst ` set (ll_attempts l)" using assms(2) by blast
qed

lemma limiter_answers_reference:
  assumes "limiter_inv l" "limiter_tracks now l c" "0 \<le> now" "sorted (now # map snd es)"
    "finite K" "card K \<le> loginLimitMaxRecords" "fst ` set (ll_attempts l) \<subseteq> K" "event_key ` fst ` set es \<subseteq> K"
  shows "limiter_answers es l = reference_answers l es c"
  using assms
proof (induction es arbitrary: l now c)
  case (Cons e es)
  obtain ev t where e: "e = (ev, t)" by (cases e)
  let ?l = "fst (limiter_call e l)"
  have later: "limiter_tracks t l c" "0 \<le> t" using Cons.prems limiter_tracks_later e by auto
  have ref: "reference_answers ?l es d = reference_answers l es d" for d
    by (rule reference_cong) (simp_all add: limiter_call_frame)
  have go: "limiter_answers es ?l = reference_answers l es d" if "limiter_tracks t ?l d" for d
    unfolding ref [symmetric]
  proof (rule Cons.IH [of ?l t])
    show "fst ` set (ll_attempts ?l) \<subseteq> K"
      unfolding e using Cons.prems(7,8) e by (intro subset_trans [OF limiter_call_keys [OF Cons.prems(1)]]) auto
  qed (use Cons.prems e that later(2) in \<open>auto simp: limiter_call_inv\<close>)
  show ?case
  proof (cases ev)
    case (Ask ip u)
    obtain l' un ok where a: "limiter_allow ip u t l = (l', un, ok)" by (metis prod_cases3)
    show ?thesis using allow_tracks [OF later a] go [of c] e Ask a by (simp add: Let_def)
  next
    case (Fail ip u)
    obtain l' un ok where a: "registerFailure ip u t l = (l', un, ok)" by (metis prod_cases3)
    have room: "loginLimitKey ip u \<in> fst ` set (ll_attempts l) \<or> length (ll_attempts l) < loginLimitMaxRecords"
      using Cons.prems e Fail by (intro room_for_key) auto
    show ?thesis using failure_tracks [OF later(1) a room refl] go e Fail a by (auto simp: Let_def split: if_splits)
  next
    case (Succeed ip u)
    have "limiter_tracks t ?l (c(loginLimitKey ip u := \<lparr>ct_failures = [], ct_blockedUntil = 0\<rparr>))"
      using limiter_tracks_write [OF later(1) tracks_empty [OF later(2)]]
      by (simp add: e Succeed registerSuccess_def record_of_write)
    then show ?thesis using go e Succeed by simp
  qed
qed simp

text \<open>
  no sequence of logins makes the table of failed logins larger than ten thousand records or
  a record longer than the number of failures that blocks, whatever the user names and times.
\<close>

theorem limiter_bounded:
  "length (ll_attempts (limiter_after es (newLoginLimiter maxFailures window cooldown))) \<le> 10000
    \<and> (\<forall>e \<in> set (ll_attempts (limiter_after es (newLoginLimiter maxFailures window cooldown))).
         length (lr_failures (snd e)) < max 1 maxFailures)"
proof -
  have f: "ll_maxFailures (limiter_after es l) = ll_maxFailures l" for l
    by (induction es l rule: limiter_after.induct) (simp_all add: limiter_call_frame)
  show ?thesis using limiter_after_inv [OF new_limiter_inv, of es maxFailures window cooldown]
    by (force simp: limiter_inv_def loginLimitMaxRecords_def f newLoginLimiter_def)
qed

lemma limiter_bounded_witness:
  defines "m \<equiv> ll_attempts (limiter_after (replicate 4 (Fail ''1.2.3.4'' ''bob'', 7)) (newLoginLimiter 5 9 9))"
  shows "m = [(loginLimitKey ''1.2.3.4'' ''bob'', \<lparr>lr_failures = [7, 7, 7, 7], lr_blockedUntil = 0\<rparr>)]
    \<and> length m \<le> 10000 \<and> length (lr_failures (snd (hd m))) < max 1 5"
proof -
  have m: "m = [(loginLimitKey ''1.2.3.4'' ''bob'', \<lparr>lr_failures = [7, 7, 7, 7], lr_blockedUntil = 0\<rparr>)]"
    unfolding m_def by code_simp
  then have "hd m \<in> set m" by simp
  with m show ?thesis using limiter_bounded [of "replicate 4 (Fail ''1.2.3.4'' ''bob'', 7)" 5 9 9] unfolding m_def by blast
qed

text \<open>
  C5: as long as at most ten thousand address and user pairs are seen, the limiter, whose table
  forgets failures, records and ended blocks as it goes, answers every call exactly as counters that never forget
  anything: a pair is blocked for the cooldown at its last of \<open>maxFailures\<close> failures within the window.
\<close>

theorem limiter_refines_counters:
  assumes "sorted (map snd es)" "\<forall>e \<in> set es. 0 \<le> snd e" "card (event_key ` fst ` set es) \<le> 10000"
  shows "limiter_answers es (newLoginLimiter maxFailures window cooldown)
    = reference_answers (newLoginLimiter maxFailures window cooldown) es (\<lambda>_. \<lparr>ct_failures = [], ct_blockedUntil = 0\<rparr>)"
proof (rule limiter_answers_reference [of _ 0 _ _ "event_key ` fst ` set es"])
  show "limiter_inv (newLoginLimiter maxFailures window cooldown)" by (rule new_limiter_inv)
  show "limiter_tracks 0 (newLoginLimiter maxFailures window cooldown) (\<lambda>_. \<lparr>ct_failures = [], ct_blockedUntil = 0\<rparr>)"
    using tracks_empty by (simp add: limiter_tracks_def record_of_def newLoginLimiter_def)
qed (use assms in \<open>auto simp: new_limiter_inv loginLimitMaxRecords_def newLoginLimiter_def\<close>)

lemma limiter_refines_counters_witness:
  defines "es \<equiv> map (Pair (Fail ''1.2.3.4'' ''Bob'')) [1, 2, 3, 4, 5] @ [(Ask ''1.2.3.4'' '' bob'', 6)]"
  shows "limiter_answers es defaultLoginLimiter = reference_answers defaultLoginLimiter es (\<lambda>_. \<lparr>ct_failures = [], ct_blockedUntil = 0\<rparr>)
    \<and> limiter_answers es defaultLoginLimiter = replicate 4 (0, False) @ [(900000000005, True), (900000000005, False)]"
proof
  have "sorted (map snd es)" "\<forall>e \<in> set es. 0 \<le> snd e" by (simp_all add: es_def)
  moreover have "card (event_key ` fst ` set es) \<le> 10000"
    by (rule le_trans [OF card_image_le], simp, rule le_trans [OF card_image_le], simp, rule le_trans [OF card_length]) (simp add: es_def)
  ultimately show "limiter_answers es defaultLoginLimiter = reference_answers defaultLoginLimiter es (\<lambda>_. \<lparr>ct_failures = [], ct_blockedUntil = 0\<rparr>)"
    unfolding defaultLoginLimiter_def by (rule limiter_refines_counters)
  show "limiter_answers es defaultLoginLimiter = replicate 4 (0, False) @ [(900000000005, True), (900000000005, False)]"
    unfolding es_def by code_simp
qed

end
