(* ===== verification/Tunnel_Monitor.thy ===== *)
theory Tunnel_Monitor
  imports Net_Addr
begin

text \<open>
  \<open>internal/tunnelmonitor/monitor.go\<close>, with the HTTP client of \<open>internal/util/netproxy\<close>: the
  health monitor probes a URL at every tick and restarts the core after repeated failures.

  Durations and times are nanoseconds, 0 is Go's zero time. \<open>time.ParseDuration\<close> (whose fractions
  are floating-point), \<open>url.Parse\<close> and the SOCKS5 dialer are parameters; the answer of the HTTP client and
  the result of the recovery function are inputs of each tick. The failure counter is unbounded: it grows by
  one per tick, of which there is at most one per second.
\<close>

definition second :: int where "second = 10 ^ 9"
definition defaultHealthURL :: string where "defaultHealthURL = ''https://www.cloudflare.com/cdn-cgi/trace''"
definition defaultInterval :: int where "defaultInterval = 30 * second"
definition defaultTimeout :: int where "defaultTimeout = 10 * second"
definition defaultFailureThreshold :: int where "defaultFailureThreshold = 3"
definition defaultCooldown :: int where "defaultCooldown = 5 * 60 * second"

record monitor_config =
  mc_Enabled :: bool
  mc_URL :: string
  mc_ProxyURL :: string
  mc_Interval :: int
  mc_Timeout :: int
  mc_FailureThreshold :: int
  mc_Cooldown :: int

definition DefaultConfig :: monitor_config where
  "DefaultConfig = \<lparr>mc_Enabled = False, mc_URL = defaultHealthURL, mc_ProxyURL = [], mc_Interval = defaultInterval,
     mc_Timeout = defaultTimeout, mc_FailureThreshold = defaultFailureThreshold, mc_Cooldown = defaultCooldown\<rparr>"

definition parseBool :: "string \<Rightarrow> bool" where
  "parseBool value \<longleftrightarrow> to_lower (trim_space value) \<in>
     set [''1'', ''true'', ''yes'', ''y'', ''on'', ''enable'', ''enabled'']"

definition parseDurationEnv :: "(string \<Rightarrow> int option) \<Rightarrow> (string \<Rightarrow> string) \<Rightarrow> string \<Rightarrow> int \<Rightarrow> int" where
  "parseDurationEnv parse_duration getenv name fallback =
     (let value = trim_space (getenv name) in
      if value = [] then fallback else case parse_duration value of None \<Rightarrow> fallback | Some d \<Rightarrow> d)"

definition parseIntEnv :: "(string \<Rightarrow> string) \<Rightarrow> string \<Rightarrow> int \<Rightarrow> int" where
  "parseIntEnv getenv name fallback =
     (let value = trim_space (getenv name) in
      if value = [] then fallback else case atoi value of None \<Rightarrow> fallback | Some n \<Rightarrow> n)"

definition firstNonEmpty :: "string \<Rightarrow> string \<Rightarrow> string" where
  "firstNonEmpty value fallback = (let value = trim_space value in if value = [] then fallback else value)"

definition Normalize :: "monitor_config \<Rightarrow> monitor_config" where
  "Normalize c = c\<lparr>
     mc_URL := trim_space (if trim_space (mc_URL c) = [] then defaultHealthURL else mc_URL c),
     mc_ProxyURL := trim_space (mc_ProxyURL c),
     mc_Interval := (if mc_Interval c < second then defaultInterval else mc_Interval c),
     mc_Timeout := (if mc_Timeout c < second then defaultTimeout else mc_Timeout c),
     mc_FailureThreshold := (if mc_FailureThreshold c < 1 then defaultFailureThreshold else mc_FailureThreshold c),
     mc_Cooldown := (if mc_Cooldown c < second then defaultCooldown else mc_Cooldown c)\<rparr>"

definition ConfigFromEnv :: "(string \<Rightarrow> int option) \<Rightarrow> (string \<Rightarrow> string) \<Rightarrow> monitor_config" where
  "ConfigFromEnv parse_duration getenv =
     (let cfg = DefaultConfig in
      Normalize (cfg\<lparr>
        mc_Enabled := parseBool (getenv ''XUI_TUNNEL_HEALTH_MONITOR''),
        mc_URL := firstNonEmpty (getenv ''XUI_TUNNEL_HEALTH_URL'') (mc_URL cfg),
        mc_ProxyURL := trim_space (getenv ''XUI_TUNNEL_HEALTH_PROXY''),
        mc_Interval := parseDurationEnv parse_duration getenv ''XUI_TUNNEL_HEALTH_INTERVAL'' (mc_Interval cfg),
        mc_Timeout := parseDurationEnv parse_duration getenv ''XUI_TUNNEL_HEALTH_TIMEOUT'' (mc_Timeout cfg),
        mc_Cooldown := parseDurationEnv parse_duration getenv ''XUI_TUNNEL_HEALTH_COOLDOWN'' (mc_Cooldown cfg),
        mc_FailureThreshold := parseIntEnv getenv ''XUI_TUNNEL_HEALTH_FAILURES'' (mc_FailureThreshold cfg)\<rparr>))"

subsection \<open>The HTTP client\<close>

record parsed_url =
  pu_Scheme :: string
  pu_Host :: string
  pu_User :: "(string \<times> string) option"

datatype http_client = DirectClient int | SocksClient int string "(string \<times> string) option" | ProxyClient int parsed_url

datatype client_err = BadProxyURL | SocksDialerFailed | UnsupportedProxyScheme string

definition NewHTTPClient :: "(string \<Rightarrow> parsed_url option) \<Rightarrow> (string \<Rightarrow> (string \<times> string) option \<Rightarrow> bool)
    \<Rightarrow> string \<Rightarrow> int \<Rightarrow> client_err + http_client" where
  "NewHTTPClient url_parse socks5_ok proxyURL timeout =
     (if proxyURL = [] then Inr (DirectClient timeout)
      else case url_parse proxyURL of
        None \<Rightarrow> Inl BadProxyURL
      | Some parsed \<Rightarrow>
          (let scheme = to_lower (pu_Scheme parsed) in
           if scheme = ''socks5'' \<or> scheme = ''socks5h'' then
             if socks5_ok (pu_Host parsed) (pu_User parsed) then Inr (SocksClient timeout (pu_Host parsed) (pu_User parsed))
             else Inl SocksDialerFailed
           else if scheme = ''http'' \<or> scheme = ''https'' then Inr (ProxyClient timeout parsed)
           else Inl (UnsupportedProxyScheme (pu_Scheme parsed))))"

subsection \<open>The monitor\<close>

record monitor =
  mo_cfg :: monitor_config
  mo_client :: http_client
  mo_recover :: bool
  mo_failures :: int
  mo_lastRecovery :: int

definition newWithClient :: "monitor_config \<Rightarrow> http_client option \<Rightarrow> bool \<Rightarrow> monitor" where
  "newWithClient cfg client recover =
     (let cfg = Normalize cfg in
      \<lparr>mo_cfg = cfg, mo_client = (case client of None \<Rightarrow> DirectClient (mc_Timeout cfg) | Some c \<Rightarrow> c),
       mo_recover = recover, mo_failures = 0, mo_lastRecovery = 0\<rparr>)"

definition NewMonitor :: "(string \<Rightarrow> parsed_url option) \<Rightarrow> (string \<Rightarrow> (string \<times> string) option \<Rightarrow> bool)
    \<Rightarrow> monitor_config \<Rightarrow> bool \<Rightarrow> client_err + monitor" where
  "NewMonitor url_parse socks5_ok cfg recover =
     (let cfg = Normalize cfg in
      case NewHTTPClient url_parse socks5_ok (mc_ProxyURL cfg) (mc_Timeout cfg) of
        Inl e \<Rightarrow> Inl e
      | Inr client \<Rightarrow> Inr (newWithClient cfg (Some client) recover))"

datatype http_answer = InvalidRequest | TransportError | Response int

datatype probe_err = RequestFailed | UnexpectedStatus int

datatype monitor_err = NilMonitor | ProbeFailed int int probe_err | CooldownActive int int probe_err
  | NoRecoveryFunction | RecoveryFailed probe_err | ProbeError probe_err

definition probe :: "http_answer \<Rightarrow> probe_err option" where
  "probe answer = (case answer of
     InvalidRequest \<Rightarrow> Some RequestFailed
   | TransportError \<Rightarrow> Some RequestFailed
   | Response status \<Rightarrow> if status < 200 \<or> 400 \<le> status then Some (UnexpectedStatus status) else None)"

text \<open>\<open>now.Sub(earlier)\<close>: the difference of two times, saturated to a \<open>time.Duration\<close>.\<close>

definition time_sub :: "int \<Rightarrow> int \<Rightarrow> int" where
  "time_sub now earlier = max (- (2 ^ 63)) (min (2 ^ 63 - 1) (now - earlier))"

record tick =
  tk_now :: int
  tk_answer :: http_answer
  tk_recover_ok :: bool

definition monitor_Step :: "tick \<Rightarrow> monitor \<Rightarrow> monitor \<times> bool \<times> monitor_err option" where
  "monitor_Step t m =
     (case probe (tk_answer t) of
        Some err \<Rightarrow>
          (let m = m\<lparr>mo_failures := mo_failures m + 1\<rparr>; threshold = mc_FailureThreshold (mo_cfg m) in
           if mo_failures m < threshold then (m, False, Some (ProbeFailed (mo_failures m) threshold err))
           else let now = tk_now t in
             if mo_lastRecovery m \<noteq> 0 \<and> time_sub now (mo_lastRecovery m) < mc_Cooldown (mo_cfg m)
             then let m = m\<lparr>mo_failures := threshold\<rparr> in (m, False, Some (CooldownActive (mo_failures m) threshold err))
             else if \<not> mo_recover m then (m\<lparr>mo_failures := threshold\<rparr>, False, Some NoRecoveryFunction)
             else if \<not> tk_recover_ok t then (m, False, Some (RecoveryFailed err))
             else (m\<lparr>mo_lastRecovery := now, mo_failures := 0\<rparr>, True, Some (ProbeError err)))
      | None \<Rightarrow> (m\<lparr>mo_failures := 0\<rparr>, False, None))"

definition Step_nil :: "tick \<Rightarrow> monitor option \<Rightarrow> monitor option \<times> bool \<times> monitor_err option" where
  "Step_nil t mo = (case mo of
     None \<Rightarrow> (None, False, Some NilMonitor)
   | Some m \<Rightarrow> (case monitor_Step t m of (m, r) \<Rightarrow> (Some m, r)))"

text \<open>
  \<open>Run\<close> as a function of what happens: the ticks until the context is cancelled, each with the outcome of its step.
\<close>

fun run_loop :: "tick option list \<Rightarrow> monitor \<Rightarrow> (tick \<times> bool \<times> monitor_err option) list" where
  "run_loop [] m = []"
| "run_loop (None # es) m = []"
| "run_loop (Some t # es) m = (case monitor_Step t m of (m, r) \<Rightarrow> (t, r) # run_loop es m)"

definition Run :: "tick option list \<Rightarrow> monitor option \<Rightarrow> (tick \<times> bool \<times> monitor_err option) list" where
  "Run events mo = (case mo of None \<Rightarrow> [] | Some m \<Rightarrow> if mc_Enabled (mo_cfg m) then run_loop events m else [])"

subsection \<open>Configuration\<close>

lemma trim_space_idem [simp]: "trim_space (trim_space s) = trim_space s"
proof -
  have dd: "dropWhile P (dropWhile P xs) = dropWhile P xs" for P :: "char \<Rightarrow> bool" and xs
    by (induction xs) auto
  let ?x = "dropWhile is_space s"
  have "dropWhile is_space (trim_space s) = trim_space s"
  proof (cases "trim_space s")
    case (Cons c r)
    have "?x = trim_space s @ rev (takeWhile is_space (rev ?x))"
      by (metis rev_append rev_rev_ident takeWhile_dropWhile_id trim_space_def)
    then have "\<exists>y. ?x = c # y" unfolding Cons append_Cons by (rule exI)
    then have "\<not> is_space c" by (metis dropWhile_eq_Cons_conv)
    then show ?thesis by (simp add: Cons)
  qed simp
  then show ?thesis unfolding trim_space_def [of "trim_space s"] by (simp add: trim_space_def dd)
qed

definition config_ok :: "monitor_config \<Rightarrow> bool" where
  "config_ok c \<longleftrightarrow> mc_URL c \<noteq> [] \<and> trim_space (mc_URL c) = mc_URL c \<and> trim_space (mc_ProxyURL c) = mc_ProxyURL c
     \<and> second \<le> mc_Interval c \<and> second \<le> mc_Timeout c \<and> 1 \<le> mc_FailureThreshold c \<and> second \<le> mc_Cooldown c"

lemma default_url [simp]: "trim_space defaultHealthURL = defaultHealthURL" "defaultHealthURL \<noteq> []"
  by code_simp+

lemmas default_durations = defaultInterval_def defaultTimeout_def defaultCooldown_def defaultFailureThreshold_def second_def

lemma Normalize_ok: "config_ok (Normalize c)"
  by (simp add: config_ok_def Normalize_def default_durations)

lemma Normalize_id: "config_ok c \<Longrightarrow> Normalize c = c"
  by (simp add: config_ok_def Normalize_def)

text \<open>
  whatever the environment holds, the monitor's configuration is within safe bounds: durations of at least a
  second, a threshold of at least one, a URL. Normalising leaves exactly the configurations within the
  bounds unchanged, and the monitor, built from any configuration, starts from a normalised one.
\<close>

theorem monitor_config_bounds:
  "config_ok (ConfigFromEnv parse_duration getenv) \<and> (Normalize c = c \<longleftrightarrow> config_ok c)
    \<and> mo_cfg (newWithClient c client recover) = Normalize c
    \<and> (case NewMonitor url_parse socks5_ok c recover of Inl _ \<Rightarrow> mc_ProxyURL (Normalize c) \<noteq> []
        | Inr m \<Rightarrow> config_ok (mo_cfg m) \<and> mo_failures m = 0 \<and> mo_lastRecovery m = 0 \<and> mo_recover m = recover)"
proof -
  have "Normalize c = c \<longleftrightarrow> config_ok c" using Normalize_ok [of c] Normalize_id [of c] by metis
  then show ?thesis using Normalize_ok Normalize_id [OF Normalize_ok]
    by (auto simp: ConfigFromEnv_def Let_def newWithClient_def NewMonitor_def NewHTTPClient_def split: sum.splits)
qed

subsection \<open>When the monitor recovers\<close>

type_synonym outcome = "tick \<times> bool \<times> monitor_err option"

definition probe_ok :: "tick \<Rightarrow> bool" where "probe_ok t \<longleftrightarrow> probe (tk_answer t) = None"

text \<open>The failed probes since the last success or recovery, and the time of the last recovery (0: none).\<close>

definition failed_in_a_row :: "outcome list \<Rightarrow> int" where
  "failed_in_a_row h = int (length (takeWhile (\<lambda>(t, recovered, _). \<not> probe_ok t \<and> \<not> recovered) (rev h)))"

definition last_recovery :: "outcome list \<Rightarrow> int" where
  "last_recovery h = (case filter (\<lambda>(_, recovered, _). recovered) (rev h) of [] \<Rightarrow> 0 | (t, _) # _ \<Rightarrow> tk_now t)"

definition recovery_due :: "monitor_config \<Rightarrow> outcome list \<Rightarrow> tick \<Rightarrow> bool" where
  "recovery_due c h t \<longleftrightarrow> \<not> probe_ok t \<and> mc_FailureThreshold c \<le> failed_in_a_row h + 1
     \<and> (last_recovery h = 0 \<or> mc_Cooldown c \<le> time_sub (tk_now t) (last_recovery h))"

text \<open>The recovery function was called at a step.\<close>

fun attempted :: "bool \<times> monitor_err option \<Rightarrow> bool" where
  "attempted (recovered, err) \<longleftrightarrow> recovered \<or> (case err of Some (RecoveryFailed _) \<Rightarrow> True | _ \<Rightarrow> False)"

definition monitor_tracks :: "outcome list \<Rightarrow> monitor \<Rightarrow> bool" where
  "monitor_tracks h m \<longleftrightarrow> (let T = mc_FailureThreshold (mo_cfg m) in
     min (mo_failures m) T = min (failed_in_a_row h) T \<and> mo_lastRecovery m = last_recovery h)"

lemma history_snoc:
  "failed_in_a_row (h @ [(t, b, e)]) = (if probe_ok t \<or> b then 0 else failed_in_a_row h + 1)"
  "last_recovery (h @ [(t, b, e)]) = (if b then tk_now t else last_recovery h)"
  by (simp_all add: failed_in_a_row_def last_recovery_def)

lemma failed_nonneg: "0 \<le> failed_in_a_row h"
  by (simp add: failed_in_a_row_def)

lemma monitor_Step_due:
  assumes "monitor_tracks h m" "1 \<le> mc_FailureThreshold (mo_cfg m)" "monitor_Step t m = (m', b, e)"
  shows "monitor_tracks (h @ [(t, b, e)]) m' \<and> mo_cfg m' = mo_cfg m \<and> mo_recover m' = mo_recover m
    \<and> (attempted (b, e) \<longleftrightarrow> mo_recover m \<and> recovery_due (mo_cfg m) h t) \<and> (b \<longleftrightarrow> attempted (b, e) \<and> tk_recover_ok t)
    \<and> (e = None \<longleftrightarrow> probe_ok t)"
proof (cases "probe (tk_answer t)")
  case None
  then show ?thesis using assms
    by (auto simp: monitor_Step_def monitor_tracks_def Let_def history_snoc probe_ok_def recovery_due_def)
next
  case (Some err)
  then have bad: "\<not> probe_ok t" by (simp add: probe_ok_def)
  show ?thesis using assms(1,2) assms(3) [symmetric] Some failed_nonneg [of h]
    by (auto simp: monitor_Step_def monitor_tracks_def Let_def history_snoc bad recovery_due_def min_def split: if_splits)
qed

lemma run_loop_due:
  assumes "monitor_tracks h m" "1 \<le> mc_FailureThreshold (mo_cfg m)"
    "i < length (run_loop es m)" "run_loop es m ! i = (t, b, e)"
  shows "es ! i = Some t \<and> (b \<longleftrightarrow> attempted (b, e) \<and> tk_recover_ok t) \<and> (e = None \<longleftrightarrow> probe_ok t)
    \<and> (attempted (b, e) \<longleftrightarrow> mo_recover m \<and> recovery_due (mo_cfg m) (h @ take i (run_loop es m)) t)"
  using assms
proof (induction es m arbitrary: h i rule: run_loop.induct)
  case (3 t0 es m)
  obtain m' b0 e0 where st: "monitor_Step t0 m = (m', b0, e0)" by (metis prod_cases3)
  note due = monitor_Step_due [OF 3(2,3) st]
  show ?case
  proof (cases i)
    case 0
    then show ?thesis using 3(5) st due by auto
  next
    case (Suc j)
    then show ?thesis using 3 st due "3.IH" [OF st [symmetric], of "h @ [(t0, b0, e0)]" j] by auto
  qed
qed simp_all

text \<open>
  C8: a running monitor calls the recovery function exactly at the ticks whose probe fails, is at least the
  threshold-th failure in a row since the last success or recovery, and comes after the cooldown of the last
  successful recovery; a call counts as a recovery exactly when it succeeds. Every tick until the
  cancellation is served, and reports an error exactly when its probe failed.
\<close>

theorem monitor_recovers_exactly:
  assumes "mc_Enabled cfg" "NewMonitor url_parse socks5_ok cfg recover = Inr m" "run = Run events (Some m)"
  shows "length run = length (takeWhile (\<lambda>e. e \<noteq> None) events)
    \<and> (\<forall>i < length run. case run ! i of (t, recovered, err) \<Rightarrow>
         events ! i = Some t \<and> (err = None \<longleftrightarrow> probe_ok t)
         \<and> (attempted (recovered, err) \<longleftrightarrow> recover \<and> recovery_due (Normalize cfg) (take i run) t)
         \<and> (recovered \<longleftrightarrow> attempted (recovered, err) \<and> tk_recover_ok t))"
proof -
  have m: "mo_cfg m = Normalize cfg" "mo_recover m = recover" "monitor_tracks [] m"
    using assms(2) Normalize_id [OF Normalize_ok]
    by (auto simp: NewMonitor_def newWithClient_def monitor_tracks_def failed_in_a_row_def last_recovery_def Let_def
        split: sum.splits)
  have T: "1 \<le> mc_FailureThreshold (mo_cfg m)" using Normalize_ok [of cfg] by (simp add: m config_ok_def)
  have run: "run = run_loop events m" using assms(1,3) m(1) by (simp add: Run_def Normalize_def)
  have "length (run_loop es m) = length (takeWhile (\<lambda>e. e \<noteq> None) es)" for es m
    by (induction es m rule: run_loop.induct) (auto split: prod.split)
  moreover have "case run ! i of (t, recovered, err) \<Rightarrow>
         events ! i = Some t \<and> (err = None \<longleftrightarrow> probe_ok t)
         \<and> (attempted (recovered, err) \<longleftrightarrow> recover \<and> recovery_due (Normalize cfg) (take i run) t)
         \<and> (recovered \<longleftrightarrow> attempted (recovered, err) \<and> tk_recover_ok t)" if "i < length run" for i
  proof -
    obtain t b e where r: "run ! i = (t, b, e)" by (metis prod_cases3)
    show ?thesis using run_loop_due [OF m(3) T, of i events t b e] that r by (auto simp: run m simp del: attempted.simps)
  qed
  ultimately show ?thesis unfolding run by blast
qed

lemma monitor_recovers_exactly_witness:
  defines "bad i \<equiv> Some \<lparr>tk_now = i * second, tk_answer = Response 503, tk_recover_ok = True\<rparr>"
    and "m \<equiv> newWithClient (DefaultConfig\<lparr>mc_Enabled := True\<rparr>) None True"
  defines "run \<equiv> Run [bad 30, bad 60, bad 90, bad 120, bad 150, bad 180, None] (Some m)"
  shows "map (fst \<circ> snd) run = [False, False, True, False, False, False]
    \<and> length run = length (takeWhile (\<lambda>e. e \<noteq> None) [bad 30, bad 60, bad 90, bad 120, bad 150, bad 180, None])"
proof
  show "map (fst \<circ> snd) run = [False, False, True, False, False, False]"
    unfolding run_def bad_def m_def by code_simp
  have "NewMonitor (\<lambda>_. None) (\<lambda>_ _. False) (DefaultConfig\<lparr>mc_Enabled := True\<rparr>) True = Inr m"
    unfolding m_def by code_simp
  then show "length run = length (takeWhile (\<lambda>e. e \<noteq> None) [bad 30, bad 60, bad 90, bad 120, bad 150, bad 180, None])"
    by (intro conjunct1 [OF monitor_recovers_exactly [OF _ _ run_def [THEN meta_eq_to_obj_eq]]]) (simp_all add: DefaultConfig_def)
qed

end
