(* ===== verification/Hot_Diff.thy ===== *)
theory Hot_Diff
  imports Go_Json
begin

text \<open>
  \<open>internal/xray/hot_diff.go\<close>, with the types of \<open>config.go\<close> and \<open>inbound.go\<close>: the operations of Xray's API
  that bring a running core from one generated configuration to another.

  Raw sections are the bytes of their JSON text, and no bytes where the section is absent. Parsing is a
  parameter (\<open>hot_env\<close>): the first value of a text (\<open>Decoder.Decode\<close>), a whole text (\<open>json.Unmarshal\<close>), the
  texts of the elements of an array, and \<open>json.Compact\<close>. Encoding a decoded value cannot fail. Ranges over
  Go maps follow their lists.
\<close>

record InboundConfig =
  ic_TuicRelay :: bool
  ic_TuicInboundID :: int
  ic_Listen :: string
  ic_Port :: int
  ic_Protocol :: string
  ic_Settings :: string
  ic_StreamSettings :: string
  ic_Tag :: string
  ic_Sniffing :: string

record Config =
  cf_LogConfig :: string
  cf_RouterConfig :: string
  cf_DNSConfig :: string
  cf_InboundConfigs :: "InboundConfig list"
  cf_OutboundConfigs :: string
  cf_Transport :: string
  cf_Policy :: string
  cf_API :: string
  cf_Stats :: string
  cf_Reverse :: string
  cf_FakeDNS :: string
  cf_Observatory :: string
  cf_BurstObservatory :: string
  cf_Metrics :: string
  cf_Geodata :: string
  cf_Env :: string

text \<open>\<open>InboundConfig.Equals\<close> and \<open>Config.Equals\<close>: the sections byte for byte.\<close>

definition inbound_Equals :: "InboundConfig \<Rightarrow> InboundConfig \<Rightarrow> bool" where
  "inbound_Equals c d \<longleftrightarrow> ic_Listen c = ic_Listen d \<and> ic_Port c = ic_Port d \<and> ic_Protocol c = ic_Protocol d
     \<and> ic_Settings c = ic_Settings d \<and> ic_StreamSettings c = ic_StreamSettings d \<and> ic_Tag c = ic_Tag d
     \<and> ic_Sniffing c = ic_Sniffing d"

definition config_Equals :: "Config \<Rightarrow> Config \<Rightarrow> bool" where
  "config_Equals c d \<longleftrightarrow> length (cf_InboundConfigs c) = length (cf_InboundConfigs d)
     \<and> list_all2 inbound_Equals (cf_InboundConfigs c) (cf_InboundConfigs d)
     \<and> cf_LogConfig c = cf_LogConfig d \<and> cf_RouterConfig c = cf_RouterConfig d \<and> cf_DNSConfig c = cf_DNSConfig d
     \<and> cf_OutboundConfigs c = cf_OutboundConfigs d \<and> cf_Transport c = cf_Transport d \<and> cf_Policy c = cf_Policy d
     \<and> cf_API c = cf_API d \<and> cf_Stats c = cf_Stats d \<and> cf_Reverse c = cf_Reverse d \<and> cf_FakeDNS c = cf_FakeDNS d
     \<and> cf_Observatory c = cf_Observatory d \<and> cf_BurstObservatory c = cf_BurstObservatory d
     \<and> cf_Metrics c = cf_Metrics d \<and> cf_Geodata c = cf_Geodata d \<and> cf_Env c = cf_Env d"

record InboundReplacement =
  rp_Previous :: "InboundConfig option"
  rp_Next :: "InboundConfig option"

record UserOp =
  uo_Tag :: string
  uo_Protocol :: string
  uo_Email :: string
  uo_User :: "(string \<times> json) list option"

record HotDiff =
  hd_TuicRelayChanges :: "InboundReplacement list"
  hd_RemovedInboundTags :: "string list"
  hd_AddedInbounds :: "string list"
  hd_RemovedUsers :: "UserOp list"
  hd_AddedUsers :: "UserOp list"
  hd_DroppedClients :: "UserOp list"
  hd_RemovedOutboundTags :: "string list"
  hd_AddedOutbounds :: "string list"
  hd_RoutingConfig :: "string option"

definition no_diff :: HotDiff where
  "no_diff = \<lparr>hd_TuicRelayChanges = [], hd_RemovedInboundTags = [], hd_AddedInbounds = [], hd_RemovedUsers = [],
     hd_AddedUsers = [], hd_DroppedClients = [], hd_RemovedOutboundTags = [], hd_AddedOutbounds = [], hd_RoutingConfig = None\<rparr>"

definition user_key :: "UserOp \<Rightarrow> string" where
  "user_key u = uo_Tag u @ CHR 0x00 # uo_Email u"

definition DropsUsers :: "HotDiff \<Rightarrow> bool" where
  "DropsUsers d \<longleftrightarrow>
     (if hd_DroppedClients d \<noteq> [] then True
      else if hd_RemovedUsers d = [] then False
      else let readded = map user_key (hd_AddedUsers d) in
        list_ex (\<lambda>u. user_key u \<notin> set readded) (hd_RemovedUsers d))"

definition Empty_diff :: "HotDiff \<Rightarrow> bool" where
  "Empty_diff d \<longleftrightarrow> hd_TuicRelayChanges d = [] \<and> hd_RemovedInboundTags d = [] \<and> hd_AddedInbounds d = []
     \<and> hd_RemovedUsers d = [] \<and> hd_AddedUsers d = [] \<and> hd_RemovedOutboundTags d = [] \<and> hd_AddedOutbounds d = []
     \<and> hd_RoutingConfig d = None"

subsection \<open>Canonical sections\<close>

record hot_env =
  he_decode :: "string \<Rightarrow> json option"
  he_parse :: "string \<Rightarrow> json option"
  he_elements :: "string \<Rightarrow> string list option"
  he_compact :: "string \<Rightarrow> string option"

definition canonicalJSON :: "hot_env \<Rightarrow> string \<Rightarrow> string option" where
  "canonicalJSON env raw =
     (if raw = [] then Some []
      else case he_decode env raw of None \<Rightarrow> None
        | Some v \<Rightarrow> if v = JNull then Some [] else Some (marshal v))"

definition rawEqualNormalized :: "hot_env \<Rightarrow> string \<Rightarrow> string \<Rightarrow> bool" where
  "rawEqualNormalized env a b =
     (if a = b then True
      else case canonicalJSON env a of None \<Rightarrow> False
        | Some na \<Rightarrow> (case canonicalJSON env b of None \<Rightarrow> False | Some nb \<Rightarrow> na = nb))"

definition inboundEqualNormalized :: "hot_env \<Rightarrow> InboundConfig \<Rightarrow> InboundConfig \<Rightarrow> bool" where
  "inboundEqualNormalized env a b \<longleftrightarrow> ic_Port a = ic_Port b \<and> ic_Protocol a = ic_Protocol b \<and> ic_Tag a = ic_Tag b
     \<and> rawEqualNormalized env (ic_Listen a) (ic_Listen b) \<and> rawEqualNormalized env (ic_Settings a) (ic_Settings b)
     \<and> rawEqualNormalized env (ic_StreamSettings a) (ic_StreamSettings b) \<and> rawEqualNormalized env (ic_Sniffing a) (ic_Sniffing b)"

text \<open>Decoding into a \<open>map[string]any\<close>; \<open>null\<close> makes the map nil.\<close>

definition decode_map :: "hot_env \<Rightarrow> string \<Rightarrow> (string \<times> json) list option option" where
  "decode_map env raw = (case he_decode env raw of
     None \<Rightarrow> None
   | Some v \<Rightarrow> (case canon v of JObj m \<Rightarrow> Some (Some m) | JNull \<Rightarrow> Some None | _ \<Rightarrow> None))"

record clientEntry =
  ce_user :: "(string \<times> json) list"
  ce_norm :: string

fun index_clients :: "json list \<Rightarrow> (string \<times> clientEntry) list \<Rightarrow> (string \<times> clientEntry) list option" where
  "index_clients [] clients = Some clients"
| "index_clients (c # cs) clients =
     (case c of
        JObj obj \<Rightarrow>
          (let email = str_field obj ''email'' in
           if email = [] then None
           else if map_of clients email \<noteq> None then None
           else index_clients cs (clients @ [(email, \<lparr>ce_user = obj, ce_norm = marshal (JObj obj)\<rparr>)]))
      | _ \<Rightarrow> None)"

definition splitSettingsClients :: "hot_env \<Rightarrow> string \<Rightarrow> ((string \<times> clientEntry) list \<times> string) option" where
  "splitSettingsClients env raw =
     (if raw = [] then None
      else case decode_map env raw of
        Some (Some settings) \<Rightarrow>
          (case map_of settings ''clients'' of
             Some (JArr cs) \<Rightarrow>
               (case index_clients cs [] of None \<Rightarrow> None
                | Some clients \<Rightarrow> Some (clients, marshal (JObj (AList.delete ''clients'' settings))))
           | _ \<Rightarrow> None)
      | _ \<Rightarrow> None)"

subsection \<open>Properties of an inbound\<close>

definition unmarshal :: "hot_env \<Rightarrow> (json \<Rightarrow> 'a \<Rightarrow> 'a option) \<Rightarrow> 'a \<Rightarrow> string \<Rightarrow> 'a option" where
  "unmarshal env into zero raw = (case he_parse env raw of None \<Rightarrow> None | Some v \<Rightarrow> into v zero)"

definition inboundUsesReality :: "hot_env \<Rightarrow> InboundConfig \<Rightarrow> bool" where
  "inboundUsesReality env ib =
     (if ic_StreamSettings ib = [] then False
      else unmarshal env (into_struct [(''security'', into_string)]) [] (ic_StreamSettings ib) = Some ''reality'')"

definition inboundUsesTproxy :: "hot_env \<Rightarrow> InboundConfig \<Rightarrow> bool" where
  "inboundUsesTproxy env ib =
     (if ic_StreamSettings ib = [] then False
      else case unmarshal env (into_struct [(''sockopt'', into_struct [(''tproxy'', into_string)])]) [] (ic_StreamSettings ib) of
        None \<Rightarrow> False
      | Some tproxy \<Rightarrow> tproxy \<noteq> [] \<and> tproxy \<noteq> ''off'')"

definition inboundUsesSocksAccounts :: "hot_env \<Rightarrow> InboundConfig \<Rightarrow> bool" where
  "inboundUsesSocksAccounts env ib =
     (if ic_Protocol ib \<noteq> ''socks'' \<or> ic_Settings ib = [] then False
      else unmarshal env (into_struct [(''auth'', into_string)]) [] (ic_Settings ib) = Some ''password'')"

definition inboundHasReverseClient :: "hot_env \<Rightarrow> InboundConfig \<Rightarrow> bool" where
  "inboundHasReverseClient env ib =
     (case unmarshal env (into_struct [(''clients'', into_slice (into_struct [(''reverse'', \<lambda>v _. Some (Some v))]) None)]) [] (ic_Settings ib) of
        None \<Rightarrow> False
      | Some reverses \<Rightarrow> list_ex (\<lambda>r. case r of None \<Rightarrow> False | Some v \<Rightarrow> v \<noteq> JNull) reverses)"

definition shadowsocksSettingsMethod :: "hot_env \<Rightarrow> string \<Rightarrow> string" where
  "shadowsocksSettingsMethod env rest =
     (case unmarshal env (into_struct [(''method'', into_string)]) [] rest of None \<Rightarrow> [] | Some method \<Rightarrow> method)"

definition userWithCipher :: "(string \<times> json) list \<Rightarrow> string \<Rightarrow> (string \<times> json) list" where
  "userWithCipher user cipher = (if cipher = [] then user else AList.update ''cipher'' (JStr cipher) user)"

definition apiTagFromConfig :: "hot_env \<Rightarrow> string \<Rightarrow> string" where
  "apiTagFromConfig env api =
     (if api \<noteq> [] then
        (case unmarshal env (into_struct [(''tag'', into_string)]) [] api of
           Some t \<Rightarrow> if t \<noteq> [] then t else ''api'' | None \<Rightarrow> ''api'')
      else ''api'')"

text \<open>\<open>json.Marshal\<close> of an inbound: the raw sections are compacted, and an error when one is not JSON.\<close>

definition marshal_raw :: "hot_env \<Rightarrow> string \<Rightarrow> string option" where
  "marshal_raw env raw = (if raw = [] then Some ''null'' else he_compact env raw)"

definition member :: "string \<Rightarrow> string \<Rightarrow> string" where
  "member name text = json_quote name @ CHR '':'' # text"

definition marshal_inbound :: "hot_env \<Rightarrow> InboundConfig \<Rightarrow> string option" where
  "marshal_inbound env ib =
     (case (marshal_raw env (ic_Listen ib), marshal_raw env (ic_Settings ib),
            marshal_raw env (ic_StreamSettings ib), marshal_raw env (ic_Sniffing ib)) of
        (Some listen, Some settings, Some stream, Some sniffing) \<Rightarrow>
          Some (CHR ''{'' # member ''listen'' listen @ '','' @ member ''port'' (itoa (ic_Port ib)) @ '','' @
            member ''protocol'' (json_quote (ic_Protocol ib)) @ '','' @ member ''settings'' settings @
            (if ic_StreamSettings ib = [] then [] else '','' @ member ''streamSettings'' stream) @ '','' @
            member ''tag'' (json_quote (ic_Tag ib)) @
            (if ic_Sniffing ib = [] then [] else '','' @ member ''sniffing'' sniffing) @ ''}'')
      | _ \<Rightarrow> None)"

subsection \<open>Users of an inbound\<close>

definition userDiffableProtocols :: "string list" where
  "userDiffableProtocols = [''vless'', ''vmess'', ''trojan'', ''hysteria'', ''masque'', ''shadowsocks'']"

definition droppedClients :: "hot_env \<Rightarrow> InboundConfig \<Rightarrow> InboundConfig \<Rightarrow> UserOp list" where
  "droppedClients env oldIb newIb =
     (case splitSettingsClients env (ic_Settings oldIb) of None \<Rightarrow> []
      | Some (oldClients, _) \<Rightarrow> (case splitSettingsClients env (ic_Settings newIb) of None \<Rightarrow> []
        | Some (newClients, _) \<Rightarrow>
            concat (map (\<lambda>(email, _). if map_of newClients email = None
              then [\<lparr>uo_Tag = ic_Tag newIb, uo_Protocol = ic_Protocol newIb, uo_Email = email, uo_User = None\<rparr>] else [])
              oldClients)))"

definition changed_user :: "(string \<times> clientEntry) list \<Rightarrow> string \<times> clientEntry \<Rightarrow> bool" where
  "changed_user newClients = (\<lambda>(email, oldC). case map_of newClients email of None \<Rightarrow> True | Some newC \<Rightarrow> ce_norm oldC \<noteq> ce_norm newC)"

definition user_op :: "InboundConfig \<Rightarrow> string \<Rightarrow> (string \<times> json) list option \<Rightarrow> UserOp" where
  "user_op ib email user = \<lparr>uo_Tag = ic_Tag ib, uo_Protocol = ic_Protocol ib, uo_Email = email, uo_User = user\<rparr>"

definition replaced_user :: "InboundConfig \<Rightarrow> string \<Rightarrow> (string \<times> clientEntry) list \<Rightarrow> string \<times> clientEntry \<Rightarrow> UserOp list" where
  "replaced_user oldIb cipher newClients = (\<lambda>(email, oldC).
     if changed_user newClients (email, oldC) then
       (case map_of newClients email of None \<Rightarrow> [] | Some newC \<Rightarrow> [user_op oldIb email (Some (userWithCipher (ce_user newC) cipher))])
     else [])"

definition fresh_user :: "InboundConfig \<Rightarrow> string \<Rightarrow> (string \<times> clientEntry) list \<Rightarrow> string \<times> clientEntry \<Rightarrow> UserOp list" where
  "fresh_user oldIb cipher oldClients = (\<lambda>(email, newC).
     if map_of oldClients email = None then [user_op oldIb email (Some (userWithCipher (ce_user newC) cipher))] else [])"

definition readded_users :: "InboundConfig \<Rightarrow> string \<Rightarrow> (string \<times> clientEntry) list \<Rightarrow> (string \<times> clientEntry) list \<Rightarrow> UserOp list" where
  "readded_users oldIb cipher oldClients newClients =
     concat (map (replaced_user oldIb cipher newClients) oldClients) @ concat (map (fresh_user oldIb cipher oldClients) newClients)"

definition diffInboundUsers :: "hot_env \<Rightarrow> InboundConfig \<Rightarrow> InboundConfig \<Rightarrow> HotDiff \<Rightarrow> HotDiff option" where
  "diffInboundUsers env oldIb newIb diff =
     (if ic_Port oldIb \<noteq> ic_Port newIb \<or> ic_Protocol oldIb \<noteq> ic_Protocol newIb \<or> ic_Tag oldIb \<noteq> ic_Tag newIb then None
      else if ic_Protocol oldIb \<notin> set userDiffableProtocols then None
      else if \<not> rawEqualNormalized env (ic_Listen oldIb) (ic_Listen newIb)
         \<or> \<not> rawEqualNormalized env (ic_StreamSettings oldIb) (ic_StreamSettings newIb)
         \<or> \<not> rawEqualNormalized env (ic_Sniffing oldIb) (ic_Sniffing newIb) then None
      else case splitSettingsClients env (ic_Settings oldIb) of None \<Rightarrow> None
      | Some (oldClients, oldRest) \<Rightarrow> (case splitSettingsClients env (ic_Settings newIb) of None \<Rightarrow> None
        | Some (newClients, newRest) \<Rightarrow>
            if oldRest \<noteq> newRest then None
            else let cipher = (if ic_Protocol newIb = ''shadowsocks'' then shadowsocksSettingsMethod env newRest else []) in
              Some (diff\<lparr>hd_RemovedUsers := hd_RemovedUsers diff
                      @ map (\<lambda>(email, _). user_op oldIb email None) (filter (changed_user newClients) oldClients),
                    hd_AddedUsers := hd_AddedUsers diff @ readded_users oldIb cipher oldClients newClients\<rparr>)))"

definition InboundUserOps :: "hot_env \<Rightarrow> InboundConfig \<Rightarrow> InboundConfig \<Rightarrow> HotDiff option" where
  "InboundUserOps env oldIb newIb =
     (if inboundEqualNormalized env oldIb newIb then Some no_diff else diffInboundUsers env oldIb newIb no_diff)"

subsection \<open>Inbounds\<close>

fun inboundsByTag :: "InboundConfig list \<Rightarrow> (string \<times> InboundConfig) list \<Rightarrow> (string \<times> InboundConfig) list option" where
  "inboundsByTag [] byTag = Some byTag"
| "inboundsByTag (ib # ibs) byTag =
     (let tag = ic_Tag ib in
      if tag = [] then None
      else if map_of byTag tag \<noteq> None then None
      else inboundsByTag ibs (byTag @ [(tag, ib)]))"

definition is_api :: "string \<Rightarrow> InboundConfig \<Rightarrow> bool" where
  "is_api apiTag ib \<longleftrightarrow> ic_Tag ib = apiTag \<or> ic_Tag ib = ''api''"

text \<open>An old inbound that still exists but changed, after the checks for the API and TUIC relays.\<close>

definition changed_inbound :: "hot_env \<Rightarrow> InboundConfig \<Rightarrow> InboundConfig \<Rightarrow> HotDiff \<Rightarrow> HotDiff option" where
  "changed_inbound env oldIb newIb diff =
     (if inboundHasReverseClient env oldIb \<or> inboundHasReverseClient env newIb then None
      else let diff = (if ic_TuicRelay oldIb then diff
                       else diff\<lparr>hd_DroppedClients := hd_DroppedClients diff @ droppedClients env oldIb newIb\<rparr>) in
        case diffInboundUsers env oldIb newIb diff of
          Some diff \<Rightarrow> Some diff
        | None \<Rightarrow>
            if inboundUsesReality env oldIb \<or> inboundUsesReality env newIb then None
            else if inboundUsesTproxy env oldIb \<or> inboundUsesTproxy env newIb then None
            else if inboundUsesSocksAccounts env oldIb \<or> inboundUsesSocksAccounts env newIb then None
            else case marshal_inbound env newIb of
              None \<Rightarrow> None
            | Some raw \<Rightarrow> Some (diff\<lparr>hd_RemovedInboundTags := hd_RemovedInboundTags diff @ [ic_Tag oldIb],
                hd_AddedInbounds := hd_AddedInbounds diff @ [raw]\<rparr>))"

definition relay_change :: "InboundConfig option \<Rightarrow> InboundConfig option \<Rightarrow> HotDiff \<Rightarrow> HotDiff" where
  "relay_change previous next_ib diff = diff\<lparr>hd_TuicRelayChanges :=
     hd_TuicRelayChanges diff @ [\<lparr>rp_Previous = previous, rp_Next = next_ib\<rparr>]\<rparr>"

definition old_inbound :: "hot_env \<Rightarrow> string \<Rightarrow> (string \<times> InboundConfig) list \<Rightarrow> InboundConfig \<Rightarrow> HotDiff \<Rightarrow> HotDiff option" where
  "old_inbound env apiTag newByTag oldIb diff =
     (let newIb = map_of newByTag (ic_Tag oldIb) in
      if (case newIb of None \<Rightarrow> False | Some n \<Rightarrow> inboundEqualNormalized env oldIb n) then Some diff
      else if is_api apiTag oldIb then None
      else if ic_TuicRelay oldIb \<and> (case newIb of None \<Rightarrow> True | Some n \<Rightarrow> ic_TuicRelay n)
      then Some (relay_change (Some oldIb) newIb diff)
      else case newIb of
        None \<Rightarrow> Some (diff\<lparr>hd_RemovedInboundTags := hd_RemovedInboundTags diff @ [ic_Tag oldIb]\<rparr>)
      | Some n \<Rightarrow> changed_inbound env oldIb n diff)"

definition new_inbound :: "hot_env \<Rightarrow> string \<Rightarrow> (string \<times> InboundConfig) list \<Rightarrow> InboundConfig \<Rightarrow> HotDiff \<Rightarrow> HotDiff option" where
  "new_inbound env apiTag oldByTag newIb diff =
     (if map_of oldByTag (ic_Tag newIb) \<noteq> None then Some diff
      else if is_api apiTag newIb then None
      else if ic_TuicRelay newIb then Some (relay_change None (Some newIb) diff)
      else if inboundUsesTproxy env newIb then None
      else if inboundUsesSocksAccounts env newIb then None
      else case marshal_inbound env newIb of
        None \<Rightarrow> None
      | Some raw \<Rightarrow> Some (diff\<lparr>hd_AddedInbounds := hd_AddedInbounds diff @ [raw]\<rparr>))"

text \<open>A loop over a list whose body may return early with a failure.\<close>

fun each_step :: "('a \<Rightarrow> 's \<Rightarrow> 's option) \<Rightarrow> 'a list \<Rightarrow> 's \<Rightarrow> 's option" where
  "each_step f [] s = Some s"
| "each_step f (x # xs) s = (case f x s of None \<Rightarrow> None | Some s \<Rightarrow> each_step f xs s)"

definition diffInbounds :: "hot_env \<Rightarrow> Config \<Rightarrow> Config \<Rightarrow> HotDiff \<Rightarrow> HotDiff option" where
  "diffInbounds env oldCfg newCfg diff =
     (case inboundsByTag (cf_InboundConfigs oldCfg) [] of None \<Rightarrow> None
      | Some oldByTag \<Rightarrow> (case inboundsByTag (cf_InboundConfigs newCfg) [] of None \<Rightarrow> None
        | Some newByTag \<Rightarrow>
            (let apiTag = apiTagFromConfig env (cf_API newCfg) in
             case each_step (old_inbound env apiTag newByTag) (cf_InboundConfigs oldCfg) diff of None \<Rightarrow> None
             | Some diff \<Rightarrow> each_step (new_inbound env apiTag oldByTag) (cf_InboundConfigs newCfg) diff)))"

subsection \<open>Outbounds and routing\<close>

record outboundEntry =
  oe_tag :: string
  oe_raw :: string
  oe_norm :: string

fun parse_entries :: "hot_env \<Rightarrow> string list \<Rightarrow> string list \<Rightarrow> outboundEntry list option" where
  "parse_entries env [] seen = Some []"
| "parse_entries env (elem # elems) seen =
     (case unmarshal env (into_struct [(''tag'', into_string)]) [] elem of None \<Rightarrow> None
      | Some tag \<Rightarrow>
          if tag = [] then None
          else if tag \<in> set seen then None
          else case canonicalJSON env elem of None \<Rightarrow> None
            | Some norm \<Rightarrow> (case parse_entries env elems (tag # seen) of None \<Rightarrow> None
              | Some entries \<Rightarrow> Some (\<lparr>oe_tag = tag, oe_raw = elem, oe_norm = norm\<rparr> # entries)))"

definition parseOutbounds :: "hot_env \<Rightarrow> string \<Rightarrow> outboundEntry list option" where
  "parseOutbounds env raw =
     (if raw = [] then Some []
      else case he_elements env raw of None \<Rightarrow> None | Some elems \<Rightarrow> parse_entries env elems [])"

definition outbound_of :: "outboundEntry list \<Rightarrow> string \<Rightarrow> outboundEntry option" where
  "outbound_of entries tag = List.find (\<lambda>e. oe_tag e = tag) entries"

definition changed_outbound :: "outboundEntry list \<Rightarrow> outboundEntry \<Rightarrow> bool" where
  "changed_outbound newOut oldE = (case outbound_of newOut (oe_tag oldE) of None \<Rightarrow> True | Some newE \<Rightarrow> oe_norm oldE \<noteq> oe_norm newE)"

definition diffOutbounds :: "hot_env \<Rightarrow> Config \<Rightarrow> Config \<Rightarrow> HotDiff \<Rightarrow> HotDiff option" where
  "diffOutbounds env oldCfg newCfg diff =
     (case parseOutbounds env (cf_OutboundConfigs oldCfg) of None \<Rightarrow> None
      | Some oldOut \<Rightarrow> (case parseOutbounds env (cf_OutboundConfigs newCfg) of None \<Rightarrow> None
        | Some newOut \<Rightarrow>
            if (oldOut = []) \<noteq> (newOut = []) then None
            else if oldOut \<noteq> [] \<and> (oe_tag (hd oldOut) \<noteq> oe_tag (hd newOut) \<or> oe_norm (hd oldOut) \<noteq> oe_norm (hd newOut)) then None
            else let changed = filter (changed_outbound newOut) oldOut in
              Some (diff\<lparr>hd_RemovedOutboundTags := hd_RemovedOutboundTags diff @ map oe_tag changed,
                hd_AddedOutbounds := hd_AddedOutbounds diff
                  @ concat (map (\<lambda>oldE. case outbound_of newOut (oe_tag oldE) of None \<Rightarrow> [] | Some newE \<Rightarrow> [oe_raw newE]) changed)
                  @ map oe_raw (filter (\<lambda>newE. outbound_of oldOut (oe_tag newE) = None) newOut)\<rparr>)))"

definition routingWithoutReloadable :: "hot_env \<Rightarrow> string \<Rightarrow> string option" where
  "routingWithoutReloadable env raw =
     (case (if raw = [] then Some (Some []) else decode_map env raw) of
        None \<Rightarrow> None
      | Some None \<Rightarrow> Some (marshal JNull)
      | Some (Some parsed) \<Rightarrow> Some (marshal (JObj (AList.delete ''balancers'' (AList.delete ''rules'' parsed)))))"

definition diffRouting :: "hot_env \<Rightarrow> Config \<Rightarrow> Config \<Rightarrow> HotDiff \<Rightarrow> HotDiff option" where
  "diffRouting env oldCfg newCfg diff =
     (if cf_RouterConfig oldCfg = cf_RouterConfig newCfg then Some diff
      else if cf_RouterConfig oldCfg = [] \<or> cf_RouterConfig newCfg = [] then None
      else case routingWithoutReloadable env (cf_RouterConfig oldCfg) of None \<Rightarrow> None
      | Some oldRest \<Rightarrow> (case routingWithoutReloadable env (cf_RouterConfig newCfg) of None \<Rightarrow> None
        | Some newRest \<Rightarrow>
            if oldRest \<noteq> newRest then None else Some (diff\<lparr>hd_RoutingConfig := Some (cf_RouterConfig newCfg)\<rparr>)))"

definition static_sections :: "Config \<Rightarrow> string list" where
  "static_sections c = [cf_LogConfig c, cf_DNSConfig c, cf_Transport c, cf_Policy c, cf_API c, cf_Stats c, cf_Reverse c,
     cf_FakeDNS c, cf_Observatory c, cf_BurstObservatory c, cf_Metrics c, cf_Geodata c, cf_Env c]"

definition ComputeHotDiff :: "hot_env \<Rightarrow> Config option \<Rightarrow> Config option \<Rightarrow> HotDiff option" where
  "ComputeHotDiff env oldCfg newCfg =
     (case (oldCfg, newCfg) of
        (Some oldCfg, Some newCfg) \<Rightarrow>
          if \<not> list_all2 (rawEqualNormalized env) (static_sections oldCfg) (static_sections newCfg) then None
          else (case diffInbounds env oldCfg newCfg no_diff of None \<Rightarrow> None
            | Some diff \<Rightarrow> (case diffOutbounds env oldCfg newCfg diff of None \<Rightarrow> None
              | Some diff \<Rightarrow> diffRouting env oldCfg newCfg diff))
      | _ \<Rightarrow> None)"

end
