(* ===== verification/Hot_Core.thy ===== *)
theory Hot_Core
  imports Hot_Diff
begin

text \<open>
  What a running core serves, as an abstract specification of Xray for the operations of its API, and
  the proof that the operations of a hot diff bring the core of the old configuration to the core of the new one.

  Xray itself is outside the repository. The specification states the documented effect of an operation:
  handlers are addressed by tag, users of a handler by email, the first outbound is the default and
  additions are appended, and routing rules are replaced as a whole. How Xray reads the JSON text of an
  inbound is a parameter (\<open>read\<close>).
\<close>

datatype raw_section = Parsed string | Unparsed string

definition section_of :: "hot_env \<Rightarrow> string \<Rightarrow> raw_section" where
  "section_of env raw = (case canonicalJSON env raw of Some c \<Rightarrow> Parsed c | None \<Rightarrow> Unparsed raw)"

datatype handler_settings = Clients string | Opaque raw_section

record handler =
  hn_Port :: int
  hn_Protocol :: string
  hn_Listen :: raw_section
  hn_StreamSettings :: raw_section
  hn_Sniffing :: raw_section
  hn_settings :: handler_settings
  hn_users :: "string \<Rightarrow> (string \<times> json) list option"

definition cipher_of :: "hot_env \<Rightarrow> string \<Rightarrow> string \<Rightarrow> string" where
  "cipher_of env protocol rest = (if protocol = ''shadowsocks'' then shadowsocksSettingsMethod env rest else [])"

definition settings_of :: "hot_env \<Rightarrow> InboundConfig \<Rightarrow> handler_settings" where
  "settings_of env ib = (case splitSettingsClients env (ic_Settings ib) of
     None \<Rightarrow> Opaque (section_of env (ic_Settings ib)) | Some (_, rest) \<Rightarrow> Clients rest)"

definition users_of :: "hot_env \<Rightarrow> InboundConfig \<Rightarrow> string \<Rightarrow> (string \<times> json) list option" where
  "users_of env ib email = (case splitSettingsClients env (ic_Settings ib) of
     None \<Rightarrow> None
   | Some (clients, rest) \<Rightarrow> map_option (\<lambda>c. userWithCipher (ce_user c) (cipher_of env (ic_Protocol ib) rest)) (map_of clients email))"

definition handler_of :: "hot_env \<Rightarrow> InboundConfig \<Rightarrow> handler" where
  "handler_of env ib = \<lparr>hn_Port = ic_Port ib, hn_Protocol = ic_Protocol ib, hn_Listen = section_of env (ic_Listen ib),
     hn_StreamSettings = section_of env (ic_StreamSettings ib), hn_Sniffing = section_of env (ic_Sniffing ib),
     hn_settings = settings_of env ib, hn_users = users_of env ib\<rparr>"

record core =
  co_inbounds :: "string \<Rightarrow> handler option"
  co_outbounds :: "(string \<times> string) list"
  co_rules :: string
  co_routing :: "string option"
  co_static :: "raw_section list"

definition inbound_of :: "InboundConfig list \<Rightarrow> string \<Rightarrow> InboundConfig option" where
  "inbound_of ibs tag = List.find (\<lambda>ib. ic_Tag ib = tag) ibs"

definition core_of :: "hot_env \<Rightarrow> Config \<Rightarrow> core" where
  "core_of env cfg =
     \<lparr>co_inbounds = (\<lambda>tag. map_option (handler_of env) (inbound_of (cf_InboundConfigs cfg) tag)),
      co_outbounds = (case parseOutbounds env (cf_OutboundConfigs cfg) of None \<Rightarrow> [] | Some es \<Rightarrow> map (\<lambda>e. (oe_tag e, oe_norm e)) es),
      co_rules = cf_RouterConfig cfg,
      co_routing = routingWithoutReloadable env (cf_RouterConfig cfg),
      co_static = map (section_of env) (static_sections cfg)\<rparr>"

text \<open>Two cores serve the same: the order of outbounds matters only for the default one.\<close>

definition same_core :: "core \<Rightarrow> core \<Rightarrow> bool" where
  "same_core a b \<longleftrightarrow> co_inbounds a = co_inbounds b \<and> map_of (co_outbounds a) = map_of (co_outbounds b)
     \<and> distinct (map fst (co_outbounds a)) \<and> (co_outbounds a = [] \<longleftrightarrow> co_outbounds b = [])
     \<and> (co_outbounds a \<noteq> [] \<longrightarrow> hd (co_outbounds a) = hd (co_outbounds b))
     \<and> co_rules a = co_rules b \<and> co_routing a = co_routing b \<and> co_static a = co_static b"

subsection \<open>The operations\<close>

datatype core_op = ReplaceRelay InboundReplacement | OpRemoveUser string string | OpDelInbound string | OpDelOutbound string
  | OpAddOutbound string | OpAddInbound string | OpAddUser string string "(string \<times> json) list" | OpRouting string

type_synonym reader = "string \<Rightarrow> (string \<times> handler) option"

definition read_outbound :: "hot_env \<Rightarrow> string \<Rightarrow> (string \<times> string) list" where
  "read_outbound env raw = (case parse_entries env [raw] [] of None \<Rightarrow> [] | Some es \<Rightarrow> map (\<lambda>e. (oe_tag e, oe_norm e)) es)"

definition relay_at :: "hot_env \<Rightarrow> InboundReplacement \<Rightarrow> string \<Rightarrow> handler option \<Rightarrow> handler option" where
  "relay_at env c t h =
     (case rp_Next c of Some n \<Rightarrow> if ic_Tag n = t then Some (handler_of env n)
         else (case rp_Previous c of Some p \<Rightarrow> if ic_Tag p = t then None else h | None \<Rightarrow> h)
      | None \<Rightarrow> (case rp_Previous c of Some p \<Rightarrow> if ic_Tag p = t then None else h | None \<Rightarrow> h))"

definition set_user :: "string \<Rightarrow> (string \<times> json) list option \<Rightarrow> handler \<Rightarrow> handler" where
  "set_user email user h = h\<lparr>hn_users := (hn_users h)(email := user)\<rparr>"

text \<open>The effect of an operation on the handler of one tag, and on the whole core.\<close>

fun op_at :: "hot_env \<Rightarrow> reader \<Rightarrow> string \<Rightarrow> core_op \<Rightarrow> handler option \<Rightarrow> handler option" where
  "op_at env read t (ReplaceRelay c) h = relay_at env c t h"
| "op_at env read t (OpRemoveUser tag email) h = (if tag = t then map_option (set_user email None) h else h)"
| "op_at env read t (OpDelInbound tag) h = (if tag = t then None else h)"
| "op_at env read t (OpAddInbound raw) h = (case read raw of Some (tag, n) \<Rightarrow> if tag = t then Some n else h | None \<Rightarrow> h)"
| "op_at env read t (OpAddUser tag email user) h = (if tag = t then map_option (set_user email (Some user)) h else h)"
| "op_at env read t _ h = h"

fun op_outbounds :: "hot_env \<Rightarrow> core_op \<Rightarrow> (string \<times> string) list \<Rightarrow> (string \<times> string) list" where
  "op_outbounds env (OpDelOutbound tag) os = filter (\<lambda>e. fst e \<noteq> tag) os"
| "op_outbounds env (OpAddOutbound raw) os = os @ read_outbound env raw"
| "op_outbounds env _ os = os"

definition core_step :: "hot_env \<Rightarrow> reader \<Rightarrow> core_op \<Rightarrow> core \<Rightarrow> core" where
  "core_step env read a c = c\<lparr>
     co_inbounds := (\<lambda>t. op_at env read t a (co_inbounds c t)),
     co_outbounds := op_outbounds env a (co_outbounds c),
     co_rules := (case a of OpRouting raw \<Rightarrow> raw | _ \<Rightarrow> co_rules c)\<rparr>"

definition core_run :: "hot_env \<Rightarrow> reader \<Rightarrow> core_op list \<Rightarrow> core \<Rightarrow> core" where
  "core_run env read as = fold (core_step env read) as"

text \<open>The operations of a diff in the order in which they are applied.\<close>

definition add_user_op :: "UserOp \<Rightarrow> core_op" where
  "add_user_op u = OpAddUser (uo_Tag u) (uo_Email u) (case uo_User u of Some user \<Rightarrow> user | None \<Rightarrow> [])"

definition hot_ops :: "HotDiff \<Rightarrow> core_op list" where
  "hot_ops d = map ReplaceRelay (hd_TuicRelayChanges d)
     @ map (\<lambda>u. OpRemoveUser (uo_Tag u) (uo_Email u)) (hd_RemovedUsers d)
     @ map OpDelInbound (hd_RemovedInboundTags d)
     @ map OpDelOutbound (hd_RemovedOutboundTags d)
     @ map OpAddOutbound (hd_AddedOutbounds d)
     @ map OpAddInbound (hd_AddedInbounds d)
     @ map add_user_op (hd_AddedUsers d)
     @ (case hd_RoutingConfig d of None \<Rightarrow> [] | Some raw \<Rightarrow> [OpRouting raw])"

text \<open>Xray reads the JSON of an inbound as the handler its configuration describes.\<close>

definition reads_inbounds :: "hot_env \<Rightarrow> reader \<Rightarrow> InboundConfig list \<Rightarrow> bool" where
  "reads_inbounds env read ibs \<longleftrightarrow>
     (\<forall>ib \<in> set ibs. \<forall>raw. marshal_inbound env ib = Some raw \<longrightarrow> read raw = Some (ic_Tag ib, handler_of env ib))"

definition decoder_ok :: "hot_env \<Rightarrow> bool" where
  "decoder_ok env \<longleftrightarrow> (\<forall>raw v. he_decode env raw = Some v \<longrightarrow> json_ok v)"

subsection \<open>Canonical values\<close>

lemma go_map_id: "sorted (map fst m) \<Longrightarrow> wf_map m \<Longrightarrow> go_map m = m"
proof -
  assume s: "sorted (map fst m)" and w: "wf_map m"
  have "fold (\<lambda>(k, v). AList.update k v) m m0 = m0 @ m" if "distinct (map fst (m0 @ m))" for m0
    using that by (induction m arbitrary: m0) (auto simp: update_new map_of_None_fst)
  from this [of "[]"] have "fold (\<lambda>(k, v). AList.update k v) m [] = m" using w by (simp add: wf_map_def)
  then show ?thesis using s by (simp add: go_map_def sort_key_id_if_sorted)
qed

lemma go_map_values: "(k, v) \<in> set (go_map m) \<Longrightarrow> (k, v) \<in> set m"
  by (metis go_map_of go_map_wf map_of_SomeD map_of_wf set_rev)

lemma canon_idem [simp]: "canon (canon v) = canon v"
proof (induction v rule: canon.induct)
  case (1 m)
  let ?m = "go_map (map (\<lambda>(k, v). (k, canon v)) m)"
  have "map (\<lambda>(k, v). (k, canon v)) ?m = ?m"
  proof (rule map_idI)
    fix e assume "e \<in> set ?m"
    then have "(fst e, snd e) \<in> set (map (\<lambda>(k, v). (k, canon v)) m)" by (metis go_map_values prod.collapse)
    then obtain k w where w: "(k, w) \<in> set m" "fst e = k" "snd e = canon w" by auto
    have "canon (canon w) = canon w" by (rule 1 [OF w(1) refl])
    then show "(\<lambda>(k, v). (k, canon v)) e = e" using w by (simp add: split_beta prod_eq_iff)
  qed
  then show ?case by (simp add: go_map_id)
qed simp_all

lemma canon_object: "canon v = JObj m \<Longrightarrow> (k, w) \<in> set m \<Longrightarrow> canon w = w"
proof (cases v)
  case (JObj m')
  assume "canon v = JObj m" "(k, w) \<in> set m"
  then have "(k, w) \<in> set (map (\<lambda>(k, v). (k, canon v)) m')" using JObj by (auto dest: go_map_values)
  then show "canon w = w" by auto
qed auto

lemma canon_array: "canon (JArr vs) = JArr vs \<Longrightarrow> v \<in> set vs \<Longrightarrow> canon v = v"
  by (induction vs) auto

subsection \<open>Equal sections\<close>

lemma rawEqual_section: "rawEqualNormalized env a b \<longleftrightarrow> section_of env a = section_of env b"
  by (auto simp: rawEqualNormalized_def section_of_def split: option.splits)

lemma canonical_equal_decode:
  assumes ok: "decoder_ok env" and eq: "canonicalJSON env a = canonicalJSON env b" "canonicalJSON env a \<noteq> None"
  shows "splitSettingsClients env a = splitSettingsClients env b"
proof -
  have null: "splitSettingsClients env r = None" if "canonicalJSON env r = Some []" for r
    using that unfolding canonicalJSON_def splitSettingsClients_def decode_map_def
    by (auto simp: marshal_def split: option.splits if_splits json.splits)
  show ?thesis
  proof (cases "canonicalJSON env a = Some []")
    case True
    then show ?thesis using null eq by simp
  next
    case False
    have nn: "\<exists>v. r \<noteq> [] \<and> he_decode env r = Some v \<and> canonicalJSON env r = Some (marshal v)"
      if "canonicalJSON env r \<noteq> None" "canonicalJSON env r \<noteq> Some []" for r
      using that by (auto simp: canonicalJSON_def split: if_splits option.splits)
    obtain v w where v: "a \<noteq> []" "he_decode env a = Some v" "canonicalJSON env a = Some (marshal v)"
      and w: "b \<noteq> []" "he_decode env b = Some w" "canonicalJSON env b = Some (marshal w)"
      using nn [of a] nn [of b] False eq by auto
    have "canon v = canon w" using ok v(2,3) w(2,3) eq by (simp add: decoder_ok_def marshal_eq)
    then show ?thesis by (simp add: splitSettingsClients_def decode_map_def v w)
  qed
qed

lemma section_equal_split:
  assumes "decoder_ok env" "section_of env a = section_of env b"
  shows "splitSettingsClients env a = splitSettingsClients env b"
proof (cases "canonicalJSON env a")
  case None
  then show ?thesis using assms(2) by (auto simp: section_of_def split: option.splits)
next
  case (Some c)
  then have "canonicalJSON env a = canonicalJSON env b" using assms(2) by (auto simp: section_of_def split: option.splits)
  then show ?thesis using canonical_equal_decode [OF assms(1)] Some by (metis option.distinct(1))
qed

lemma inboundEqual_handler:
  assumes "decoder_ok env" "inboundEqualNormalized env a b"
  shows "handler_of env a = handler_of env b"
proof -
  have "section_of env (ic_Settings a) = section_of env (ic_Settings b)"
    using assms(2) by (simp add: inboundEqualNormalized_def rawEqual_section)
  moreover from this have "splitSettingsClients env (ic_Settings a) = splitSettingsClients env (ic_Settings b)"
    by (rule section_equal_split [OF assms(1)])
  ultimately have "settings_of env a = settings_of env b" "users_of env a = users_of env b"
    using assms(2) by (simp_all add: inboundEqualNormalized_def settings_of_def users_of_def fun_eq_iff split: option.split)
  then show ?thesis using assms(2) by (simp add: inboundEqualNormalized_def rawEqual_section handler_of_def)
qed

subsection \<open>The clients of an inbound\<close>

lemma index_clients_inv:
  assumes "index_clients cs acc = Some cls" "wf_map acc" "\<And>c. c \<in> set cs \<Longrightarrow> canon c = c" "\<And>c. c \<in> set cs \<Longrightarrow> json_ok c"
    "\<And>e c. (e, c) \<in> set acc \<Longrightarrow> ce_norm c = marshal (JObj (ce_user c)) \<and> canon (JObj (ce_user c)) = JObj (ce_user c) \<and> json_ok (JObj (ce_user c))"
  shows "wf_map cls \<and> (\<forall>(e, c) \<in> set cls. ce_norm c = marshal (JObj (ce_user c)) \<and> canon (JObj (ce_user c)) = JObj (ce_user c)
    \<and> json_ok (JObj (ce_user c)))"
  using assms
proof (induction cs acc rule: index_clients.induct)
  case (2 c cs acc)
  then obtain obj where c: "c = JObj obj" by (auto split: json.splits)
  let ?e = "str_field obj ''email''" and ?c = "\<lparr>ce_user = obj, ce_norm = marshal (JObj obj)\<rparr>"
  have new: "?e \<noteq> []" "map_of acc ?e = None" "index_clients cs (acc @ [(?e, ?c)]) = Some cls"
    using "2.prems"(1) c by (auto simp: Let_def split: if_splits)
  have obj: "canon (JObj obj) = JObj obj" "json_ok (JObj obj)" using "2.prems"(3,4) [of c] c by simp_all
  show ?case
  proof (rule "2.IH" [OF c refl])
    show "wf_map (acc @ [(?e, ?c)])" using "2.prems"(2) new(2) by (auto simp: wf_map_def map_of_None_fst)
    show "ce_norm d = marshal (JObj (ce_user d)) \<and> canon (JObj (ce_user d)) = JObj (ce_user d) \<and> json_ok (JObj (ce_user d))"
      if "(e, d) \<in> set (acc @ [(?e, ?c)])" for e d
      using that "2.prems"(5) [of e d] obj by auto
  qed (use new "2.prems"(3,4) in auto)
qed auto

definition client_ok :: "clientEntry \<Rightarrow> bool" where
  "client_ok c \<longleftrightarrow> ce_norm c = marshal (JObj (ce_user c)) \<and> canon (JObj (ce_user c)) = JObj (ce_user c) \<and> json_ok (JObj (ce_user c))"

lemma split_clients_ok:
  assumes ok: "decoder_ok env" and split: "splitSettingsClients env raw = Some (cls, rest)"
  shows "wf_map cls" "(e, c) \<in> set cls \<Longrightarrow> client_ok c"
proof -
  obtain v settings cs where v: "he_decode env raw = Some v" "canon v = JObj settings"
    and cs: "map_of settings ''clients'' = Some (JArr cs)" "index_clients cs [] = Some cls"
    using split by (auto simp: splitSettingsClients_def decode_map_def split: if_splits option.splits json.splits)
  have mem: "(''clients'', JArr cs) \<in> set settings" using cs(1) by (rule map_of_SomeD)
  have "json_ok (JObj settings)" using ok v json_ok_canon by (metis decoder_ok_def)
  then have "json_ok (JArr cs)" using mem by (force simp: list_all_iff)
  moreover have "canon (JArr cs) = JArr cs" using canon_object [OF v(2) mem] .
  ultimately have "wf_map cls \<and> (\<forall>(e, c) \<in> set cls. ce_norm c = marshal (JObj (ce_user c)) \<and> canon (JObj (ce_user c)) = JObj (ce_user c)
    \<and> json_ok (JObj (ce_user c)))"
    using canon_array by (intro index_clients_inv [OF cs(2)]) (auto simp: list_all_iff)
  then show "wf_map cls" "(e, c) \<in> set cls \<Longrightarrow> client_ok c" by (auto simp: client_ok_def)
qed

lemma client_norm_eq: "client_ok c \<Longrightarrow> client_ok d \<Longrightarrow> ce_norm c = ce_norm d \<longleftrightarrow> ce_user c = ce_user d"
  unfolding client_ok_def by (metis json.inject(5) marshal_eq)

subsection \<open>Effects per tag\<close>

fun touches :: "reader \<Rightarrow> string \<Rightarrow> core_op \<Rightarrow> bool" where
  "touches read t (ReplaceRelay c) \<longleftrightarrow> (\<exists>ib. (rp_Previous c = Some ib \<or> rp_Next c = Some ib) \<and> ic_Tag ib = t)"
| "touches read t (OpRemoveUser tag email) \<longleftrightarrow> tag = t"
| "touches read t (OpDelInbound tag) \<longleftrightarrow> tag = t"
| "touches read t (OpAddInbound raw) \<longleftrightarrow> (case read raw of Some (tag, _) \<Rightarrow> tag = t | None \<Rightarrow> False)"
| "touches read t (OpAddUser tag email user) \<longleftrightarrow> tag = t"
| "touches read t _ \<longleftrightarrow> False"

definition trace :: "reader \<Rightarrow> string \<Rightarrow> HotDiff \<Rightarrow> core_op list" where
  "trace read t d = filter (touches read t) (hot_ops d)"

lemma untouched: "\<not> touches read t a \<Longrightarrow> op_at env read t a h = h"
  by (cases a) (auto simp: relay_at_def split: option.splits)

lemma fold_touching: "fold (op_at env read t) as h = fold (op_at env read t) (filter (touches read t) as) h"
  by (induction as arbitrary: h) (simp_all add: untouched)

lemma core_run_inbounds: "co_inbounds (core_run env read as c) t = fold (op_at env read t) as (co_inbounds c t)"
  unfolding core_run_def by (induction as arbitrary: c) (simp_all add: core_step_def)

lemma fold_remove_users:
  "fold (op_at env read t) (map (\<lambda>u. OpRemoveUser t (uo_Email u)) us) (Some h)
     = Some (h\<lparr>hn_users := (\<lambda>e. if e \<in> uo_Email ` set us then None else hn_users h e)\<rparr>)"
  by (induction us arbitrary: h) (auto simp: set_user_def fun_eq_iff)

lemma fold_add_users:
  assumes "\<And>u. u \<in> set us \<Longrightarrow> uo_Tag u = t \<and> uo_User u = g (uo_Email u) \<and> uo_User u \<noteq> None"
  shows "fold (op_at env read t) (map add_user_op us) (Some h)
     = Some (h\<lparr>hn_users := (\<lambda>e. if e \<in> uo_Email ` set us then g e else hn_users h e)\<rparr>)"
  using assms
proof (induction us arbitrary: h)
  case (Cons u us)
  obtain user where u: "uo_Tag u = t" "uo_User u = Some user" "g (uo_Email u) = Some user" using Cons.prems [of u]
    by (metis list.set_intros(1) not_None_eq)
  have "fold (op_at env read t) (map add_user_op us) (Some (set_user (uo_Email u) (Some user) h))
     = Some ((set_user (uo_Email u) (Some user) h)\<lparr>hn_users := (\<lambda>e. if e \<in> uo_Email ` set us then g e
         else hn_users (set_user (uo_Email u) (Some user) h) e)\<rparr>)"
    by (intro Cons.IH Cons.prems) simp
  moreover have "op_at env read t (add_user_op u) (Some h) = Some (set_user (uo_Email u) (Some user) h)"
    by (simp add: add_user_op_def u)
  ultimately show ?case using u by (auto simp: set_user_def fun_eq_iff)
qed simp

subsection \<open>Users of one inbound\<close>

lemma removed_emails:
  "uo_Email ` set (map (\<lambda>(e, _). user_op ib e None) (filter (changed_user new) old)) = {e. \<exists>c. (e, c) \<in> set old \<and> changed_user new (e, c)}"
  by (force simp: user_op_def)

lemma replaced_user_iff: "u \<in> set (replaced_user ib cipher new (e, oc)) \<longleftrightarrow> changed_user new (e, oc)
    \<and> (\<exists>c. map_of new e = Some c \<and> u = user_op ib e (Some (userWithCipher (ce_user c) cipher)))"
  unfolding replaced_user_def prod.case by (cases "changed_user new (e, oc)"; cases "map_of new e"; simp)

lemma fresh_user_iff: "u \<in> set (fresh_user ib cipher old (e, c)) \<longleftrightarrow> map_of old e = None
    \<and> u = user_op ib e (Some (userWithCipher (ce_user c) cipher))"
  unfolding fresh_user_def prod.case by (cases "map_of old e"; simp)

lemma readded_iff: "u \<in> set (readded_users ib cipher old new) \<longleftrightarrow>
    (\<exists>e oc c. (e, oc) \<in> set old \<and> changed_user new (e, oc) \<and> map_of new e = Some c
      \<and> u = user_op ib e (Some (userWithCipher (ce_user c) cipher)))
    \<or> (\<exists>e c. (e, c) \<in> set new \<and> map_of old e = None \<and> u = user_op ib e (Some (userWithCipher (ce_user c) cipher)))"
proof -
  have "u \<in> set (concat (map f xs)) \<longleftrightarrow> (\<exists>e c. (e, c) \<in> set xs \<and> u \<in> set (f (e, c)))"
    for f :: "string \<times> clientEntry \<Rightarrow> UserOp list" and xs by force
  then show ?thesis unfolding readded_users_def set_append Un_iff by (simp only: replaced_user_iff fresh_user_iff) blast
qed

lemma readded_exact:
  assumes "wf_map old" "wf_map new"
  shows "u \<in> set (readded_users ib cipher old new) \<longleftrightarrow> (\<exists>e c. u = user_op ib e (Some (userWithCipher (ce_user c) cipher))
     \<and> map_of new e = Some c \<and> (case map_of old e of None \<Rightarrow> True | Some oc \<Rightarrow> ce_norm oc \<noteq> ce_norm c))"
    (is "?l \<longleftrightarrow> (\<exists>e c. ?r e c)")
proof
  assume ?l
  then consider e oc c where "(e, oc) \<in> set old" "changed_user new (e, oc)" "map_of new e = Some c"
      "u = user_op ib e (Some (userWithCipher (ce_user c) cipher))"
    | e c where "(e, c) \<in> set new" "map_of old e = None" "u = user_op ib e (Some (userWithCipher (ce_user c) cipher))"
    unfolding readded_iff by blast
  then show "\<exists>e c. ?r e c"
  proof cases
    case (1 e oc c)
    then have "map_of old e = Some oc" using map_of_wf [OF assms(1)] by blast
    then have "?r e c" using 1 by (simp add: changed_user_def)
    then show ?thesis by blast
  next
    case (2 e c)
    then have "?r e c" using map_of_wf [OF assms(2)] by auto
    then show ?thesis by blast
  qed
next
  assume "\<exists>e c. ?r e c"
  then obtain e c where r: "?r e c" by blast
  show ?l
  proof (cases "map_of old e")
    case None
    then show ?thesis using r map_of_SomeD [of new e c] unfolding readded_iff by blast
  next
    case (Some oc)
    then have "changed_user new (e, oc)" using r by (simp add: changed_user_def)
    then show ?thesis using r map_of_SomeD [OF Some] unfolding readded_iff by blast
  qed
qed

lemma users_diff_effect:
  assumes ok: "decoder_ok env"
    and split: "splitSettingsClients env (ic_Settings oldIb) = Some (old, rest)" "splitSettingsClients env (ic_Settings newIb) = Some (new, rest)"
    and same: "ic_Port oldIb = ic_Port newIb" "ic_Protocol oldIb = ic_Protocol newIb" "ic_Tag oldIb = t"
      "section_of env (ic_Listen oldIb) = section_of env (ic_Listen newIb)"
      "section_of env (ic_StreamSettings oldIb) = section_of env (ic_StreamSettings newIb)"
      "section_of env (ic_Sniffing oldIb) = section_of env (ic_Sniffing newIb)"
    and cipher: "cipher = cipher_of env (ic_Protocol newIb) rest"
  shows "fold (op_at env read t)
      (map (\<lambda>u. OpRemoveUser t (uo_Email u)) (map (\<lambda>(e, _). user_op oldIb e None) (filter (changed_user new) old))
       @ map add_user_op (readded_users oldIb cipher old new)) (Some (handler_of env oldIb)) = Some (handler_of env newIb)"
proof -
  note wf = split_clients_ok(1) [OF ok split(1)] split_clients_ok(1) [OF ok split(2)]
  note cl = split_clients_ok(2) [OF ok split(1)] split_clients_ok(2) [OF ok split(2)]
  let ?rm = "map (\<lambda>(e, _). user_op oldIb e None) (filter (changed_user new) old)" and ?add = "readded_users oldIb cipher old new"
  let ?h = "(handler_of env oldIb)\<lparr>hn_users := (\<lambda>e. if e \<in> uo_Email ` set ?rm then None else hn_users (handler_of env oldIb) e)\<rparr>"
  have add: "uo_Tag u = t \<and> uo_User u = users_of env newIb (uo_Email u) \<and> uo_User u \<noteq> None" if "u \<in> set ?add" for u
    using that same(3) split(2) cipher by (auto simp: readded_exact [OF wf] user_op_def users_of_def)
  have emails: "e \<in> uo_Email ` set ?add \<longleftrightarrow> (\<exists>c. map_of new e = Some c \<and> (case map_of old e of None \<Rightarrow> True | Some oc \<Rightarrow> ce_norm oc \<noteq> ce_norm c))" for e
    by (force simp: readded_exact [OF wf] image_iff user_op_def)
  have rm: "e \<in> uo_Email ` set ?rm \<longleftrightarrow> (\<exists>oc. map_of old e = Some oc \<and> (case map_of new e of None \<Rightarrow> True | Some c \<Rightarrow> ce_norm oc \<noteq> ce_norm c))" for e
    unfolding removed_emails using map_of_wf [OF wf(1)] by (auto simp: changed_user_def)
  have users: "(if e \<in> uo_Email ` set ?add then users_of env newIb e else if e \<in> uo_Email ` set ?rm then None else users_of env oldIb e)
      = users_of env newIb e" for e
  proof (cases "map_of old e"; cases "map_of new e")
    fix oc c assume oc: "map_of old e = Some oc" and c: "map_of new e = Some c"
    have "ce_norm oc = ce_norm c \<Longrightarrow> ce_user oc = ce_user c"
      using client_norm_eq [OF cl(1) [OF map_of_SomeD [OF oc]] cl(2) [OF map_of_SomeD [OF c]]] by simp
    then show ?thesis using oc c split same(2) unfolding emails rm by (auto simp: users_of_def)
  qed (use split same(2) in \<open>unfold emails rm, auto simp: users_of_def\<close>)
  define adds rms where "adds = uo_Email ` set ?add" and "rms = uo_Email ` set ?rm"
  have users_fun: "(\<lambda>e. if e \<in> adds then users_of env newIb e else if e \<in> rms then None else users_of env oldIb e) = users_of env newIb"
    unfolding adds_def rms_def by (rule ext) (rule users)
  have "fold (op_at env read t) (map (\<lambda>u. OpRemoveUser t (uo_Email u)) ?rm @ map add_user_op ?add) (Some (handler_of env oldIb))
     = fold (op_at env read t) (map add_user_op ?add) (Some ?h)"
    by (simp only: fold_append comp_apply fold_remove_users)
  also have "\<dots> = Some (?h\<lparr>hn_users := (\<lambda>e. if e \<in> uo_Email ` set ?add then users_of env newIb e else hn_users ?h e)\<rparr>)"
    by (rule fold_add_users) (rule add)
  also have "\<dots> = Some (handler_of env newIb)"
    unfolding adds_def [symmetric] rms_def [symmetric] using same split
    by (simp add: handler_of_def settings_of_def users_fun del: set_map cong: if_cong)
  finally show ?thesis .
qed

subsection \<open>One inbound\<close>

lemma filter_map_False: "(\<And>x. \<not> P (f x)) \<Longrightarrow> filter P (map f xs) = []"
  by simp

lemma touches_outbound [simp]: "filter (touches read t) (map OpDelOutbound xs) = []" "filter (touches read t) (map OpAddOutbound ys) = []"
  by simp_all

lemma trace_parts: "trace read t d =
    filter (touches read t) (map ReplaceRelay (hd_TuicRelayChanges d))
    @ filter (touches read t) (map (\<lambda>u. OpRemoveUser (uo_Tag u) (uo_Email u)) (hd_RemovedUsers d))
    @ filter (touches read t) (map OpDelInbound (hd_RemovedInboundTags d))
    @ filter (touches read t) (map OpAddInbound (hd_AddedInbounds d))
    @ filter (touches read t) (map add_user_op (hd_AddedUsers d))"
  by (simp add: trace_def hot_ops_def split: option.split)

lemma filter_user_ops:
  assumes "\<And>u. u \<in> set us \<Longrightarrow> uo_Tag u = tag"
  shows "filter (touches read t) (map (\<lambda>u. OpRemoveUser (uo_Tag u) (uo_Email u)) us)
      = (if tag = t then map (\<lambda>u. OpRemoveUser t (uo_Email u)) us else [])"
    "filter (touches read t) (map add_user_op us) = (if tag = t then map add_user_op us else [])"
  using assms by (induction us) (simp_all add: add_user_op_def)

lemma readded_tags: "u \<in> set (readded_users ib cipher old new) \<Longrightarrow> uo_Tag u = ic_Tag ib"
  unfolding readded_iff user_op_def by auto

definition steps_to :: "hot_env \<Rightarrow> reader \<Rightarrow> string \<Rightarrow> HotDiff \<Rightarrow> HotDiff \<Rightarrow> handler option \<Rightarrow> handler option \<Rightarrow> bool" where
  "steps_to env read t d d' h h' \<longleftrightarrow> (\<forall>t'. t' \<noteq> t \<longrightarrow> trace read t' d' = trace read t' d)
     \<and> (trace read t d = [] \<longrightarrow> fold (op_at env read t) (trace read t d') h = h')"

lemma users_diff_steps:
  assumes ok: "decoder_ok env" and diff: "diffInboundUsers env oldIb newIb d = Some d'"
  shows "steps_to env read (ic_Tag oldIb) d d' (Some (handler_of env oldIb)) (Some (handler_of env newIb))"
proof -
  obtain old new rest where same: "ic_Port oldIb = ic_Port newIb" "ic_Protocol oldIb = ic_Protocol newIb"
      "rawEqualNormalized env (ic_Listen oldIb) (ic_Listen newIb)" "rawEqualNormalized env (ic_StreamSettings oldIb) (ic_StreamSettings newIb)"
      "rawEqualNormalized env (ic_Sniffing oldIb) (ic_Sniffing newIb)"
    and split: "splitSettingsClients env (ic_Settings oldIb) = Some (old, rest)" "splitSettingsClients env (ic_Settings newIb) = Some (new, rest)"
    and d': "d' = d\<lparr>hd_RemovedUsers := hd_RemovedUsers d @ map (\<lambda>(email, _). user_op oldIb email None) (filter (changed_user new) old),
        hd_AddedUsers := hd_AddedUsers d @ readded_users oldIb (cipher_of env (ic_Protocol newIb) rest) old new\<rparr>"
    using diff by (auto simp: diffInboundUsers_def cipher_of_def Let_def split: if_split_asm option.splits)
  define rm where "rm = map (\<lambda>(email, _). user_op oldIb email None) (filter (changed_user new) old)"
  define add where "add = readded_users oldIb (cipher_of env (ic_Protocol newIb) rest) old new"
  have "uo_Tag u = ic_Tag oldIb" if "u \<in> set rm" for u using that by (auto simp: rm_def user_op_def)
  note f1 = filter_user_ops(1) [of rm, OF this]
  have "uo_Tag u = ic_Tag oldIb" if "u \<in> set add" for u using that readded_tags by (simp add: add_def)
  note f2 = filter_user_ops(2) [of add, OF this]
  have d': "d' = d\<lparr>hd_RemovedUsers := hd_RemovedUsers d @ rm, hd_AddedUsers := hd_AddedUsers d @ add\<rparr>"
    by (simp add: d' rm_def add_def)
  have "trace read t' d' = trace read t' d" if "t' \<noteq> ic_Tag oldIb" for t'
    using that f1 f2 by (simp add: trace_parts d' del: filter_map)
  moreover have "trace read (ic_Tag oldIb) d' = map (\<lambda>u. OpRemoveUser (ic_Tag oldIb) (uo_Email u)) rm @ map add_user_op add"
    if "trace read (ic_Tag oldIb) d = []"
    using that f1 f2 by (simp add: trace_parts d' del: filter_map)
  ultimately show ?thesis
    using users_diff_effect [OF ok split same(1,2) refl _ _ _ refl] same(3-5)
    unfolding steps_to_def rm_def add_def rawEqual_section by simp
qed

lemma trace_dropped [simp]: "trace read t (d\<lparr>hd_DroppedClients := x\<rparr>) = trace read t d"
  by (simp add: trace_parts)

lemma relay_steps:
  assumes "previous \<noteq> None \<or> next_ib \<noteq> None" "\<And>ib. previous = Some ib \<or> next_ib = Some ib \<Longrightarrow> ic_Tag ib = t"
  shows "steps_to env read t d (relay_change previous next_ib d) h (map_option (handler_of env) next_ib)"
proof -
  let ?c = "\<lparr>rp_Previous = previous, rp_Next = next_ib\<rparr>"
  have touch: "touches read t' (ReplaceRelay ?c) \<longleftrightarrow> t' = t" for t' using assms by fastforce
  have "relay_at env ?c t h = map_option (handler_of env) next_ib"
    using assms by (auto simp: relay_at_def split: option.splits)
  then show ?thesis using touch by (simp add: steps_to_def relay_change_def trace_parts del: touches.simps)
qed

lemma replace_steps:
  assumes "read raw = Some (t, h')"
  shows "steps_to env read t d (d\<lparr>hd_RemovedInboundTags := hd_RemovedInboundTags d @ [t], hd_AddedInbounds := hd_AddedInbounds d @ [raw]\<rparr>) h (Some h')"
  using assms by (simp add: steps_to_def trace_parts)

lemma add_steps:
  assumes "read raw = Some (t, h')"
  shows "steps_to env read t d (d\<lparr>hd_AddedInbounds := hd_AddedInbounds d @ [raw]\<rparr>) h (Some h')"
  using assms by (simp add: steps_to_def trace_parts)

lemma remove_steps:
  "steps_to env read t d (d\<lparr>hd_RemovedInboundTags := hd_RemovedInboundTags d @ [t]\<rparr>) h None"
  by (simp add: steps_to_def trace_parts)

lemma changed_inbound_cases:
  assumes c: "changed_inbound env oldIb newIb d = Some d'"
  defines "d2 \<equiv> if ic_TuicRelay oldIb then d else d\<lparr>hd_DroppedClients := hd_DroppedClients d @ droppedClients env oldIb newIb\<rparr>"
  obtains (users) "diffInboundUsers env oldIb newIb d2 = Some d'"
  | (rebuild) raw where "diffInboundUsers env oldIb newIb d2 = None" "marshal_inbound env newIb = Some raw"
      "d' = d2\<lparr>hd_RemovedInboundTags := hd_RemovedInboundTags d2 @ [ic_Tag oldIb], hd_AddedInbounds := hd_AddedInbounds d2 @ [raw]\<rparr>"
      "\<not> inboundUsesReality env oldIb" "\<not> inboundUsesReality env newIb" "\<not> inboundUsesTproxy env oldIb" "\<not> inboundUsesTproxy env newIb"
      "\<not> inboundUsesSocksAccounts env oldIb" "\<not> inboundUsesSocksAccounts env newIb"
proof -
  have "\<not> (inboundHasReverseClient env oldIb \<or> inboundHasReverseClient env newIb)"
    using c unfolding changed_inbound_def by (metis option.distinct(1))
  then have r: "(case diffInboundUsers env oldIb newIb d2 of Some diff \<Rightarrow> Some diff
        | None \<Rightarrow> if inboundUsesReality env oldIb \<or> inboundUsesReality env newIb then None
            else if inboundUsesTproxy env oldIb \<or> inboundUsesTproxy env newIb then None
            else if inboundUsesSocksAccounts env oldIb \<or> inboundUsesSocksAccounts env newIb then None
            else case marshal_inbound env newIb of None \<Rightarrow> None
            | Some raw \<Rightarrow> Some (d2\<lparr>hd_RemovedInboundTags := hd_RemovedInboundTags d2 @ [ic_Tag oldIb],
                hd_AddedInbounds := hd_AddedInbounds d2 @ [raw]\<rparr>)) = Some d'"
    using c unfolding changed_inbound_def Let_def d2_def [symmetric] by (simp only: if_False)
  show thesis
  proof (cases "diffInboundUsers env oldIb newIb d2")
    case (Some x)
    then show ?thesis using r users by simp
  next
    case None
    show ?thesis
    proof (cases "marshal_inbound env newIb")
      case (Some raw)
      then show ?thesis using r None rebuild [of raw] by (simp split: if_split_asm)
    qed (use r None in \<open>simp split: if_split_asm\<close>)
  qed
qed

lemma changed_inbound_steps:
  assumes ok: "decoder_ok env" and c: "changed_inbound env oldIb newIb d = Some d'"
    and read: "\<And>raw. marshal_inbound env newIb = Some raw \<Longrightarrow> read raw = Some (ic_Tag newIb, handler_of env newIb)"
    and tag: "ic_Tag newIb = ic_Tag oldIb"
  shows "steps_to env read (ic_Tag oldIb) d d' (Some (handler_of env oldIb)) (Some (handler_of env newIb))"
proof -
  define d2 where "d2 = (if ic_TuicRelay oldIb then d else d\<lparr>hd_DroppedClients := hd_DroppedClients d @ droppedClients env oldIb newIb\<rparr>)"
  have d2: "trace read t d2 = trace read t d" for t by (simp add: d2_def)
  have "steps_to env read (ic_Tag oldIb) d2 d' (Some (handler_of env oldIb)) (Some (handler_of env newIb))"
    using c
  proof (cases rule: changed_inbound_cases)
    case users
    then show ?thesis unfolding d2_def [symmetric] by (rule users_diff_steps [OF ok])
  next
    case (rebuild raw)
    then show ?thesis unfolding d2_def [symmetric] using read tag by (simp add: replace_steps)
  qed
  then show ?thesis by (simp add: steps_to_def d2)
qed

lemma old_inbound_steps:
  assumes ok: "decoder_ok env" and step: "old_inbound env apiTag newByTag oldIb d = Some d'"
    and tags: "\<And>n. map_of newByTag (ic_Tag oldIb) = Some n \<Longrightarrow> ic_Tag n = ic_Tag oldIb"
    and read: "\<And>n raw. map_of newByTag (ic_Tag oldIb) = Some n \<Longrightarrow> marshal_inbound env n = Some raw \<Longrightarrow> read raw = Some (ic_Tag n, handler_of env n)"
  shows "steps_to env read (ic_Tag oldIb) d d' (Some (handler_of env oldIb)) (map_option (handler_of env) (map_of newByTag (ic_Tag oldIb)))"
proof (cases "map_of newByTag (ic_Tag oldIb)")
  case None
  then consider "d' = relay_change (Some oldIb) None d" | "d' = d\<lparr>hd_RemovedInboundTags := hd_RemovedInboundTags d @ [ic_Tag oldIb]\<rparr>"
    using step by (auto simp: old_inbound_def Let_def split: if_split_asm)
  then show ?thesis
  proof cases
    case 1
    then show ?thesis using relay_steps [of "Some oldIb" None "ic_Tag oldIb" env read d] None by simp
  next
    case 2
    then show ?thesis using remove_steps None by simp
  qed
next
  case (Some n)
  then consider "inboundEqualNormalized env oldIb n" "d' = d" | "d' = relay_change (Some oldIb) (Some n) d" | "changed_inbound env oldIb n d = Some d'"
    using step unfolding old_inbound_def Let_def Some option.case by (metis option.inject option.distinct(1))
  then show ?thesis
  proof cases
    case 1
    then show ?thesis using inboundEqual_handler [OF ok] Some by (simp add: steps_to_def)
  next
    case 2
    then show ?thesis using relay_steps [of "Some oldIb" "Some n" "ic_Tag oldIb" env read d] Some tags by fastforce
  next
    case 3
    then show ?thesis using changed_inbound_steps [OF ok 3] read tags Some by simp
  qed
qed

lemma new_inbound_steps:
  assumes step: "new_inbound env apiTag oldByTag newIb d = Some d'" and fresh: "map_of oldByTag (ic_Tag newIb) = None"
    and read: "\<And>raw. marshal_inbound env newIb = Some raw \<Longrightarrow> read raw = Some (ic_Tag newIb, handler_of env newIb)"
  shows "steps_to env read (ic_Tag newIb) d d' h (Some (handler_of env newIb))"
proof -
  consider "d' = relay_change None (Some newIb) d"
    | raw where "marshal_inbound env newIb = Some raw" "d' = d\<lparr>hd_AddedInbounds := hd_AddedInbounds d @ [raw]\<rparr>"
    using step fresh by (auto simp: new_inbound_def split: if_split_asm option.splits)
  then show ?thesis
  proof cases
    case 1
    then show ?thesis using relay_steps [of None "Some newIb" "ic_Tag newIb" env read d] by simp
  next
    case 2
    then show ?thesis using add_steps read by simp
  qed
qed

subsection \<open>All inbounds\<close>

lemma each_steps:
  assumes "each_step f xs d = Some d'" "\<And>x d d'. x \<in> set xs \<Longrightarrow> f x d = Some d' \<Longrightarrow> steps_to env read (key x) d d' (h x) (h' x)"
    "distinct (map key xs)" "\<And>x. x \<in> set xs \<Longrightarrow> trace read (key x) d = []"
  shows "(\<forall>t. t \<notin> key ` set xs \<longrightarrow> trace read t d' = trace read t d)
    \<and> (\<forall>x \<in> set xs. fold (op_at env read (key x)) (trace read (key x) d') (h x) = h' x)"
  using assms
proof (induction xs arbitrary: d)
  case (Cons x xs)
  obtain d2 where d2: "f x d = Some d2" "each_step f xs d2 = Some d'" using Cons.prems(1) by (auto split: option.splits)
  have st: "steps_to env read (key x) d d2 (h x) (h' x)" using Cons.prems(2) d2(1) by simp
  have x: "key x \<notin> key ` set xs" using Cons.prems(3) by simp
  have other: "trace read t d2 = trace read t d" if "t \<noteq> key x" for t using st that by (simp add: steps_to_def)
  have "trace read (key y) d2 = []" if "y \<in> set xs" for y using other [of "key y"] x that Cons.prems(4) by (metis image_eqI list.set_intros(2))
  then have IH: "(\<forall>t. t \<notin> key ` set xs \<longrightarrow> trace read t d' = trace read t d2)
      \<and> (\<forall>y \<in> set xs. fold (op_at env read (key y)) (trace read (key y) d') (h y) = h' y)"
    using Cons.prems(2,3) by (intro Cons.IH d2(2)) auto
  have "fold (op_at env read (key x)) (trace read (key x) d') (h x) = h' x"
    using st IH x Cons.prems(4) [of x] by (simp add: steps_to_def)
  then show ?case using IH other by simp
qed simp

lemma each_step_skip:
  "(\<And>x s. x \<in> set xs \<Longrightarrow> \<not> P x \<Longrightarrow> f x s = Some s) \<Longrightarrow> each_step f xs s = each_step f (filter P xs) s"
  by (induction xs arbitrary: s) (auto split: option.split)

abbreviation by_tag :: "InboundConfig list \<Rightarrow> (string \<times> InboundConfig) list" where
  "by_tag ibs \<equiv> map (\<lambda>ib. (ic_Tag ib, ib)) ibs"

lemma inboundsByTag_exact:
  "inboundsByTag ibs acc = Some m \<Longrightarrow> wf_map acc \<Longrightarrow> m = acc @ by_tag ibs \<and> wf_map m"
proof (induction ibs acc rule: inboundsByTag.induct)
  case (2 ib ibs acc)
  then have "map_of acc (ic_Tag ib) = None" "inboundsByTag ibs (acc @ [(ic_Tag ib, ib)]) = Some m" "ic_Tag ib \<noteq> []"
    by (auto simp: Let_def split: if_split_asm)
  moreover from this have "wf_map (acc @ [(ic_Tag ib, ib)])" using 2(3) by (auto simp: wf_map_def map_of_None_fst)
  ultimately have "m = (acc @ [(ic_Tag ib, ib)]) @ by_tag ibs \<and> wf_map m" using 2(1) by blast
  then show ?case by auto
qed simp

lemma inbound_of_by_tag: "inbound_of ibs t = map_of (by_tag ibs) t"
  by (induction ibs) (auto simp: inbound_of_def)

lemma map_of_by_tag: "map_of (by_tag ibs) t = Some ib \<Longrightarrow> ic_Tag ib = t \<and> ib \<in> set ibs"
  by (auto dest: map_of_SomeD)

lemma map_of_by_tag_None: "map_of (by_tag ibs) t = None \<longleftrightarrow> t \<notin> ic_Tag ` set ibs"
  by (force simp: map_of_None_fst)

lemma diffInbounds_effect:
  assumes ok: "decoder_ok env" and diff: "diffInbounds env old new no_diff = Some d"
    and read: "reads_inbounds env read (cf_InboundConfigs new)"
  shows "fold (op_at env read t) (trace read t d) (co_inbounds (core_of env old) t) = co_inbounds (core_of env new) t"
proof -
  let ?old = "cf_InboundConfigs old" and ?new = "cf_InboundConfigs new" and ?api = "apiTagFromConfig env (cf_API new)"
  obtain d1 where wf: "wf_map (by_tag ?old)" "wf_map (by_tag ?new)"
    and d1: "each_step (old_inbound env ?api (by_tag ?new)) ?old no_diff = Some d1"
    and d: "each_step (new_inbound env ?api (by_tag ?old)) ?new d1 = Some d"
    using diff inboundsByTag_exact [of ?old "[]"] inboundsByTag_exact [of ?new "[]"]
    by (auto simp: diffInbounds_def Let_def split: option.splits)
  let ?fresh = "filter (\<lambda>ib. map_of (by_tag ?old) (ic_Tag ib) = None) ?new"
  have none: "trace read t no_diff = []" for t by (simp add: trace_parts no_diff_def)
  have rd: "marshal_inbound env ib = Some raw \<Longrightarrow> ib \<in> set ?new \<Longrightarrow> read raw = Some (ic_Tag ib, handler_of env ib)" for ib raw
    using read by (simp add: reads_inbounds_def)
  have olds: "(\<forall>t. t \<notin> ic_Tag ` set ?old \<longrightarrow> trace read t d1 = trace read t no_diff)
    \<and> (\<forall>ib \<in> set ?old. fold (op_at env read (ic_Tag ib)) (trace read (ic_Tag ib) d1) (Some (handler_of env ib))
        = map_option (handler_of env) (map_of (by_tag ?new) (ic_Tag ib)))"
    using wf(1) none rd by (intro each_steps [OF d1] old_inbound_steps [OF ok]) (auto simp: wf_map_def comp_def dest: map_of_by_tag)
  have "each_step (new_inbound env ?api (by_tag ?old)) ?fresh d1 = Some d"
    using d by (subst each_step_skip [symmetric]) (auto simp: new_inbound_def)
  then have news: "(\<forall>t. t \<notin> ic_Tag ` set ?fresh \<longrightarrow> trace read t d = trace read t d1)
    \<and> (\<forall>ib \<in> set ?fresh. fold (op_at env read (ic_Tag ib)) (trace read (ic_Tag ib) d) None = Some (handler_of env ib))"
    using wf(2) none rd olds
    by (intro each_steps new_inbound_steps) (auto simp: wf_map_def comp_def distinct_map_filter map_of_by_tag_None)
  show ?thesis
  proof (cases "map_of (by_tag ?old) t")
    case (Some ib)
    then have ib: "ic_Tag ib = t" "ib \<in> set ?old" using map_of_by_tag by blast+
    then have "t \<notin> ic_Tag ` set ?fresh" using Some by auto
    then have "trace read t d = trace read t d1" using news by blast
    then show ?thesis using olds ib Some by (auto simp: core_of_def inbound_of_by_tag)
  next
    case None
    then have d1t: "trace read t d1 = []" using olds none map_of_by_tag_None by metis
    show ?thesis
    proof (cases "map_of (by_tag ?new) t")
      case (Some ib)
      then have "ic_Tag ib = t" "ib \<in> set ?fresh" using map_of_by_tag [OF Some] None by simp_all
      then show ?thesis using news Some None by (auto simp: core_of_def inbound_of_by_tag)
    next
      case nn: None
      then have "t \<notin> ic_Tag ` set ?fresh" by (auto simp: map_of_by_tag_None)
      then show ?thesis using news d1t None nn by (simp add: core_of_def inbound_of_by_tag)
    qed
  qed
qed

subsection \<open>Outbounds\<close>

abbreviation out_pairs :: "outboundEntry list \<Rightarrow> (string \<times> string) list" where
  "out_pairs es \<equiv> map (\<lambda>e. (oe_tag e, oe_norm e)) es"

lemma parse_entries_exact:
  assumes "parse_entries env elems seen = Some es"
  shows "distinct (map oe_tag es) \<and> set (map oe_tag es) \<inter> set seen = {}
    \<and> (\<forall>e \<in> set es. read_outbound env (oe_raw e) = [(oe_tag e, oe_norm e)])"
  using assms
proof (induction env elems seen arbitrary: es rule: parse_entries.induct)
  case (2 env elem elems seen)
  obtain tag norm es' where p: "unmarshal env (into_struct [(''tag'', into_string)]) [] elem = Some tag" "tag \<noteq> []" "tag \<notin> set seen"
      "canonicalJSON env elem = Some norm" "parse_entries env elems (tag # seen) = Some es'"
      "es = \<lparr>oe_tag = tag, oe_raw = elem, oe_norm = norm\<rparr> # es'"
    using 2(2) by (auto split: option.splits if_split_asm)
  have "read_outbound env elem = [(tag, norm)]" using p by (simp add: read_outbound_def)
  then show ?case using 2(1) [OF p(1-5)] p(3,6) by auto
qed simp

lemma parseOutbounds_exact:
  "parseOutbounds env raw = Some es \<Longrightarrow> distinct (map oe_tag es) \<and> (\<forall>e \<in> set es. read_outbound env (oe_raw e) = [(oe_tag e, oe_norm e)])"
  using parse_entries_exact by (fastforce simp: parseOutbounds_def split: if_split_asm option.splits)

lemma outbound_of_Some: "outbound_of es t = Some e \<Longrightarrow> e \<in> set es \<and> oe_tag e = t"
  by (auto simp: outbound_of_def find_Some_iff)

lemma outbound_of_None: "outbound_of es t = None \<longleftrightarrow> t \<notin> set (map oe_tag es)"
  by (auto simp: outbound_of_def find_None_iff)

lemma outbound_of_wf: "distinct (map oe_tag es) \<Longrightarrow> outbound_of es t = Some e \<longleftrightarrow> e \<in> set es \<and> oe_tag e = t"
  using outbound_of_Some [of es t] outbound_of_None [of es t]
  by (metis (no_types, lifting) distinct_map inj_on_def image_eqI list.set_map not_None_eq)

lemma core_run_outbounds: "co_outbounds (core_run env read as c) = fold (op_outbounds env) as (co_outbounds c)"
  unfolding core_run_def by (induction as arbitrary: c) (simp_all add: core_step_def)

lemma fold_outbounds_other:
  "fold (op_outbounds env) (map ReplaceRelay cs) os = os" "fold (op_outbounds env) (map (\<lambda>u. OpRemoveUser (uo_Tag u) (uo_Email u)) us) os = os"
  "fold (op_outbounds env) (map OpDelInbound ts) os = os" "fold (op_outbounds env) (map OpAddInbound rs) os = os"
  "fold (op_outbounds env) (map add_user_op us) os = os"
  by (induction cs, simp_all, induction us, simp_all, induction ts, simp_all, induction rs, simp_all, induction us, simp_all add: add_user_op_def)

lemma fold_del_outbounds: "fold (op_outbounds env) (map OpDelOutbound ts) os = filter (\<lambda>e. fst e \<notin> set ts) os"
  by (induction ts arbitrary: os) (auto intro: filter_cong)

lemma fold_add_outbounds: "fold (op_outbounds env) (map OpAddOutbound raws) os = os @ concat (map (read_outbound env) raws)"
  by (induction raws arbitrary: os) simp_all

lemma hot_ops_outbounds:
  "fold (op_outbounds env) (hot_ops d) os
     = filter (\<lambda>e. fst e \<notin> set (hd_RemovedOutboundTags d)) os @ concat (map (read_outbound env) (hd_AddedOutbounds d))"
  by (simp add: hot_ops_def fold_outbounds_other fold_del_outbounds fold_add_outbounds split: option.split)

definition replacement :: "outboundEntry list \<Rightarrow> outboundEntry \<Rightarrow> outboundEntry list" where
  "replacement newOut oldE = (case outbound_of newOut (oe_tag oldE) of None \<Rightarrow> [] | Some newE \<Rightarrow> [newE])"

lemma replacement_iff: "e \<in> set (replacement newOut oldE) \<longleftrightarrow> outbound_of newOut (oe_tag oldE) = Some e"
  unfolding replacement_def by (cases "outbound_of newOut (oe_tag oldE)") auto

lemma replacement_tags:
  "map oe_tag (concat (map (replacement newOut) es)) = filter (\<lambda>t. outbound_of newOut t \<noteq> None) (map oe_tag es)"
  by (induction es) (auto simp: replacement_def dest: outbound_of_Some split: option.splits)

lemma concat_read:
  assumes "\<And>e. e \<in> set es \<Longrightarrow> read_outbound env (oe_raw e) = [(oe_tag e, oe_norm e)]"
  shows "concat (map (read_outbound env) (map oe_raw es)) = out_pairs es"
  using assms by (induction es) simp_all

lemma diffOutbounds_form:
  assumes "diffOutbounds env old new d = Some d'" "parseOutbounds env (cf_OutboundConfigs old) = Some oldOut"
    "parseOutbounds env (cf_OutboundConfigs new) = Some newOut"
  defines "changed \<equiv> filter (changed_outbound newOut) oldOut"
  shows "(oldOut = []) = (newOut = []) \<and> (oldOut \<noteq> [] \<longrightarrow> oe_tag (hd oldOut) = oe_tag (hd newOut) \<and> oe_norm (hd oldOut) = oe_norm (hd newOut))
    \<and> d' = d\<lparr>hd_RemovedOutboundTags := hd_RemovedOutboundTags d @ map oe_tag changed, hd_AddedOutbounds := hd_AddedOutbounds d
        @ map oe_raw (concat (map (replacement newOut) changed) @ filter (\<lambda>newE. outbound_of oldOut (oe_tag newE) = None) newOut)\<rparr>"
proof -
  have r: "map oe_raw (concat (map (replacement newOut) es))
      = concat (map (\<lambda>oldE. case outbound_of newOut (oe_tag oldE) of None \<Rightarrow> [] | Some newE \<Rightarrow> [oe_raw newE]) es)" for es
    by (induction es) (simp_all add: replacement_def split: option.split)
  show ?thesis using assms unfolding diffOutbounds_def map_append r by (auto simp: Let_def split: if_split_asm)
qed

lemma diffOutbounds_effect:
  assumes diff: "diffOutbounds env old new d = Some d'" and empty: "hd_RemovedOutboundTags d = []" "hd_AddedOutbounds d = []"
    and old: "parseOutbounds env (cf_OutboundConfigs old) = Some oldOut" and new: "parseOutbounds env (cf_OutboundConfigs new) = Some newOut"
  defines "os \<equiv> fold (op_outbounds env) (hot_ops d') (out_pairs oldOut)"
  shows "map_of os = map_of (out_pairs newOut) \<and> distinct (map fst os) \<and> (os = [] \<longleftrightarrow> newOut = [])
    \<and> (newOut \<noteq> [] \<longrightarrow> hd os = (oe_tag (hd newOut), oe_norm (hd newOut)))"
proof -
  let ?kept = "filter (\<lambda>e. \<not> changed_outbound newOut e) oldOut" and ?changed = "filter (changed_outbound newOut) oldOut"
  let ?fresh = "filter (\<lambda>newE. outbound_of oldOut (oe_tag newE) = None) newOut"
  let ?es = "?kept @ concat (map (replacement newOut) ?changed) @ ?fresh"
  note form = diffOutbounds_form [OF diff old new]
  have do: "distinct (map oe_tag oldOut)" and dn: "distinct (map oe_tag newOut)"
    and rd: "\<And>e. e \<in> set newOut \<Longrightarrow> read_outbound env (oe_raw e) = [(oe_tag e, oe_norm e)]"
    using parseOutbounds_exact [OF old] parseOutbounds_exact [OF new] by blast+
  have mem: "e \<in> set newOut" if "e \<in> set (concat (map (replacement newOut) ?changed) @ ?fresh)" for e
    using that outbound_of_Some by (force simp: replacement_iff)
  have "filter (\<lambda>e. fst e \<notin> set (map oe_tag ?changed)) (out_pairs oldOut) = out_pairs ?kept"
    using do by (auto simp: filter_map comp_def distinct_map inj_on_def intro!: map_cong filter_cong)
  moreover have "hd_RemovedOutboundTags d' = map oe_tag ?changed"
    "hd_AddedOutbounds d' = map oe_raw (concat (map (replacement newOut) ?changed) @ ?fresh)"
    using form empty by simp_all
  moreover have "concat (map (read_outbound env) (map oe_raw (concat (map (replacement newOut) ?changed) @ ?fresh)))
      = out_pairs (concat (map (replacement newOut) ?changed) @ ?fresh)"
    by (rule concat_read) (rule rd [OF mem])
  ultimately have os: "os = out_pairs ?es" by (simp only: os_def hot_ops_outbounds map_append)
  have sub: "set (out_pairs ?kept) \<subseteq> set (out_pairs newOut)"
  proof -
    have "(oe_tag e, oe_norm e) \<in> set (out_pairs newOut)" if e: "e \<in> set ?kept" for e
    proof -
      obtain n where "outbound_of newOut (oe_tag e) = Some n" "oe_norm e = oe_norm n"
        using e by (cases "outbound_of newOut (oe_tag e)") (auto simp: changed_outbound_def)
      then have "n \<in> set newOut" "(oe_tag e, oe_norm e) = (oe_tag n, oe_norm n)" using outbound_of_Some by simp_all
      then show ?thesis by auto
    qed
    then show ?thesis by auto
  qed
  have "(oe_tag n, oe_norm n) \<in> set (out_pairs ?es)" if n: "n \<in> set newOut" for n
  proof (cases "outbound_of oldOut (oe_tag n)")
    case None
    then show ?thesis using n by auto
  next
    case (Some e)
    then have e: "e \<in> set oldOut" "oe_tag e = oe_tag n" using outbound_of_Some by blast+
    then have on: "outbound_of newOut (oe_tag e) = Some n" using n dn by (simp add: outbound_of_wf)
    show ?thesis
    proof (cases "changed_outbound newOut e")
      case True
      then have "n \<in> set (concat (map (replacement newOut) ?changed))" using e on by (auto simp: replacement_iff)
      then show ?thesis by auto
    next
      case False
      then have "e \<in> set ?kept" "oe_norm e = oe_norm n" using e on by (auto simp: changed_outbound_def)
      then have "e \<in> set ?es" "(oe_tag n, oe_norm n) = (oe_tag e, oe_norm e)" using e(2) by auto
      then show ?thesis by auto
    qed
  qed
  then have "set (out_pairs newOut) \<subseteq> set (out_pairs ?es)" by (simp only: set_map) blast
  moreover have "set (out_pairs (concat (map (replacement newOut) ?changed) @ ?fresh)) \<subseteq> set (out_pairs newOut)"
    using mem by (simp only: set_map) blast
  ultimately have set: "set os = set (out_pairs newOut)" using sub unfolding os map_append set_append by blast
  have dist: "distinct (map fst os)"
  proof -
    have t: "map fst os = map oe_tag ?kept @ filter (\<lambda>t. outbound_of newOut t \<noteq> None) (map oe_tag ?changed) @ map oe_tag ?fresh"
      unfolding os replacement_tags [symmetric] by (simp add: comp_def)
    let ?K = "map oe_tag ?kept" and ?C = "filter (\<lambda>t. outbound_of newOut t \<noteq> None) (map oe_tag ?changed)" and ?F = "map oe_tag ?fresh"
    have "distinct ?K" "distinct ?C" "distinct ?F" using do dn by (simp_all add: distinct_map_filter)
    moreover have "set ?K \<inter> set (map oe_tag ?changed) = {}" using do by (auto simp: distinct_map dest: inj_onD)
    moreover have "set ?F \<inter> set (map oe_tag oldOut) = {}" by (auto simp: outbound_of_None)
    moreover have "set ?K \<subseteq> set (map oe_tag oldOut)" "set ?C \<subseteq> set (map oe_tag ?changed)" "set (map oe_tag ?changed) \<subseteq> set (map oe_tag oldOut)"
      by auto
    ultimately show ?thesis unfolding t distinct_append set_append by blast
  qed
  then have "map_of os = map_of (out_pairs newOut)"
    using dn set by (intro map_of_set_eq) (simp_all add: wf_map_def comp_def)
  moreover have "hd os = (oe_tag (hd newOut), oe_norm (hd newOut))" if ne: "newOut \<noteq> []"
  proof -
    obtain e es n ns where l: "oldOut = e # es" "newOut = n # ns" using form ne by (cases oldOut; cases newOut) auto
    then have "oe_tag e = oe_tag n" "oe_norm e = oe_norm n" using form by auto
    moreover from this have "\<not> changed_outbound newOut e" using l by (simp add: changed_outbound_def outbound_of_def)
    ultimately show ?thesis unfolding os l by simp
  qed
  moreover have "os = [] \<longleftrightarrow> newOut = []" using arg_cong [OF set, of "\<lambda>A. A = {}"] by simp
  ultimately show ?thesis using dist by blast
qed

subsection \<open>A hot diff brings one core to the other\<close>

lemma core_run_frame:
  "co_routing (core_run env read as c) = co_routing c" "co_static (core_run env read as c) = co_static c"
  "co_rules (core_run env read as c) = fold (\<lambda>a r. case a of OpRouting raw \<Rightarrow> raw | _ \<Rightarrow> r) as (co_rules c)"
  unfolding core_run_def by (induction as arbitrary: c) (simp_all add: core_step_def)

lemma hot_ops_rules:
  "fold (\<lambda>a r. case a of OpRouting raw \<Rightarrow> raw | _ \<Rightarrow> r) (hot_ops d) r0 = (case hd_RoutingConfig d of None \<Rightarrow> r0 | Some raw \<Rightarrow> raw)"
proof -
  have "fold (\<lambda>a r. case a of OpRouting raw \<Rightarrow> raw | _ \<Rightarrow> r) as r = r" if "\<And>raw. OpRouting raw \<notin> set as" for as r
    using that by (induction as) (auto split: core_op.split)
  then show ?thesis by (auto simp: hot_ops_def add_user_op_def image_iff split: option.split)
qed

lemma diffRouting_effect:
  assumes "diffRouting env old new d = Some d'" "hd_RoutingConfig d = None"
  shows "(case hd_RoutingConfig d' of None \<Rightarrow> cf_RouterConfig old | Some raw \<Rightarrow> raw) = cf_RouterConfig new"
    "routingWithoutReloadable env (cf_RouterConfig old) = routingWithoutReloadable env (cf_RouterConfig new)"
    "\<exists>r. d' = d\<lparr>hd_RoutingConfig := r\<rparr>"
proof -
  consider "cf_RouterConfig old = cf_RouterConfig new" "d' = d"
    | "routingWithoutReloadable env (cf_RouterConfig old) = routingWithoutReloadable env (cf_RouterConfig new)"
      "d' = d\<lparr>hd_RoutingConfig := Some (cf_RouterConfig new)\<rparr>"
    using assms(1) unfolding diffRouting_def by (auto split: if_split_asm option.splits)
  then have "(case hd_RoutingConfig d' of None \<Rightarrow> cf_RouterConfig old | Some raw \<Rightarrow> raw) = cf_RouterConfig new
    \<and> routingWithoutReloadable env (cf_RouterConfig old) = routingWithoutReloadable env (cf_RouterConfig new)
    \<and> (\<exists>r. d' = d\<lparr>hd_RoutingConfig := r\<rparr>)"
  proof cases
    case 1
    then have "d' = d\<lparr>hd_RoutingConfig := hd_RoutingConfig d\<rparr>" by simp
    then show ?thesis using 1 assms(2) by (metis option.case(1))
  qed auto
  then show "(case hd_RoutingConfig d' of None \<Rightarrow> cf_RouterConfig old | Some raw \<Rightarrow> raw) = cf_RouterConfig new"
    "routingWithoutReloadable env (cf_RouterConfig old) = routingWithoutReloadable env (cf_RouterConfig new)"
    "\<exists>r. d' = d\<lparr>hd_RoutingConfig := r\<rparr>" by blast+
qed

lemma diffInbounds_frame:
  assumes "diffInbounds env old new d = Some d'"
  shows "hd_RoutingConfig d' = hd_RoutingConfig d \<and> hd_RemovedOutboundTags d' = hd_RemovedOutboundTags d \<and> hd_AddedOutbounds d' = hd_AddedOutbounds d"
proof -
  define frame where "frame d d' \<longleftrightarrow> hd_RoutingConfig d' = hd_RoutingConfig d \<and> hd_RemovedOutboundTags d' = hd_RemovedOutboundTags d
      \<and> hd_AddedOutbounds d' = hd_AddedOutbounds d" for d d' :: HotDiff
  have each: "each_step f xs d = Some d' \<Longrightarrow> (\<And>x d d'. f x d = Some d' \<Longrightarrow> frame d d') \<Longrightarrow> frame d d'"
    for f and xs :: "InboundConfig list" and d d'
    by (induction xs arbitrary: d) (auto simp: frame_def split: option.splits)
  have users: "diffInboundUsers env a b d = Some d' \<Longrightarrow> frame d d'" for a b d d'
    by (auto simp: diffInboundUsers_def frame_def Let_def split: if_split_asm option.splits)
  have changed: "changed_inbound env a b d = Some d' \<Longrightarrow> frame d d'" for a b d d'
    by (erule changed_inbound_cases) (auto simp: frame_def dest!: users split: if_split_asm)
  have olds: "old_inbound env api m ib d = Some d' \<Longrightarrow> frame d d'" for api m ib d d'
    unfolding old_inbound_def Let_def
    by (auto simp: relay_change_def frame_def split: if_split_asm option.splits dest!: changed)
  have news: "new_inbound env api m ib d = Some d' \<Longrightarrow> frame d d'" for api m ib d d'
    unfolding new_inbound_def by (auto simp: relay_change_def frame_def split: if_split_asm option.splits)
  obtain d1 m1 m2 api where "each_step (old_inbound env api m1) (cf_InboundConfigs old) d = Some d1"
    "each_step (new_inbound env api m2) (cf_InboundConfigs new) d1 = Some d'"
    using assms by (auto simp: diffInbounds_def Let_def split: option.splits)
  then have "frame d d1" "frame d1 d'" using each olds news by metis+
  then show ?thesis by (simp add: frame_def)
qed

lemma hot_diff_steps:
  assumes "ComputeHotDiff env (Some old) (Some new) = Some d"
    and "decoder_ok env" "reads_inbounds env read (cf_InboundConfigs new)"
  shows "same_core (core_run env read (hot_ops d) (core_of env old)) (core_of env new)"
proof -
  obtain d1 d2 where st: "list_all2 (rawEqualNormalized env) (static_sections old) (static_sections new)"
    and d1: "diffInbounds env old new no_diff = Some d1" and d2: "diffOutbounds env old new d1 = Some d2"
    and d: "diffRouting env old new d2 = Some d"
    using assms(1) by (auto simp: ComputeHotDiff_def split: if_split_asm option.splits)
  obtain oldOut newOut where out: "parseOutbounds env (cf_OutboundConfigs old) = Some oldOut" "parseOutbounds env (cf_OutboundConfigs new) = Some newOut"
    using d2 by (auto simp: diffOutbounds_def split: option.splits)
  note fr = diffInbounds_frame [OF d1] note form = diffOutbounds_form [OF d2 out]
  have r2: "hd_RoutingConfig d2 = None" using fr form by (simp add: no_diff_def)
  note route = diffRouting_effect [OF d r2]
  obtain r where dr: "d = d2\<lparr>hd_RoutingConfig := r\<rparr>" using route(3) by blast
  have tr: "trace read t d = trace read t d1" for t using form by (simp add: dr trace_parts)
  have "co_inbounds (core_run env read (hot_ops d) (core_of env old)) t = co_inbounds (core_of env new) t" for t
    using diffInbounds_effect [OF assms(2) d1 assms(3), of t] tr
    unfolding core_run_inbounds by (subst fold_touching) (simp add: trace_def)
  moreover have "co_static (core_of env old) = co_static (core_of env new)"
    using st by (simp add: core_of_def rawEqual_section list_all2_conv_all_nth list_eq_iff_nth_eq)
  moreover have "fold (op_outbounds env) (hot_ops d) os = fold (op_outbounds env) (hot_ops d2) os" for os
    by (simp add: dr hot_ops_outbounds)
  moreover have "hd_RemovedOutboundTags d1 = []" "hd_AddedOutbounds d1 = []" using fr by (simp_all add: no_diff_def)
  note outs = diffOutbounds_effect [OF d2 this out]
  ultimately show ?thesis using outs route(1,2)
    by (auto simp: same_core_def core_run_outbounds core_run_frame hot_ops_rules core_of_def out fun_eq_iff hd_map)
qed

text \<open>
  C1: a hot diff is complete and exact. Whenever the two configurations have a diff, applying its operations
  in their order to a core that serves the old configuration makes it serve exactly the new one: every inbound
  with every user, every outbound with the same default, the routing rules and all sections that
  cannot be reloaded; when a change cannot be applied that way there is no diff.
\<close>

theorem hot_diff_exact:
  assumes "ComputeHotDiff env (Some old) (Some new) = Some d"
    and "decoder_ok env" "reads_inbounds env read (cf_InboundConfigs new)"
  shows "same_core (core_run env read (hot_ops d) (core_of env old)) (core_of env new)"
  by (rule hot_diff_steps [OF assms])

text \<open>A reader for given inbounds: the text of each is read as its handler.\<close>

definition reader_of :: "hot_env \<Rightarrow> InboundConfig list \<Rightarrow> reader" where
  "reader_of env ibs = map_of (map (\<lambda>ib. (case marshal_inbound env ib of None \<Rightarrow> [] | Some raw \<Rightarrow> raw, (ic_Tag ib, handler_of env ib))) ibs)"

lemma reader_of_reads:
  assumes "distinct (map (\<lambda>ib. case marshal_inbound env ib of None \<Rightarrow> [] | Some raw \<Rightarrow> raw) ibs)"
  shows "reads_inbounds env (reader_of env ibs) ibs"
proof -
  let ?m = "map (\<lambda>ib. (case marshal_inbound env ib of None \<Rightarrow> [] | Some raw \<Rightarrow> raw, (ic_Tag ib, handler_of env ib))) ibs"
  have wf: "wf_map ?m" using assms by (simp add: wf_map_def comp_def)
  have "map_of ?m raw = Some (ic_Tag ib, handler_of env ib)" if "ib \<in> set ibs" "marshal_inbound env ib = Some raw" for ib raw
    unfolding map_of_wf [OF wf] using that by force
  then show ?thesis by (simp add: reads_inbounds_def reader_of_def)
qed

definition demo_client :: "string \<Rightarrow> string \<Rightarrow> json" where
  "demo_client email secret = JObj [(''email'', JStr email), (''id'', JStr secret)]"

definition demo_settings :: "json list \<Rightarrow> json" where
  "demo_settings clients = JObj [(''clients'', JArr clients), (''decryption'', JStr ''none'')]"

definition demo_texts :: "json list" where
  "demo_texts = [demo_settings [demo_client ''ann'' ''1'', demo_client ''bob'' ''2''],
     demo_settings [demo_client ''bob'' ''3'', demo_client ''eve'' ''4''], JObj [(''auth'', JStr ''noauth'')]]"

definition demo_hot :: hot_env where
  "demo_hot = \<lparr>he_decode = map_of (map (\<lambda>v. (marshal v, v)) demo_texts), he_parse = map_of (map (\<lambda>v. (marshal v, v)) demo_texts),
     he_elements = (\<lambda>_. Some []), he_compact = Some\<rparr>"

definition demo_ib :: "string \<Rightarrow> string \<Rightarrow> int \<Rightarrow> nat \<Rightarrow> InboundConfig" where
  "demo_ib tag protocol port n = \<lparr>ic_TuicRelay = False, ic_TuicInboundID = 0, ic_Listen = [], ic_Port = port, ic_Protocol = protocol,
     ic_Settings = marshal (demo_texts ! n), ic_StreamSettings = [], ic_Tag = tag, ic_Sniffing = []\<rparr>"

definition demo_cfg :: "InboundConfig list \<Rightarrow> Config" where
  "demo_cfg ibs = \<lparr>cf_LogConfig = [], cf_RouterConfig = [], cf_DNSConfig = [], cf_InboundConfigs = ibs, cf_OutboundConfigs = [],
     cf_Transport = [], cf_Policy = [], cf_API = [], cf_Stats = [], cf_Reverse = [], cf_FakeDNS = [], cf_Observatory = [],
     cf_BurstObservatory = [], cf_Metrics = [], cf_Geodata = [], cf_Env = []\<rparr>"

definition demo_old_cfg :: Config where
  "demo_old_cfg = demo_cfg [demo_ib ''a'' ''vless'' 443 0, demo_ib ''b'' ''http'' 81 2]"
definition demo_new_cfg :: Config where
  "demo_new_cfg = demo_cfg [demo_ib ''a'' ''vless'' 443 1, demo_ib ''c'' ''http'' 82 2]"

lemma demo_decoder: "decoder_ok demo_hot"
proof -
  have "list_all json_ok demo_texts" by code_simp
  then have "json_ok v" if "(raw, v) \<in> set (map (\<lambda>v. (marshal v, v)) demo_texts)" for raw v
    using that by (auto simp: list_all_iff)
  then show ?thesis by (auto simp: decoder_ok_def demo_hot_def dest: map_of_SomeD)
qed

lemma demo_reads: "reads_inbounds demo_hot (reader_of demo_hot (cf_InboundConfigs demo_new_cfg)) (cf_InboundConfigs demo_new_cfg)"
  by (rule reader_of_reads) code_simp

lemma hot_diff_exact_witness:
  "\<exists>d. ComputeHotDiff demo_hot (Some demo_old_cfg) (Some demo_new_cfg) = Some d
    \<and> map uo_Email (hd_RemovedUsers d) = [''ann'', ''bob''] \<and> map uo_Email (hd_AddedUsers d) = [''bob'', ''eve'']
    \<and> hd_RemovedInboundTags d = [''b'']
    \<and> same_core (core_run demo_hot (reader_of demo_hot (cf_InboundConfigs demo_new_cfg)) (hot_ops d) (core_of demo_hot demo_old_cfg))
       (core_of demo_hot demo_new_cfg)"
proof -
  have "map_option (\<lambda>d. (map uo_Email (hd_RemovedUsers d), map uo_Email (hd_AddedUsers d), hd_RemovedInboundTags d))
      (ComputeHotDiff demo_hot (Some demo_old_cfg) (Some demo_new_cfg)) = Some ([''ann'', ''bob''], [''bob'', ''eve''], [''b''])"
    by code_simp
  then obtain d where d: "ComputeHotDiff demo_hot (Some demo_old_cfg) (Some demo_new_cfg) = Some d"
    "map uo_Email (hd_RemovedUsers d) = [''ann'', ''bob'']" "map uo_Email (hd_AddedUsers d) = [''bob'', ''eve'']"
    "hd_RemovedInboundTags d = [''b'']" by auto
  then show ?thesis by (intro exI [of _ d] conjI d hot_diff_exact [OF d(1) demo_decoder demo_reads])
qed

end
