(* ===== verification/Hot_Safety.thy ===== *)
theory Hot_Safety
  imports Hot_Core
begin

text \<open>
  What a hot diff spares, and which clients it drops: the restrictions of \<open>internal/xray/hot_diff.go\<close>
  that keep a hot change from touching what only a restart can change safely.
\<close>

lemma each_step_all: "each_step f xs s = Some s' \<Longrightarrow> x \<in> set xs \<Longrightarrow> \<exists>a b. f x a = Some b"
  by (induction xs arbitrary: s) (auto split: option.splits)

lemma each_step_inv:
  "each_step f xs s = Some s' \<Longrightarrow> (\<And>x a b. x \<in> set xs \<Longrightarrow> f x a = Some b \<Longrightarrow> I a \<Longrightarrow> I b) \<Longrightarrow> I s \<Longrightarrow> I s'"
proof (induction xs arbitrary: s)
  case (Cons x xs)
  then obtain s2 where "f x s = Some s2" "each_step f xs s2 = Some s'" by (auto split: option.splits)
  then show ?case using Cons.IH [of s2] Cons.prems(2) [of x s s2] Cons.prems(2,3) by fastforce
qed simp

lemma ComputeHotDiff_parts:
  assumes "ComputeHotDiff env (Some old) (Some new) = Some d"
  obtains d1 d2 where "diffInbounds env old new no_diff = Some d1" "diffOutbounds env old new d1 = Some d2"
    "hd_RemovedInboundTags d = hd_RemovedInboundTags d1" "hd_DroppedClients d = hd_DroppedClients d1"
    "hd_RemovedUsers d = hd_RemovedUsers d1" "hd_AddedUsers d = hd_AddedUsers d1" "hd_RemovedOutboundTags d = hd_RemovedOutboundTags d2"
proof -
  obtain d1 d2 where d1: "diffInbounds env old new no_diff = Some d1" and d2: "diffOutbounds env old new d1 = Some d2"
    and d: "diffRouting env old new d2 = Some d"
    using assms by (auto simp: ComputeHotDiff_def split: if_split_asm option.splits)
  obtain oldOut newOut where out: "parseOutbounds env (cf_OutboundConfigs old) = Some oldOut" "parseOutbounds env (cf_OutboundConfigs new) = Some newOut"
    using d2 by (auto simp: diffOutbounds_def split: option.splits)
  have r2: "hd_RoutingConfig d2 = None" using diffInbounds_frame [OF d1] diffOutbounds_form [OF d2 out] by (simp add: no_diff_def)
  obtain r where "d = d2\<lparr>hd_RoutingConfig := r\<rparr>" using diffRouting_effect(3) [OF d r2] by blast
  then show thesis using that [OF d1 d2] diffOutbounds_form [OF d2 out] by simp
qed

lemma diffInbounds_parts:
  assumes "diffInbounds env old new d = Some d'"
  obtains d1 where "wf_map (by_tag (cf_InboundConfigs old))" "wf_map (by_tag (cf_InboundConfigs new))"
    "each_step (old_inbound env (apiTagFromConfig env (cf_API new)) (by_tag (cf_InboundConfigs new))) (cf_InboundConfigs old) d = Some d1"
    "each_step (new_inbound env (apiTagFromConfig env (cf_API new)) (by_tag (cf_InboundConfigs old))) (cf_InboundConfigs new) d1 = Some d'"
  using assms inboundsByTag_exact [of "cf_InboundConfigs old" "[]"] inboundsByTag_exact [of "cf_InboundConfigs new" "[]"]
  by (auto simp: diffInbounds_def Let_def split: option.splits)

subsection \<open>What is never rebuilt\<close>

definition rebuildable :: "hot_env \<Rightarrow> InboundConfig \<Rightarrow> bool" where
  "rebuildable env ib \<longleftrightarrow> \<not> inboundUsesReality env ib \<and> \<not> inboundUsesTproxy env ib \<and> \<not> inboundUsesSocksAccounts env ib
     \<and> \<not> inboundHasReverseClient env ib"

lemma changed_no_reverse:
  "changed_inbound env a b d = Some d' \<Longrightarrow> \<not> inboundHasReverseClient env a \<and> \<not> inboundHasReverseClient env b"
  unfolding changed_inbound_def by (metis option.distinct(1))

lemma users_keep_tags: "diffInboundUsers env a b d = Some d' \<Longrightarrow> hd_RemovedInboundTags d' = hd_RemovedInboundTags d"
  by (auto simp: diffInboundUsers_def Let_def split: if_split_asm option.splits)

lemma changed_rebuilds:
  assumes c: "changed_inbound env a b d = Some d'"
  shows "set (hd_RemovedInboundTags d') \<subseteq> set (hd_RemovedInboundTags d) \<union> (if rebuildable env a \<and> rebuildable env b then {ic_Tag a} else {})"
  using c
proof (cases rule: changed_inbound_cases)
  case users
  then show ?thesis using users_keep_tags by (fastforce split: if_split_asm)
next
  case (rebuild raw)
  then show ?thesis using changed_no_reverse [OF c] by (auto simp: rebuildable_def split: if_split_asm)
qed

lemma old_inbound_rebuilds:
  assumes "old_inbound env apiTag m ib d = Some d'"
  shows "set (hd_RemovedInboundTags d') \<subseteq> set (hd_RemovedInboundTags d) \<union>
     (case map_of m (ic_Tag ib) of None \<Rightarrow> if ic_TuicRelay ib then {} else {ic_Tag ib} | Some n \<Rightarrow> if rebuildable env ib \<and> rebuildable env n then {ic_Tag ib} else {})"
proof (cases "map_of m (ic_Tag ib)")
  case None
  then show ?thesis using assms by (auto simp: old_inbound_def Let_def relay_change_def split: if_split_asm)
next
  case (Some n)
  then consider "d' = d" | "d' = relay_change (Some ib) (Some n) d" | "changed_inbound env ib n d = Some d'"
    using assms unfolding old_inbound_def Let_def Some option.case by (metis option.inject option.distinct(1))
  then show ?thesis
  proof cases
    case 3
    then show ?thesis using changed_rebuilds [OF 3] Some by simp
  qed (auto simp: relay_change_def)
qed

lemma new_inbound_rebuilds: "new_inbound env apiTag m ib d = Some d' \<Longrightarrow> hd_RemovedInboundTags d' = hd_RemovedInboundTags d"
  by (auto simp: new_inbound_def relay_change_def split: if_split_asm option.splits)

lemma rebuilt_tags:
  assumes d: "diffInbounds env old new no_diff = Some d" and t: "t \<in> set (hd_RemovedInboundTags d)"
  shows "\<exists>ib. inbound_of (cf_InboundConfigs old) t = Some ib
    \<and> (case inbound_of (cf_InboundConfigs new) t of None \<Rightarrow> \<not> ic_TuicRelay ib | Some n \<Rightarrow> rebuildable env ib \<and> rebuildable env n)"
    (is "?P t")
proof -
  obtain d1 where wf: "wf_map (by_tag (cf_InboundConfigs old))"
    and d1: "each_step (old_inbound env (apiTagFromConfig env (cf_API new)) (by_tag (cf_InboundConfigs new))) (cf_InboundConfigs old) no_diff = Some d1"
    and d2: "each_step (new_inbound env (apiTagFromConfig env (cf_API new)) (by_tag (cf_InboundConfigs old))) (cf_InboundConfigs new) d1 = Some d"
    using diffInbounds_parts [OF d] by blast
  have find: "inbound_of (cf_InboundConfigs old) (ic_Tag ib) = Some ib" if "ib \<in> set (cf_InboundConfigs old)" for ib
    unfolding inbound_of_by_tag map_of_wf [OF wf] using that by simp
  have "\<forall>t \<in> set (hd_RemovedInboundTags d1). ?P t"
  proof (rule each_step_inv [OF d1])
    fix ib a b assume ib: "ib \<in> set (cf_InboundConfigs old)"
      and st: "old_inbound env (apiTagFromConfig env (cf_API new)) (by_tag (cf_InboundConfigs new)) ib a = Some b"
      and inv: "\<forall>t \<in> set (hd_RemovedInboundTags a). ?P t"
    show "\<forall>t \<in> set (hd_RemovedInboundTags b). ?P t"
    proof
      fix t assume "t \<in> set (hd_RemovedInboundTags b)"
      then consider "t \<in> set (hd_RemovedInboundTags a)" | "t = ic_Tag ib" "case inbound_of (cf_InboundConfigs new) t of None \<Rightarrow> \<not> ic_TuicRelay ib
          | Some n \<Rightarrow> rebuildable env ib \<and> rebuildable env n"
        using old_inbound_rebuilds [OF st] by (fastforce simp: inbound_of_by_tag split: option.splits if_split_asm)
      then show "?P t" using inv find [OF ib] by cases blast+
    qed
  qed (simp add: no_diff_def)
  moreover have "hd_RemovedInboundTags d = hd_RemovedInboundTags d1"
    by (rule each_step_inv [OF d2, of "\<lambda>x. hd_RemovedInboundTags x = hd_RemovedInboundTags d1"]) (simp_all add: new_inbound_rebuilds)
  ultimately show ?thesis using t by simp
qed

text \<open>
  C3: a hot diff never touches the inbound through which the panel talks to the core, never removes the default
  outbound, never rebuilds an inbound with REALITY, TPROXY, password SOCKS5 accounts or a
  reverse-tagged client, before or after the change, and removes a TUIC relay only through its own verified update.
\<close>

theorem hot_diff_spares:
  assumes "ComputeHotDiff env (Some old) (Some new) = Some d" "ib \<in> set (cf_InboundConfigs old)"
  shows "(is_api (apiTagFromConfig env (cf_API new)) ib
      \<longrightarrow> (\<exists>n. inbound_of (cf_InboundConfigs new) (ic_Tag ib) = Some n \<and> inboundEqualNormalized env ib n))
    \<and> (ic_Tag ib \<in> set (hd_RemovedInboundTags d)
      \<longrightarrow> (case inbound_of (cf_InboundConfigs new) (ic_Tag ib) of None \<Rightarrow> \<not> ic_TuicRelay ib | Some n \<Rightarrow> rebuildable env ib \<and> rebuildable env n))
    \<and> (\<forall>e es. parseOutbounds env (cf_OutboundConfigs old) = Some (e # es) \<longrightarrow> oe_tag e \<notin> set (hd_RemovedOutboundTags d))"
proof -
  obtain d1 d2 where d1: "diffInbounds env old new no_diff = Some d1" and d2: "diffOutbounds env old new d1 = Some d2"
    and eq: "hd_RemovedInboundTags d = hd_RemovedInboundTags d1" "hd_RemovedOutboundTags d = hd_RemovedOutboundTags d2"
    using ComputeHotDiff_parts [OF assms(1)] by metis
  obtain d0 where wf: "wf_map (by_tag (cf_InboundConfigs old))"
    and d0: "each_step (old_inbound env (apiTagFromConfig env (cf_API new)) (by_tag (cf_InboundConfigs new))) (cf_InboundConfigs old) no_diff = Some d0"
    using diffInbounds_parts [OF d1] by blast
  have find: "inbound_of (cf_InboundConfigs old) (ic_Tag ib) = Some ib"
    unfolding inbound_of_by_tag map_of_wf [OF wf] using assms(2) by simp
  have api: "\<exists>n. inbound_of (cf_InboundConfigs new) (ic_Tag ib) = Some n \<and> inboundEqualNormalized env ib n"
    if "is_api (apiTagFromConfig env (cf_API new)) ib"
    using each_step_all [OF d0 assms(2)] that by (auto simp: old_inbound_def Let_def inbound_of_by_tag split: if_split_asm option.splits)
  have out: "oe_tag e \<notin> set (hd_RemovedOutboundTags d)" if old: "parseOutbounds env (cf_OutboundConfigs old) = Some (e # es)" for e es
  proof -
    obtain newOut where new: "parseOutbounds env (cf_OutboundConfigs new) = Some newOut"
      using d2 by (auto simp: diffOutbounds_def split: option.splits)
    note form = diffOutbounds_form [OF d2 old new]
    then obtain n ns where n: "newOut = n # ns" by (cases newOut) auto
    have "\<not> changed_outbound newOut e" using form n by (auto simp: changed_outbound_def outbound_of_def)
    moreover have "distinct (map oe_tag (e # es))" using parseOutbounds_exact [OF old] by blast
    ultimately show ?thesis using form diffInbounds_frame [OF d1] by (auto simp: eq no_diff_def)
  qed
  show ?thesis using api out rebuilt_tags [OF d1, of "ic_Tag ib"] find by (auto simp: eq)
qed

lemma hot_diff_spares_witness:
  "\<exists>d. ComputeHotDiff demo_hot (Some demo_old_cfg) (Some demo_new_cfg) = Some d \<and> hd_RemovedInboundTags d = [''b'']
    \<and> \<not> ic_TuicRelay (demo_ib ''b'' ''http'' 81 2) \<and> \<not> is_api ''api'' (demo_ib ''b'' ''http'' 81 2)"
proof -
  have "map_option hd_RemovedInboundTags (ComputeHotDiff demo_hot (Some demo_old_cfg) (Some demo_new_cfg)) = Some [''b'']"
    by code_simp
  then obtain d where d: "ComputeHotDiff demo_hot (Some demo_old_cfg) (Some demo_new_cfg) = Some d" "hd_RemovedInboundTags d = [''b'']" by auto
  have ib: "demo_ib ''b'' ''http'' 81 2 \<in> set (cf_InboundConfigs demo_old_cfg)" by (simp add: demo_old_cfg_def demo_cfg_def)
  have "inbound_of (cf_InboundConfigs demo_new_cfg) ''b'' = None" "apiTagFromConfig demo_hot (cf_API demo_new_cfg) = ''api''"
    "ic_Tag (demo_ib ''b'' ''http'' 81 2) = ''b''"
    by (simp_all add: demo_new_cfg_def demo_cfg_def inbound_of_def demo_ib_def apiTagFromConfig_def)
  then show ?thesis using hot_diff_spares [OF d(1) ib] d by auto
qed

subsection \<open>Which clients are dropped\<close>

definition lists_client :: "hot_env \<Rightarrow> InboundConfig \<Rightarrow> string \<Rightarrow> bool" where
  "lists_client env ib email \<longleftrightarrow> (\<exists>cls rest. splitSettingsClients env (ic_Settings ib) = Some (cls, rest) \<and> map_of cls email \<noteq> None)"

definition drops :: "hot_env \<Rightarrow> InboundConfig \<Rightarrow> InboundConfig \<Rightarrow> string \<Rightarrow> bool" where
  "drops env oldIb newIb email \<longleftrightarrow> lists_client env oldIb email \<and> splitSettingsClients env (ic_Settings newIb) \<noteq> None
     \<and> \<not> lists_client env newIb email"

lemma droppedClients_iff: "u \<in> set (droppedClients env oldIb newIb) \<longleftrightarrow>
    (\<exists>email. drops env oldIb newIb email \<and> u = \<lparr>uo_Tag = ic_Tag newIb, uo_Protocol = ic_Protocol newIb, uo_Email = email, uo_User = None\<rparr>)"
proof (cases "splitSettingsClients env (ic_Settings oldIb)"; cases "splitSettingsClients env (ic_Settings newIb)")
  fix x y assume x: "splitSettingsClients env (ic_Settings oldIb) = Some x" and y: "splitSettingsClients env (ic_Settings newIb) = Some y"
  obtain old r new s where "x = (old, r)" "y = (new, s)" by (cases x; cases y)
  note xy = x [unfolded this] y [unfolded this]
  have "u \<in> set (droppedClients env oldIb newIb) \<longleftrightarrow> (\<exists>email c. (email, c) \<in> set old \<and> map_of new email = None
      \<and> u = \<lparr>uo_Tag = ic_Tag newIb, uo_Protocol = ic_Protocol newIb, uo_Email = email, uo_User = None\<rparr>)"
    unfolding droppedClients_def xy option.case prod.case set_concat set_map by (auto simp: image_iff split: if_split_asm)
  also have "\<dots> \<longleftrightarrow> (\<exists>email. map_of old email \<noteq> None \<and> map_of new email = None
      \<and> u = \<lparr>uo_Tag = ic_Tag newIb, uo_Protocol = ic_Protocol newIb, uo_Email = email, uo_User = None\<rparr>)"
    by (metis map_of_SomeD not_None_eq weak_map_of_SomeI)
  finally show ?thesis by (simp add: drops_def lists_client_def xy)
qed (simp_all add: droppedClients_def drops_def lists_client_def)

lemma equal_drops_none:
  "decoder_ok env \<Longrightarrow> inboundEqualNormalized env a b \<Longrightarrow> \<not> drops env a b email"
  using section_equal_split [of env "ic_Settings a" "ic_Settings b"]
  by (auto simp: inboundEqualNormalized_def rawEqual_section drops_def lists_client_def)

definition dropped_part :: "hot_env \<Rightarrow> (string \<times> InboundConfig) list \<Rightarrow> InboundConfig \<Rightarrow> UserOp list" where
  "dropped_part env m ib = (case map_of m (ic_Tag ib) of None \<Rightarrow> []
     | Some n \<Rightarrow> if ic_TuicRelay ib \<or> inboundEqualNormalized env ib n then [] else droppedClients env ib n)"

definition same_user :: "UserOp \<Rightarrow> UserOp \<Rightarrow> bool" where
  "same_user u v \<longleftrightarrow> uo_Tag u = uo_Tag v \<and> uo_Email u = uo_Email v"

definition accounted :: "HotDiff \<Rightarrow> bool" where
  "accounted d \<longleftrightarrow> (\<forall>u \<in> set (hd_RemovedUsers d). \<exists>v \<in> set (hd_AddedUsers d) \<union> set (hd_DroppedClients d). same_user u v)"

lemma users_accounted:
  assumes ok: "decoder_ok env" and diff: "diffInboundUsers env a b d = Some d'" and acc: "accounted d"
    and drop: "set (droppedClients env a b) \<subseteq> set (hd_DroppedClients d)"
  shows "accounted d' \<and> hd_DroppedClients d' = hd_DroppedClients d"
proof -
  obtain old new rest where tag: "ic_Tag a = ic_Tag b"
    and split: "splitSettingsClients env (ic_Settings a) = Some (old, rest)" "splitSettingsClients env (ic_Settings b) = Some (new, rest)"
    and d': "d' = d\<lparr>hd_RemovedUsers := hd_RemovedUsers d @ map (\<lambda>(email, _). user_op a email None) (filter (changed_user new) old),
        hd_AddedUsers := hd_AddedUsers d @ readded_users a (cipher_of env (ic_Protocol b) rest) old new\<rparr>"
    using diff by (auto simp: diffInboundUsers_def cipher_of_def Let_def split: if_split_asm option.splits)
  note wf = split_clients_ok(1) [OF ok split(1)] split_clients_ok(1) [OF ok split(2)]
  have "\<exists>v \<in> set (hd_AddedUsers d') \<union> set (hd_DroppedClients d'). same_user u v" if u: "u \<in> set (hd_RemovedUsers d')" for u
  proof -
    from u consider "u \<in> set (hd_RemovedUsers d)" | e oc where "(e, oc) \<in> set old" "changed_user new (e, oc)" "u = user_op a e None"
      by (auto simp: d')
    then show ?thesis
    proof cases
      case 1
      then show ?thesis using acc by (auto simp: accounted_def d')
    next
      case (2 e oc)
      then have old: "map_of old e = Some oc" using map_of_wf [OF wf(1)] by simp
      show ?thesis
      proof (cases "map_of new e")
        case None
        then have "drops env a b e" using old by (simp add: drops_def lists_client_def split)
        then have "\<lparr>uo_Tag = ic_Tag b, uo_Protocol = ic_Protocol b, uo_Email = e, uo_User = None\<rparr> \<in> set (hd_DroppedClients d')"
          using drop droppedClients_iff by (auto simp: d')
        then show ?thesis using 2(3) tag by (force simp: same_user_def user_op_def)
      next
        case (Some c)
        have "user_op a e (Some (userWithCipher (ce_user c) (cipher_of env (ic_Protocol b) rest)))
            \<in> set (readded_users a (cipher_of env (ic_Protocol b) rest) old new)"
          unfolding readded_iff using 2(1,2) Some by blast
        then have "user_op a e (Some (userWithCipher (ce_user c) (cipher_of env (ic_Protocol b) rest))) \<in> set (hd_AddedUsers d')"
          by (simp add: d')
        then show ?thesis using 2(3) by (force simp: same_user_def user_op_def)
      qed
    qed
  qed
  then show ?thesis by (auto simp: accounted_def d')
qed

lemma old_inbound_drops:
  assumes ok: "decoder_ok env" and step: "old_inbound env apiTag m ib d = Some d'" and acc: "accounted d"
    and relay: "ic_TuicRelay ib \<Longrightarrow> ic_Protocol ib = ''socks''"
  shows "accounted d' \<and> hd_DroppedClients d' = hd_DroppedClients d @ dropped_part env m ib"
proof (cases "map_of m (ic_Tag ib)")
  case None
  then show ?thesis using step acc by (auto simp: old_inbound_def Let_def relay_change_def dropped_part_def accounted_def split: if_split_asm)
next
  case (Some n)
  then consider "d' = d" "inboundEqualNormalized env ib n" | "d' = relay_change (Some ib) (Some n) d" "ic_TuicRelay ib"
    | "changed_inbound env ib n d = Some d'" "\<not> inboundEqualNormalized env ib n"
    using step unfolding old_inbound_def Let_def Some option.case by (metis option.inject option.distinct(1))
  then show ?thesis
  proof cases
    case 1
    then show ?thesis using acc Some by (simp add: dropped_part_def)
  next
    case 2
    then show ?thesis using acc Some by (simp add: dropped_part_def relay_change_def accounted_def)
  next
    case 3
    define d2 where "d2 = (if ic_TuicRelay ib then d else d\<lparr>hd_DroppedClients := hd_DroppedClients d @ droppedClients env ib n\<rparr>)"
    have d2: "accounted d2" "hd_DroppedClients d2 = hd_DroppedClients d @ dropped_part env m ib"
      using acc Some 3(2) by (auto simp: d2_def accounted_def dropped_part_def)
    show ?thesis using 3(1)
    proof (cases rule: changed_inbound_cases)
      case users
      then have u: "diffInboundUsers env ib n d2 = Some d'" by (simp add: d2_def)
      then have "\<not> ic_TuicRelay ib" using relay by (auto simp: diffInboundUsers_def userDiffableProtocols_def split: if_split_asm)
      then have "set (droppedClients env ib n) \<subseteq> set (hd_DroppedClients d2)" by (simp add: d2_def)
      then show ?thesis using users_accounted [OF ok u d2(1)] d2(2) by simp
    next
      case (rebuild raw)
      then show ?thesis unfolding d2_def [symmetric] using d2 by (simp add: accounted_def)
    qed
  qed
qed

lemma olds_drop:
  assumes ok: "decoder_ok env" and st: "each_step (old_inbound env apiTag m) ibs d = Some d'" and acc: "accounted d"
    and relay: "\<And>ib. ib \<in> set ibs \<Longrightarrow> ic_TuicRelay ib \<Longrightarrow> ic_Protocol ib = ''socks''"
  shows "accounted d' \<and> hd_DroppedClients d' = hd_DroppedClients d @ concat (map (dropped_part env m) ibs)"
  using st acc relay
proof (induction ibs arbitrary: d)
  case (Cons ib ibs)
  then obtain d2 where d2: "old_inbound env apiTag m ib d = Some d2" "each_step (old_inbound env apiTag m) ibs d2 = Some d'"
    by (auto split: option.splits)
  then show ?case using old_inbound_drops [OF ok d2(1) Cons.prems(2)] Cons.IH [OF d2(2)] Cons.prems(3) by auto
qed simp

lemma news_drop: "new_inbound env apiTag m ib d = Some d' \<Longrightarrow> hd_DroppedClients d' = hd_DroppedClients d
    \<and> hd_RemovedUsers d' = hd_RemovedUsers d \<and> hd_AddedUsers d' = hd_AddedUsers d"
  by (auto simp: new_inbound_def relay_change_def split: if_split_asm option.splits)



end
