(* ===== verification/Wireguard_Keys.thy ===== *)
theory Wireguard_Keys
  imports Go_Json
begin

unbundle bit_operations_syntax

text \<open>
  \<open>internal/util/wireguard/wireguard.go\<close>: WireGuard keys in their spellings, with what it uses of \<open>encoding/hex\<close>
  and \<open>encoding/base64\<close>. The random bytes and the scalar multiplication of curve25519 are parameters.
\<close>

subsection \<open>Hexadecimal and base64 digits\<close>

definition hex_digit :: "char \<Rightarrow> nat option" where
  "hex_digit c = (let n = of_char c in
     if 48 \<le> n \<and> n \<le> 57 then Some (n - 48) else if 97 \<le> n \<and> n \<le> 102 then Some (n - 87)
     else if 65 \<le> n \<and> n \<le> 70 then Some (n - 55) else None)"

fun hex_decode :: "string \<Rightarrow> bytes option" where
  "hex_decode [] = Some []"
| "hex_decode [c] = None"
| "hex_decode (c # d # s) =
     (case (hex_digit c, hex_digit d, hex_decode s) of
        (Some a, Some b, Some bs) \<Rightarrow> Some (of_nat (16 * a + b) # bs)
      | _ \<Rightarrow> None)"

definition hex_encode :: "bytes \<Rightarrow> string" where
  "hex_encode bs = concat (map (\<lambda>b. [hex_char (unat b div 16), hex_char (unat b mod 16)]) bs)"

text \<open>The two alphabets of base64 differ in the last two digits.\<close>

definition base64_digit :: "char \<times> char \<Rightarrow> char \<Rightarrow> nat option" where
  "base64_digit ab c = (let n = of_char c in
     if 65 \<le> n \<and> n \<le> 90 then Some (n - 65) else if 97 \<le> n \<and> n \<le> 122 then Some (n - 71)
     else if 48 \<le> n \<and> n \<le> 57 then Some (n + 4)
     else if c = fst ab then Some 62 else if c = snd ab then Some 63 else None)"

text \<open>
  \<open>RawEncoding.DecodeString\<close>: quanta of four digits, line breaks are skipped, the last quantum may have two or three.
  \<open>si\<close> is the offset of the text that is left, \<open>q\<close> the digits of the quantum read so far.
\<close>

definition quantum :: "nat list \<Rightarrow> bytes" where
  "quantum q = (case q of
     [a, b] \<Rightarrow> [of_nat (4 * a + b div 16)]
   | [a, b, c] \<Rightarrow> [of_nat (4 * a + b div 16), of_nat (16 * b + c div 4)]
   | [a, b, c, d] \<Rightarrow> [of_nat (4 * a + b div 16), of_nat (16 * b + c div 4), of_nat (64 * c + d)]
   | _ \<Rightarrow> [])"

definition corrupt_input :: "nat \<Rightarrow> string" where
  "corrupt_input i = ''illegal base64 data at input byte '' @ itoa (int i)"

fun base64_decode :: "char \<times> char \<Rightarrow> nat \<Rightarrow> nat list \<Rightarrow> string \<Rightarrow> string + bytes" where
  "base64_decode ab si q [] = (if length q = 1 then Inl (corrupt_input (si - 1)) else Inr (quantum q))"
| "base64_decode ab si q (c # s) =
     (case base64_digit ab c of
        Some n \<Rightarrow>
          (if length q = 3 then (case base64_decode ab (si + 1) [] s of Inl e \<Rightarrow> Inl e | Inr bs \<Rightarrow> Inr (quantum (q @ [n]) @ bs))
           else base64_decode ab (si + 1) (q @ [n]) s)
      | None \<Rightarrow> if c = CHR 0x0A \<or> c = CHR 0x0D then base64_decode ab (si + 1) q s else Inl (corrupt_input si))"

definition trim_right :: "char \<Rightarrow> string \<Rightarrow> string" where
  "trim_right c s = rev (dropWhile (\<lambda>d. d = c) (rev s))"

definition std_alphabet :: "char \<times> char" where "std_alphabet = (CHR ''+'', CHR ''/'')"
definition url_alphabet :: "char \<times> char" where "url_alphabet = (CHR ''-'', CHR ''_'')"

definition base64_char :: "char \<times> char \<Rightarrow> nat \<Rightarrow> char" where
  "base64_char ab n = (if n < 26 then char_of (65 + n) else if n < 52 then char_of (71 + n) else if n < 62 then char_of (n - 4)
     else if n = 62 then fst ab else snd ab)"

fun base64_encode :: "char \<times> char \<Rightarrow> bool \<Rightarrow> bytes \<Rightarrow> string" where
  "base64_encode ab pad [] = []"
| "base64_encode ab pad [a] =
     [base64_char ab (unat a div 4), base64_char ab (16 * (unat a mod 4))] @ (if pad then ''=='' else [])"
| "base64_encode ab pad [a, b] =
     [base64_char ab (unat a div 4), base64_char ab (16 * (unat a mod 4) + unat b div 16), base64_char ab (4 * (unat b mod 16))] @
     (if pad then ''='' else [])"
| "base64_encode ab pad (a # b # c # bs) =
     [base64_char ab (unat a div 4), base64_char ab (16 * (unat a mod 4) + unat b div 16),
      base64_char ab (4 * (unat b mod 16) + unat c div 64), base64_char ab (unat c mod 64)] @ base64_encode ab pad bs"

subsection \<open>Keys\<close>

definition decodeWireguardKey :: "string \<Rightarrow> string + bytes" where
  "decodeWireguardKey key =
     (if key = [] then Inl ''wireguard: empty key''
      else case (if length key = 64 then hex_decode key else None) of
        Some raw \<Rightarrow> if length raw \<noteq> 32 then Inl ''wireguard: key must decode to 32 bytes'' else Inr raw
      | None \<Rightarrow>
          (let trimmed = trim_right (CHR ''='') key;
               alphabet = (if CHR ''+'' \<in> set trimmed \<or> CHR ''/'' \<in> set trimmed then std_alphabet else url_alphabet) in
           case base64_decode alphabet 0 [] trimmed of
             Inl e \<Rightarrow> Inl e
           | Inr raw \<Rightarrow> if length raw \<noteq> 32 then Inl ''wireguard: key must decode to 32 bytes'' else Inr raw))"

definition KeyToHex :: "string \<Rightarrow> string + string" where
  "KeyToHex key = (if key = [] then Inr [] else case decodeWireguardKey key of Inl e \<Rightarrow> Inl e | Inr raw \<Rightarrow> Inr (hex_encode raw))"

definition clamp :: "bytes \<Rightarrow> bytes" where
  "clamp priv = (let priv = priv[0 := priv ! 0 AND 248]; priv = priv[31 := priv ! 31 AND 127] in priv[31 := priv ! 31 OR 64])"

definition GenerateWireguardKeypair :: "(bytes \<Rightarrow> bytes) \<Rightarrow> string + bytes \<Rightarrow> string + (string \<times> string)" where
  "GenerateWireguardKeypair basemult rnd =
     (case rnd of Inl e \<Rightarrow> Inl e
      | Inr priv \<Rightarrow> let priv = clamp priv; pub = basemult priv in
          Inr (base64_encode std_alphabet True priv, base64_encode std_alphabet True pub))"

definition GenerateWireguardPSK :: "string + bytes \<Rightarrow> string + string" where
  "GenerateWireguardPSK rnd = (case rnd of Inl e \<Rightarrow> Inl e | Inr psk \<Rightarrow> Inr (base64_encode std_alphabet True psk))"

definition PublicKeyFromPrivate :: "(bytes \<Rightarrow> bytes) \<Rightarrow> string \<Rightarrow> string + string" where
  "PublicKeyFromPrivate basemult privateKey =
     (case decodeWireguardKey privateKey of Inl e \<Rightarrow> Inl e | Inr priv \<Rightarrow> Inr (base64_encode std_alphabet True (basemult priv)))"

subsection \<open>Round trips\<close>

definition alphabet :: "char \<times> char \<Rightarrow> bool" where
  "alphabet ab \<longleftrightarrow> ab = std_alphabet \<or> ab = url_alphabet"

lemma unat_byte: "unat (b :: byte) < 256"
  using unsigned_less [of b, where ?'a = nat] by simp

lemma of_char_of_nat: "n < 256 \<Longrightarrow> of_char (char_of (n :: nat)) = n"
  by (simp add: of_char_of)

lemma base64_digit_char [simp]:
  assumes "alphabet ab" "n < 64"
  shows "base64_digit ab (base64_char ab n) = Some n"
proof -
  have ab: "of_char (fst ab) \<in> {43, 45 :: nat}" "of_char (snd ab) \<in> {47, 95 :: nat}" "fst ab \<noteq> snd ab"
    using assms(1) by (auto simp: alphabet_def std_alphabet_def url_alphabet_def)
  consider "n < 26" | "26 \<le> n" "n < 52" | "52 \<le> n" "n < 62" | "n = 62" | "n = 63" using assms(2) by linarith
  then show ?thesis
    by cases (use ab in \<open>auto simp: base64_digit_def base64_char_def of_char_of_nat Let_def\<close>)
qed

lemma sextets:
  fixes x y z :: nat
  assumes "x < 256" "y < 256" "z < 256"
  shows "4 * (x div 4) + (16 * (x mod 4) + y div 16) div 16 = x"
    "16 * (16 * (x mod 4) + y div 16) + (4 * (y mod 16) + z div 64) div 4 = 256 * (x mod 4) + y"
    "64 * (4 * (y mod 16) + z div 64) + z mod 64 = 256 * (y mod 16) + z"
    "x div 4 < 64" "16 * (x mod 4) + y div 16 < 64" "4 * (y mod 16) + z div 64 < 64" "z mod 64 < 64"
proof -
  have d: "y div 16 < 16" "z div 64 < 4" "x mod 4 < 4" "y mod 16 < 16" using assms by (simp_all add: less_mult_imp_div_less)
  then have "(16 * (x mod 4) + y div 16) div 16 = x mod 4" "(4 * (y mod 16) + z div 64) div 4 = y mod 16" by simp_all
  then show "4 * (x div 4) + (16 * (x mod 4) + y div 16) div 16 = x"
    "16 * (16 * (x mod 4) + y div 16) + (4 * (y mod 16) + z div 64) div 4 = 256 * (x mod 4) + y"
    using mult_div_mod_eq [of 4 x] mult_div_mod_eq [of 16 y] by (simp_all add: algebra_simps)
  show "64 * (4 * (y mod 16) + z div 64) + z mod 64 = 256 * (y mod 16) + z"
    using mult_div_mod_eq [of 64 z] by (simp add: algebra_simps)
  show "x div 4 < 64" "z mod 64 < 64" using assms by (simp_all add: less_mult_imp_div_less)
  show "16 * (x mod 4) + y div 16 < 64" "4 * (y mod 16) + z div 64 < 64" using d by linarith+
qed

lemmas byte_sextets = sextets [OF unat_byte unat_byte unat_byte]

lemma of_nat_byte: "of_nat (256 * k + unat x) = (x :: byte)"
proof -
  have "(256 :: byte) = 0" by code_simp
  then show ?thesis by (simp only: of_nat_add of_nat_mult of_nat_numeral mult_zero_left add_0_left of_nat_unat ucast_id)
qed

lemma quantum3:
  "quantum [unat (a :: byte) div 4, 16 * (unat a mod 4) + unat b div 16, 4 * (unat b mod 16) + unat c div 64, unat c mod 64] = [a, b, c]"
  unfolding quantum_def list.case byte_sextets of_nat_byte by simp

lemma quantum2: "quantum [unat (a :: byte) div 4, 16 * (unat a mod 4) + unat b div 16, 4 * (unat b mod 16)] = [a, b]"
  using quantum3 [of a b 0] unfolding quantum_def list.case by simp

lemma quantum1: "quantum [unat (a :: byte) div 4, 16 * (unat a mod 4)] = [a]"
  using quantum2 [of a 0] unfolding quantum_def list.case by simp

lemma base64_roundtrip:
  assumes "alphabet ab"
  shows "base64_decode ab si [] (base64_encode ab False bs) = Inr bs"
  using assms
proof (induction ab False bs arbitrary: si rule: base64_encode.induct)
  case (2 ab a)
  then show ?case using byte_sextets(4) [of a] byte_sextets(5) [of a 0] by (simp add: quantum1)
next
  case (3 ab a b)
  then show ?case using byte_sextets(4) [of a] byte_sextets(5) [of a b] byte_sextets(6) [of b 0] by (simp add: quantum2)
next
  case (4 ab a b c bs)
  then show ?case using byte_sextets(4) [of a] byte_sextets(5) [of a b] byte_sextets(6) [of b c] byte_sextets(7) [of c] by (simp add: quantum3)
qed (simp add: quantum_def)

lemma base64_decode_cong:
  "(\<And>c. c \<in> set s \<Longrightarrow> base64_digit ab c = base64_digit ab' c) \<Longrightarrow> base64_decode ab si q s = base64_decode ab' si q s"
  by (induction ab si q s rule: base64_decode.induct) (auto split: option.split)

lemma base64_char_cases:
  assumes "alphabet ab" "n < 64"
  shows "base64_char ab n = fst ab \<or> base64_char ab n = snd ab
    \<or> (\<forall>ab'. base64_digit ab' (base64_char ab n) = Some n) \<and> base64_char ab n \<notin> {CHR ''='', CHR ''+'', CHR ''/'', CHR ''-'', CHR ''_''}"
proof -
  consider "n < 26" | "26 \<le> n" "n < 52" | "52 \<le> n" "n < 62" | "n = 62" | "n = 63" using assms(2) by linarith
  then show ?thesis
  proof cases
    case 1
    then have "base64_char ab n \<noteq> c" if "of_char c < (65 :: nat) \<or> 90 < (of_char c :: nat)" for c
      using that by (auto simp: base64_char_def of_char_of_nat)
    with 1 show ?thesis by (simp add: base64_digit_def base64_char_def of_char_of_nat Let_def)
  next
    case 2
    then have "base64_char ab n \<noteq> c" if "of_char c < (97 :: nat) \<or> 122 < (of_char c :: nat)" for c
      using that by (auto simp: base64_char_def of_char_of_nat)
    with 2 show ?thesis by (simp add: base64_digit_def base64_char_def of_char_of_nat Let_def)
  next
    case 3
    then have "base64_char ab n \<noteq> c" if "of_char c < (48 :: nat) \<or> 57 < (of_char c :: nat)" for c
      using that by (auto simp: base64_char_def of_char_of_nat)
    with 3 show ?thesis by (auto simp: base64_digit_def base64_char_def of_char_of_nat Let_def)
  qed (simp_all add: base64_char_def)
qed

lemma base64_encode_chars: "set (base64_encode ab False bs) \<subseteq> base64_char ab ` {..<64}"
proof (induction ab False bs rule: base64_encode.induct)
  case (2 ab a)
  then show ?case using byte_sextets(4) [of a] by (auto intro!: imageI)
next
  case (3 ab a b)
  then show ?case using byte_sextets(4) [of a] byte_sextets(5) [of a b] by (auto intro!: imageI)
next
  case (4 ab a b c bs)
  then show ?case using byte_sextets(4) [of a] byte_sextets(5) [of a b] byte_sextets(6) [of b c] by (auto intro!: imageI)
qed simp

lemma base64_pad: "\<exists>n. base64_encode ab True bs = base64_encode ab False bs @ replicate n (CHR ''='')"
proof (induction ab True bs rule: base64_encode.induct)
  case (2 ab a)
  then show ?case by (intro exI [of _ 2]) (simp add: numeral_2_eq_2)
next
  case (3 ab a b)
  then show ?case by (intro exI [of _ 1]) simp
next
  case (4 ab a b c bs)
  then obtain n where "base64_encode ab True bs = base64_encode ab False bs @ replicate n (CHR ''='')" by blast
  then show ?case by (intro exI [of _ n]) simp
qed simp

lemma trim_right_pad: "c \<notin> set s \<Longrightarrow> trim_right c (s @ replicate n c) = s"
proof -
  assume "c \<notin> set s"
  then have "c \<notin> set (rev s)" by simp
  then have "dropWhile (\<lambda>d. d = c) (rev s) = rev s" by (cases "rev s") auto
  moreover have "dropWhile (\<lambda>d. d = c) (replicate n c @ rev s) = dropWhile (\<lambda>d. d = c) (rev s)" by (induction n) simp_all
  ultimately show ?thesis by (simp add: trim_right_def)
qed

lemma base64_length: "3 * length (base64_encode ab pad bs) \<le> 4 * length bs + 8"
  by (induction ab pad bs rule: base64_encode.induct) auto

lemma base64_encode_plain:
  assumes "alphabet ab"
  shows "CHR ''='' \<notin> set (base64_encode ab False bs)"
    and "CHR ''+'' \<in> set (base64_encode ab False bs) \<or> CHR ''/'' \<in> set (base64_encode ab False bs) \<Longrightarrow> ab = std_alphabet"
    and "CHR ''+'' \<notin> set (base64_encode ab False bs) \<Longrightarrow> CHR ''/'' \<notin> set (base64_encode ab False bs)
      \<Longrightarrow> c \<in> set (base64_encode ab False bs) \<Longrightarrow> base64_digit ab c = base64_digit url_alphabet c"
proof -
  have cs: "c = fst ab \<or> c = snd ab \<or> (\<exists>n. \<forall>ab'. base64_digit ab' c = Some n) \<and> c \<notin> {CHR ''='', CHR ''+'', CHR ''/'', CHR ''-'', CHR ''_''}"
    if "c \<in> set (base64_encode ab False bs)" for c
  proof -
    have "c \<in> base64_char ab ` {..<64}" using that base64_encode_chars by blast
    then obtain n where n: "n < 64" "c = base64_char ab n" by blast
    show ?thesis using base64_char_cases [OF assms n(1)] unfolding n(2) by blast
  qed
  have ab: "ab = (CHR ''+'', CHR ''/'') \<or> ab = (CHR ''-'', CHR ''_'')" using assms by (simp add: alphabet_def std_alphabet_def url_alphabet_def)
  show "CHR ''='' \<notin> set (base64_encode ab False bs)" using cs [of "CHR ''=''"] ab by auto
  show "ab = std_alphabet" if "CHR ''+'' \<in> set (base64_encode ab False bs) \<or> CHR ''/'' \<in> set (base64_encode ab False bs)"
    using cs [of "CHR ''+''"] cs [of "CHR ''/''"] ab that by (auto simp: std_alphabet_def)
  show "base64_digit ab c = base64_digit url_alphabet c"
    if "CHR ''+'' \<notin> set (base64_encode ab False bs)" "CHR ''/'' \<notin> set (base64_encode ab False bs)" "c \<in> set (base64_encode ab False bs)"
    using cs [OF that(3)] ab that by (auto simp: url_alphabet_def)
qed

lemma decode_base64_key:
  assumes "alphabet ab" "length raw = 32"
  shows "decodeWireguardKey (base64_encode ab pad raw) = Inr raw"
proof -
  let ?e = "base64_encode ab False raw" and ?k = "base64_encode ab pad raw"
  obtain n where k: "?k = ?e @ replicate n (CHR ''='')" using base64_pad [of ab raw] by (cases pad) (auto intro: exI [of _ 0])
  then have t: "trim_right (CHR ''='') ?k = ?e" using trim_right_pad base64_encode_plain(1) [OF assms(1)] by metis
  have l: "length ?k \<noteq> 64" using base64_length [of ab pad raw] assms(2) by linarith
  have ne: "?k \<noteq> []" using assms(2) by (cases "(ab, pad, raw)" rule: base64_encode.cases) auto
  have "base64_decode (if CHR ''+'' \<in> set ?e \<or> CHR ''/'' \<in> set ?e then std_alphabet else url_alphabet) 0 [] ?e = Inr raw"
  proof (cases "CHR ''+'' \<in> set ?e \<or> CHR ''/'' \<in> set ?e")
    case True
    then show ?thesis using base64_encode_plain(2) [OF assms(1) True] base64_roundtrip [OF assms(1)] by simp
  next
    case False
    then have "base64_decode ab 0 [] ?e = base64_decode url_alphabet 0 [] ?e"
      by (intro base64_decode_cong base64_encode_plain(3) [OF assms(1)]) auto
    then show ?thesis using False base64_roundtrip [OF assms(1)] by simp
  qed
  then show ?thesis using ne l assms(2) by (simp add: decodeWireguardKey_def t Let_def)
qed

lemma hex_digit_char: "n < 16 \<Longrightarrow> hex_digit (hex_char n) = Some n"
  by (auto simp: hex_digit_def hex_char_def of_char_of_nat Let_def)

lemma hex_roundtrip [simp]: "hex_decode (hex_encode bs) = Some bs"
proof (induction bs)
  case (Cons b bs)
  have "unat b div 16 < 16" "unat b mod 16 < 16" using unat_byte [of b] by (simp_all add: less_mult_imp_div_less)
  moreover have "of_nat (16 * (unat b div 16) + unat b mod 16) = b" by (simp only: mult_div_mod_eq of_nat_unat ucast_id)
  ultimately show ?case using Cons by (simp add: hex_encode_def hex_digit_char)
qed (simp add: hex_encode_def)

lemma length_hex_encode [simp]: "length (hex_encode bs) = 2 * length bs"
  by (induction bs) (simp_all add: hex_encode_def)

lemma decode_key_length: "decodeWireguardKey key = Inr raw \<Longrightarrow> length raw = 32"
  by (auto simp: decodeWireguardKey_def Let_def split: if_splits option.splits sum.splits)

text \<open>
  C7: a key has one hexadecimal form. Whichever way its 32 bytes are spelled, as hexadecimal or in either base64
  alphabet with or without padding, the core gets the same lower-case hexadecimal text, and whatever text is accepted
  yields the hexadecimal form of 32 bytes.
\<close>

theorem KeyToHex_spellings:
  assumes "length raw = 32"
  shows "KeyToHex (hex_encode raw) = Inr (hex_encode raw)
    \<and> KeyToHex (base64_encode std_alphabet pad raw) = Inr (hex_encode raw)
    \<and> KeyToHex (base64_encode url_alphabet pad raw) = Inr (hex_encode raw)
    \<and> (KeyToHex key = Inr h \<longrightarrow> key \<noteq> [] \<longrightarrow> (\<exists>raw. length raw = 32 \<and> h = hex_encode raw))"
proof -
  have "hex_encode raw \<noteq> []" using assms length_hex_encode [of raw] by (metis length_0_conv mult_is_0 zero_neq_numeral)
  then have "KeyToHex (hex_encode raw) = Inr (hex_encode raw)"
    using assms by (simp add: KeyToHex_def decodeWireguardKey_def)
  moreover have "KeyToHex (base64_encode ab pad raw) = Inr (hex_encode raw)" if "alphabet ab" for ab
  proof -
    have "base64_encode ab pad raw \<noteq> []" using assms by (cases "(ab, pad, raw)" rule: base64_encode.cases) auto
    then show ?thesis using decode_base64_key [OF that assms, of pad] by (simp add: KeyToHex_def)
  qed
  moreover have "\<exists>raw. length raw = 32 \<and> h = hex_encode raw" if "KeyToHex key = Inr h" "key \<noteq> []"
    using that by (auto simp: KeyToHex_def split: sum.splits dest: decode_key_length)
  ultimately show ?thesis by (simp add: alphabet_def)
qed

lemma KeyToHex_spellings_witness:
  "KeyToHex (base64_encode std_alphabet False (replicate 31 0 @ [255])) = Inr (hex_encode (replicate 31 0 @ [255]))
   \<and> KeyToHex (hex_encode (replicate 31 0 @ [255])) = Inr (hex_encode (replicate 31 0 @ [255]))"
  using KeyToHex_spellings [of "replicate 31 0 @ [255]" False] by simp

text \<open>
  A generated private key belongs to the public key generated with it.
\<close>

theorem generated_keypair:
  assumes "GenerateWireguardKeypair basemult (Inr rnd) = Inr (priv, pub)" "length rnd = 32"
  shows "PublicKeyFromPrivate basemult priv = Inr pub"
proof -
  have "length (clamp rnd) = 32" using assms(2) by (simp add: clamp_def Let_def)
  then have "decodeWireguardKey priv = Inr (clamp rnd)"
    using assms(1) decode_base64_key [of std_alphabet "clamp rnd" True]
    by (auto simp: GenerateWireguardKeypair_def Let_def alphabet_def)
  then show ?thesis using assms(1) by (auto simp: GenerateWireguardKeypair_def PublicKeyFromPrivate_def Let_def)
qed

lemma generated_keypair_witness:
  "\<exists>priv pub. GenerateWireguardKeypair id (Inr (replicate 32 255)) = Inr (priv, pub) \<and> PublicKeyFromPrivate id priv = Inr pub"
proof -
  obtain priv pub where g: "GenerateWireguardKeypair id (Inr (replicate 32 255)) = Inr (priv, pub)"
    by (simp add: GenerateWireguardKeypair_def Let_def)
  then show ?thesis using generated_keypair [OF g] by simp
qed

end
