(* ===== verification/Xray_Api.thy ===== *)
theory Xray_Api
  imports Wireguard_Keys Complex_Main
begin

text \<open>
  \<open>internal/xray/api.go\<close>, the handlers: the typed account of a user, and the calls that add and remove
  inbounds, outbounds and users, with the classification of the errors the core answers with.

  A Go \<open>error\<close> is its text, and nil is \<open>None\<close>. The gRPC service of the core and Xray's own loader of JSON
  configurations are parameters (\<open>core_rpc\<close>); so are the quoting of \<open>%q\<close> and the conversions of floating-point numbers
  (\<open>go_fmt\<close>).
\<close>

subsection \<open>Values of any type\<close>

datatype go_any = ANil | ABool bool | AString string | ANumber string | AFloat rat | AUint32 "32 word"
  | AUint32s "32 word list" | AStrings "string list" | AList "go_any list" | AMap "(string \<times> go_any) list" | ATyped string json

fun to_any :: "json \<Rightarrow> go_any" where
  "to_any JNull = ANil"
| "to_any (JBool b) = ABool b"
| "to_any (JNum n) = ANumber n"
| "to_any (JStr s) = AString s"
| "to_any (JArr vs) = AList (map to_any vs)"
| "to_any (JObj m) = AMap (map (\<lambda>(k, v). (k, to_any v)) m)"

text \<open>A user decoded by the diff: its numbers are of type \<open>json.Number\<close>.\<close>

definition any_user :: "(string \<times> json) list \<Rightarrow> (string \<times> go_any) list" where
  "any_user m = map (\<lambda>(k, v). (k, to_any v)) m"

record go_fmt =
  gf_quote :: "string \<Rightarrow> string"
  gf_float :: "rat \<Rightarrow> string"
  gf_uint32 :: "rat \<Rightarrow> 32 word"

fun type_name :: "go_any \<Rightarrow> string" where
  "type_name ANil = ''<nil>''"
| "type_name (ABool _) = ''bool''"
| "type_name (AString _) = ''string''"
| "type_name (ANumber _) = ''json.Number''"
| "type_name (AFloat _) = ''float64''"
| "type_name (AUint32 _) = ''uint32''"
| "type_name (AUint32s _) = ''[]uint32''"
| "type_name (AStrings _) = ''[]string''"
| "type_name (AList _) = ''[]interface {}''"
| "type_name (AMap _) = ''map[string]interface {}''"
| "type_name (ATyped t _) = t"

fun any_json :: "go_fmt \<Rightarrow> go_any \<Rightarrow> json" where
  "any_json f ANil = JNull"
| "any_json f (ABool b) = JBool b"
| "any_json f (AString s) = JStr s"
| "any_json f (ANumber n) = JNum n"
| "any_json f (AFloat x) = JNum (gf_float f x)"
| "any_json f (AUint32 w) = JNum (itoa (uint w))"
| "any_json f (AUint32s ws) = JArr (map (\<lambda>w. JNum (itoa (uint w))) ws)"
| "any_json f (AStrings ss) = JArr (map JStr ss)"
| "any_json f (AList vs) = JArr (map (any_json f) vs)"
| "any_json f (AMap m) = JObj (map (\<lambda>(k, v). (k, any_json f v)) m)"
| "any_json f (ATyped _ v) = v"

definition getRequiredUserString :: "(string \<times> go_any) list \<Rightarrow> string \<Rightarrow> string + string" where
  "getRequiredUserString user key =
     (case map_of user key of
        None \<Rightarrow> Inl (''missing required user field '' @ dquote # key @ [dquote])
      | Some ANil \<Rightarrow> Inl (''missing required user field '' @ dquote # key @ [dquote])
      | Some (AString s) \<Rightarrow> Inr s
      | Some v \<Rightarrow> Inl (''invalid type for user field '' @ dquote # key @ dquote # '': '' @ type_name v))"

definition getOptionalUserString :: "(string \<times> go_any) list \<Rightarrow> string \<Rightarrow> string + string" where
  "getOptionalUserString user key =
     (case map_of user key of
        None \<Rightarrow> Inr []
      | Some ANil \<Rightarrow> Inr []
      | Some (AString s) \<Rightarrow> Inr s
      | Some v \<Rightarrow> Inl (''invalid type for user field '' @ dquote # key @ dquote # '': '' @ type_name v))"

definition collectStringSlice :: "go_any option \<Rightarrow> string list" where
  "collectStringSlice value =
     (case value of
        Some (AStrings ss) \<Rightarrow> filter (\<lambda>s. s \<noteq> []) ss
      | Some (AList vs) \<Rightarrow> concat (map (\<lambda>v. case v of AString s \<Rightarrow> if s \<noteq> [] then [s] else [] | _ \<Rightarrow> []) vs)
      | _ \<Rightarrow> [])"

text \<open>\<open>json.Marshal\<close> sorts the members, so the later of two spellings of \<open>tag\<close> wins in that order.\<close>

definition reverseTag :: "go_fmt \<Rightarrow> go_any option \<Rightarrow> string" where
  "reverseTag f value =
     (case value of None \<Rightarrow> [] | Some ANil \<Rightarrow> []
      | Some v \<Rightarrow> (case into_struct [(''tag'', into_string)] (canon (any_json f v)) [] of None \<Rightarrow> [] | Some tag \<Rightarrow> tag))"

subsection \<open>Accounts\<close>

datatype ss_cipher = CipherUnknown | AES_128_GCM | AES_256_GCM | CHACHA20_POLY1305 | XCHACHA20_POLY1305

definition shadowsocksCipherType :: "string \<Rightarrow> ss_cipher" where
  "shadowsocksCipherType cipher = (let c = to_lower cipher in
     if c \<in> {''aes-128-gcm'', ''aead_aes_128_gcm''} then AES_128_GCM
     else if c \<in> {''aes-256-gcm'', ''aead_aes_256_gcm''} then AES_256_GCM
     else if c \<in> {''chacha20-poly1305'', ''aead_chacha20_poly1305'', ''chacha20-ietf-poly1305''} then CHACHA20_POLY1305
     else if c \<in> {''xchacha20-poly1305'', ''aead_xchacha20_poly1305'', ''xchacha20-ietf-poly1305''} then XCHACHA20_POLY1305
     else CipherUnknown)"

definition shadowsocks2022Ciphers :: "string list" where
  "shadowsocks2022Ciphers = [''2022-blake3-aes-128-gcm'', ''2022-blake3-aes-256-gcm'', ''2022-blake3-chacha20-poly1305'']"

definition isShadowsocks2022Cipher :: "string \<Rightarrow> bool" where
  "isShadowsocks2022Cipher cipher \<longleftrightarrow> to_lower cipher \<in> set shadowsocks2022Ciphers"

definition shadowsocksCipherName :: "(string \<times> go_any) list \<Rightarrow> string + string" where
  "shadowsocksCipherName user =
     (case getOptionalUserString user ''cipher'' of
        Inl e \<Rightarrow> Inl e
      | Inr cipher \<Rightarrow> if cipher \<noteq> [] then Inr cipher else getOptionalUserString user ''method'')"

definition masqueUserPassword :: "(string \<times> go_any) list \<Rightarrow> string + string" where
  "masqueUserPassword user =
     (case getOptionalUserString user ''pass'' of
        Inl e \<Rightarrow> Inl e
      | Inr pass \<Rightarrow> if pass \<noteq> [] then Inr pass else getRequiredUserString user ''password'')"

record vless_account =
  va_Id :: string
  va_Flow :: string
  va_Reverse :: "string option"
  va_Testseed :: "32 word list"
  va_Testpre :: "32 word"

datatype account = VMess string | VLess vless_account | Trojan string | Shadowsocks2022 string | ShadowsocksAccount string ss_cipher
  | Hysteria string | Masque string | WireguardPeer string string "string list" string

text \<open>Numbers that are not \<open>float64\<close> leave the zero the slice was made with.\<close>

definition vless_testseed :: "go_fmt \<Rightarrow> go_any option \<Rightarrow> 32 word list" where
  "vless_testseed f v =
     (case v of
        Some (AList vs) \<Rightarrow> if 4 \<le> length vs then map (\<lambda>v. case v of AFloat x \<Rightarrow> gf_uint32 f x | _ \<Rightarrow> 0) vs else []
      | Some (AUint32s ws) \<Rightarrow> if 4 \<le> length ws then ws else []
      | _ \<Rightarrow> [])"

definition vless_testpre :: "go_fmt \<Rightarrow> go_any option \<Rightarrow> 32 word" where
  "vless_testpre f v =
     (case v of
        Some (AFloat x) \<Rightarrow> if x > 0 then gf_uint32 f x else 0
      | Some (AUint32 w) \<Rightarrow> if w > 0 then w else 0
      | _ \<Rightarrow> 0)"

definition bind_err :: "'e + 'a \<Rightarrow> ('a \<Rightarrow> 'e + 'b) \<Rightarrow> 'e + 'b" where
  "bind_err m k = (case m of Inl e \<Rightarrow> Inl e | Inr a \<Rightarrow> k a)"

lemma bind_err_simps [simp]: "bind_err (Inl e) k = Inl e" "bind_err (Inr a) k = k a"
  by (simp_all add: bind_err_def)

lemma bind_err_Inr: "bind_err m k = Inr b \<longleftrightarrow> (\<exists>a. m = Inr a \<and> k a = Inr b)"
  by (cases m) simp_all

definition vless_account_of :: "go_fmt \<Rightarrow> (string \<times> go_any) list \<Rightarrow> string + vless_account" where
  "vless_account_of f user =
     bind_err (getRequiredUserString user ''id'') (\<lambda>userID.
     bind_err (getOptionalUserString user ''flow'') (\<lambda>userFlow.
       Inr \<lparr>va_Id = userID, va_Flow = userFlow,
         va_Reverse = (let tag = reverseTag f (map_of user ''reverse'') in if tag \<noteq> [] then Some tag else None),
         va_Testseed = vless_testseed f (map_of user ''testseed''), va_Testpre = vless_testpre f (map_of user ''testpre'')\<rparr>))"

definition shadowsocks_account_of :: "go_fmt \<Rightarrow> (string \<times> go_any) list \<Rightarrow> string + account" where
  "shadowsocks_account_of f user =
     bind_err (shadowsocksCipherName user) (\<lambda>cipher.
     bind_err (getRequiredUserString user ''password'') (\<lambda>password.
       if isShadowsocks2022Cipher cipher then Inr (Shadowsocks2022 password)
       else if shadowsocksCipherType cipher = CipherUnknown then
         Inl (''shadowsocks: unknown cipher '' @ gf_quote f cipher @ '', cannot build an account for the running inbound'')
       else Inr (ShadowsocksAccount password (shadowsocksCipherType cipher))))"

definition prefix_err :: "string \<Rightarrow> string + 'a \<Rightarrow> string + 'a" where
  "prefix_err p m = (case m of Inl e \<Rightarrow> Inl (p @ e) | Inr a \<Rightarrow> Inr a)"

definition wireguard_account_of :: "(string \<times> go_any) list \<Rightarrow> string + account" where
  "wireguard_account_of user =
     bind_err (getRequiredUserString user ''publicKey'') (\<lambda>pubB64.
     bind_err (prefix_err ''wireguard publicKey: '' (KeyToHex pubB64)) (\<lambda>pubHex.
     bind_err (getOptionalUserString user ''preSharedKey'') (\<lambda>pskB64.
     bind_err (prefix_err ''wireguard preSharedKey: '' (KeyToHex pskB64)) (\<lambda>pskHex.
       let allowed = collectStringSlice (map_of user ''allowedIPs'') in
       if allowed = [] then Inl (''wireguard: allowedIPs required'' @ [CHR 0x0A])
       else bind_err (getOptionalUserString user ''keepAlive'') (\<lambda>keepAlive.
         Inr (WireguardPeer pubHex pskHex allowed keepAlive))))))"

definition buildUserAccount :: "go_fmt \<Rightarrow> string \<Rightarrow> (string \<times> go_any) list \<Rightarrow> string + account option" where
  "buildUserAccount f protocolName user =
     (if protocolName = ''vmess'' then bind_err (getRequiredUserString user ''id'') (\<lambda>userID. Inr (Some (VMess userID)))
      else if protocolName = ''vless'' then bind_err (vless_account_of f user) (\<lambda>a. Inr (Some (VLess a)))
      else if protocolName = ''trojan'' then bind_err (getRequiredUserString user ''password'') (\<lambda>p. Inr (Some (Trojan p)))
      else if protocolName = ''shadowsocks'' then bind_err (shadowsocks_account_of f user) (\<lambda>a. Inr (Some a))
      else if protocolName = ''hysteria'' then bind_err (getRequiredUserString user ''auth'') (\<lambda>a. Inr (Some (Hysteria a)))
      else if protocolName = ''masque'' then bind_err (masqueUserPassword user) (\<lambda>p. Inr (Some (Masque p)))
      else if protocolName = ''wireguard'' then bind_err (wireguard_account_of user) (\<lambda>a. Inr (Some a))
      else Inr None)"

subsection \<open>Calls\<close>

text \<open>
  \<open>XrayAPI\<close> without the clients themselves: which are connected, and the values of the statistics last seen.
  A call of the core changes its state \<open>'x\<close> and answers with an error or nil.
\<close>

record XrayAPI =
  xa_HandlerServiceClient :: bool
  xa_StatsServiceClient :: bool
  xa_RoutingServiceClient :: bool
  xa_grpcClient :: bool
  xa_isConnected :: bool
  xa_StatsLastValues :: "(string \<times> int) list"

type_synonym 'x call = "'x \<Rightarrow> string option \<times> 'x"

record ('ib, 'ob, 'rt, 'x) core_rpc =
  rc_load_inbound :: "string \<Rightarrow> string + 'ib"
  rc_load_outbound :: "string \<Rightarrow> string + 'ob"
  rc_load_routing :: "string \<Rightarrow> string + 'rt"
  rc_AddInbound :: "'ib \<Rightarrow> 'x call"
  rc_RemoveInbound :: "string \<Rightarrow> 'x call"
  rc_AddOutbound :: "'ob \<Rightarrow> 'x call"
  rc_RemoveOutbound :: "string \<Rightarrow> 'x call"
  rc_AddUser :: "string \<Rightarrow> string \<Rightarrow> account \<Rightarrow> 'x call"
  rc_RemoveUser :: "string \<Rightarrow> string \<Rightarrow> 'x call"
  rc_AddRule :: "'rt \<Rightarrow> 'x call"

definition no_handler_client :: string where
  "no_handler_client = ''xray HandlerServiceClient is not initialized'' @ [CHR 0x0A]"

definition no_routing_client :: string where
  "no_routing_client = ''xray RoutingServiceClient is not initialized'' @ [CHR 0x0A]"

definition disconnected :: XrayAPI where
  "disconnected = \<lparr>xa_HandlerServiceClient = False, xa_StatsServiceClient = False, xa_RoutingServiceClient = False,
     xa_grpcClient = False, xa_isConnected = False, xa_StatsLastValues = []\<rparr>"

definition api_Init :: "int \<Rightarrow> string option \<Rightarrow> XrayAPI \<Rightarrow> string option \<times> XrayAPI" where
  "api_Init apiPort dial x =
     (if apiPort \<le> 0 \<or> 65535 < apiPort then (Some (''invalid Xray API port: '' @ itoa apiPort), x)
      else case dial of
        Some e \<Rightarrow> (Some (''failed to connect to Xray API: '' @ e), x)
      | None \<Rightarrow> (None, x\<lparr>xa_grpcClient := True, xa_isConnected := True, xa_HandlerServiceClient := True,
          xa_StatsServiceClient := True, xa_RoutingServiceClient := True\<rparr>))"

text \<open>Closing keeps the pointer to the closed connection.\<close>

definition api_Close :: "XrayAPI \<Rightarrow> XrayAPI" where
  "api_Close x = x\<lparr>xa_HandlerServiceClient := False, xa_StatsServiceClient := False, xa_RoutingServiceClient := False,
     xa_isConnected := False\<rparr>"

definition AddInbound :: "('ib, 'ob, 'rt, 'x) core_rpc \<Rightarrow> XrayAPI \<Rightarrow> string \<Rightarrow> 'x call" where
  "AddInbound rpc x inbound st =
     (if \<not> xa_HandlerServiceClient x then (Some no_handler_client, st)
      else case rc_load_inbound rpc inbound of Inl e \<Rightarrow> (Some e, st) | Inr ib \<Rightarrow> rc_AddInbound rpc ib st)"

definition DelInbound :: "('ib, 'ob, 'rt, 'x) core_rpc \<Rightarrow> XrayAPI \<Rightarrow> string \<Rightarrow> 'x call" where
  "DelInbound rpc x tag st =
     (if \<not> xa_HandlerServiceClient x then (Some no_handler_client, st) else rc_RemoveInbound rpc tag st)"

definition AddOutbound :: "('ib, 'ob, 'rt, 'x) core_rpc \<Rightarrow> XrayAPI \<Rightarrow> string \<Rightarrow> 'x call" where
  "AddOutbound rpc x outbound st =
     (if \<not> xa_HandlerServiceClient x then (Some no_handler_client, st)
      else case rc_load_outbound rpc outbound of Inl e \<Rightarrow> (Some e, st) | Inr ob \<Rightarrow> rc_AddOutbound rpc ob st)"

definition DelOutbound :: "('ib, 'ob, 'rt, 'x) core_rpc \<Rightarrow> XrayAPI \<Rightarrow> string \<Rightarrow> 'x call" where
  "DelOutbound rpc x tag st =
     (if \<not> xa_HandlerServiceClient x then (Some no_handler_client, st) else rc_RemoveOutbound rpc tag st)"

definition ApplyRoutingConfig :: "('ib, 'ob, 'rt, 'x) core_rpc \<Rightarrow> XrayAPI \<Rightarrow> string \<Rightarrow> 'x call" where
  "ApplyRoutingConfig rpc x routing st =
     (if \<not> xa_RoutingServiceClient x then (Some no_routing_client, st)
      else case rc_load_routing rpc routing of Inl e \<Rightarrow> (Some e, st) | Inr config \<Rightarrow> rc_AddRule rpc config st)"

definition RemoveUser :: "('ib, 'ob, 'rt, 'x) core_rpc \<Rightarrow> XrayAPI \<Rightarrow> string \<Rightarrow> string \<Rightarrow> 'x call" where
  "RemoveUser rpc x inboundTag email st =
     (if \<not> xa_HandlerServiceClient x then (Some no_handler_client, st)
      else case rc_RemoveUser rpc inboundTag email st of
        (Some e, st) \<Rightarrow> (Some (''failed to remove user: '' @ e), st)
      | (None, st) \<Rightarrow> (None, st))"

definition is_legacy_shadowsocks :: "account \<Rightarrow> bool" where
  "is_legacy_shadowsocks a \<longleftrightarrow> (case a of ShadowsocksAccount _ _ \<Rightarrow> True | _ \<Rightarrow> False)"

definition AddUser :: "go_fmt \<Rightarrow> ('ib, 'ob, 'rt, 'x) core_rpc \<Rightarrow> XrayAPI \<Rightarrow> string \<Rightarrow> string \<Rightarrow> (string \<times> go_any) list \<Rightarrow> 'x call" where
  "AddUser f rpc x protocol inboundTag user st =
     (case getRequiredUserString user ''email'' of
        Inl e \<Rightarrow> (Some e, st)
      | Inr userEmail \<Rightarrow>
          (case buildUserAccount f protocol user of
             Inl e \<Rightarrow> (Some e, st)
           | Inr None \<Rightarrow> (None, st)
           | Inr (Some acc) \<Rightarrow>
               if \<not> xa_HandlerServiceClient x then (Some no_handler_client, st)
               else let st = (if is_legacy_shadowsocks acc then snd (RemoveUser rpc x inboundTag userEmail st) else st) in
                 rc_AddUser rpc inboundTag userEmail acc st))"

subsection \<open>Errors of the core\<close>

definition IsMissingHandlerErr :: "string option \<Rightarrow> bool" where
  "IsMissingHandlerErr err = (case err of None \<Rightarrow> False
     | Some e \<Rightarrow> contains_sub (to_lower e) ''not found'' \<or> contains_sub (to_lower e) ''not enough information'')"

definition IsMissingUserErr :: "string option \<Rightarrow> bool" where
  "IsMissingUserErr err = (case err of None \<Rightarrow> False
     | Some e \<Rightarrow> contains_sub (to_lower e) ''not found'' \<and> \<not> contains_sub (to_lower e) ''failed to get handler'')"

definition IsExistingTagErr :: "string option \<Rightarrow> bool" where
  "IsExistingTagErr err = (case err of None \<Rightarrow> False | Some e \<Rightarrow> contains_sub (to_lower e) ''existing tag'')"

definition IsUserExistsErr :: "string option \<Rightarrow> bool" where
  "IsUserExistsErr err = (case err of None \<Rightarrow> False | Some e \<Rightarrow> contains_sub (to_lower e) ''already exists'')"

text \<open>
  A user whose numbers were decoded as \<open>json.Number\<close>, as the diff decodes them, loses its seeds: the account asks for
  \<open>float64\<close>, so every seed becomes the zero of the fresh slice and the pre-connection count is dropped.
\<close>

lemma json_numbers_lost:
  assumes "map_of user ''testseed'' = Some (JArr (map JNum ns))" "4 \<le> length ns" "map_of user ''testpre'' = Some (JNum n)"
  shows "vless_testseed f (map_of (any_user user) ''testseed'') = replicate (length ns) 0"
    "vless_testpre f (map_of (any_user user) ''testpre'') = 0"
proof -
  have m: "map_of (any_user user) k = map_option to_any (map_of user k)" for k
    unfolding any_user_def by (induction user) auto
  show "vless_testseed f (map_of (any_user user) ''testseed'') = replicate (length ns) 0"
    using assms(1,2) by (simp add: m vless_testseed_def comp_def map_replicate_const)
  show "vless_testpre f (map_of (any_user user) ''testpre'') = 0" using assms(3) by (simp add: m vless_testpre_def)
qed

end
