(* ===== verification/Xray_Stats.thy ===== *)
theory Xray_Stats
  imports Xray_Api
begin

text \<open>
  \<open>internal/xray/api.go\<close>, the statistics: what a poll of the core's counters reports as traffic of tags and of
  clients, against a core that counts, is polled and restarts.

  Counters are not negative, so the difference of two of them never leaves 64 bits.
\<close>

record Traffic =
  tr_IsInbound :: bool
  tr_IsOutbound :: bool
  tr_Tag :: string
  tr_Up :: int
  tr_Down :: int

record ClientTraffic =
  ct_Email :: string
  ct_Up :: int
  ct_Down :: int

subsection \<open>Names of statistics\<close>

text \<open>
  The two regular expressions, matched at the leftmost position. A group \<open>([^>]+)\<close> is followed by \<open>>\<close>, so it is the
  longest text without that character.
\<close>

definition sep :: string where "sep = ''>>>''"

definition direction_of :: "string \<Rightarrow> string option" where
  "direction_of s = (if has_prefix s ''downlink'' then Some ''downlink'' else if has_prefix s ''uplink'' then Some ''uplink'' else None)"

definition subject_at :: "string \<Rightarrow> (string \<times> string) option" where
  "subject_at s = (let name = takeWhile (\<lambda>c. c \<noteq> CHR ''>'') s in
     if name = [] then None
     else case cut_prefix (drop (length name) s) ''>>>traffic>>>'' of
       None \<Rightarrow> None
     | Some r \<Rightarrow> map_option (Pair name) (direction_of r))"

definition traffic_at :: "string \<Rightarrow> (string \<times> string \<times> string) option" where
  "traffic_at s = (case cut_prefix s ''inbound>>>'' of
     Some r \<Rightarrow> map_option (Pair ''inbound'') (subject_at r)
   | None \<Rightarrow> (case cut_prefix s ''outbound>>>'' of
       Some r \<Rightarrow> map_option (Pair ''outbound'') (subject_at r) | None \<Rightarrow> None))"

definition client_at :: "string \<Rightarrow> (string \<times> string) option" where
  "client_at s = (case cut_prefix s ''user>>>'' of Some r \<Rightarrow> subject_at r | None \<Rightarrow> None)"

fun leftmost :: "(string \<Rightarrow> 'a option) \<Rightarrow> string \<Rightarrow> 'a option" where
  "leftmost f [] = f []"
| "leftmost f (c # s) = (case f (c # s) of Some m \<Rightarrow> Some m | None \<Rightarrow> leftmost f s)"

definition trafficRegex :: "string \<Rightarrow> (string \<times> string \<times> string) option" where
  "trafficRegex = leftmost traffic_at"

definition clientTrafficRegex :: "string \<Rightarrow> (string \<times> string) option" where
  "clientTrafficRegex = leftmost client_at"

subsection \<open>A poll\<close>

definition processTraffic :: "string \<times> string \<times> string \<Rightarrow> int \<Rightarrow> (string \<times> Traffic) list \<Rightarrow> (string \<times> Traffic) list" where
  "processTraffic matches value trafficMap =
     (case matches of (kind, tag, dir) \<Rightarrow>
        if tag = ''api'' then trafficMap
        else
          (let isInbound = kind = ''inbound'';
               traffic = (case map_of trafficMap tag of Some t \<Rightarrow> t
                 | None \<Rightarrow> \<lparr>tr_IsInbound = isInbound, tr_IsOutbound = \<not> isInbound, tr_Tag = tag, tr_Up = 0, tr_Down = 0\<rparr>) in
           AList.update tag (if dir = ''downlink'' then traffic\<lparr>tr_Down := value\<rparr> else traffic\<lparr>tr_Up := value\<rparr>) trafficMap))"

definition processClientTraffic :: "string \<times> string \<Rightarrow> int \<Rightarrow> (string \<times> ClientTraffic) list \<Rightarrow> (string \<times> ClientTraffic) list" where
  "processClientTraffic matches value clientTrafficMap =
     (case matches of (email, dir) \<Rightarrow>
        (let traffic = (case map_of clientTrafficMap email of Some t \<Rightarrow> t | None \<Rightarrow> \<lparr>ct_Email = email, ct_Up = 0, ct_Down = 0\<rparr>) in
         AList.update email (if dir = ''downlink'' then traffic\<lparr>ct_Down := value\<rparr> else traffic\<lparr>ct_Up := value\<rparr>) clientTrafficMap))"

text \<open>One round of the loop over the statistics: the last values and the two maps.\<close>

type_synonym poll_maps = "(string \<times> int) list \<times> (string \<times> Traffic) list \<times> (string \<times> ClientTraffic) list"

definition stat_delta :: "int option \<Rightarrow> int \<Rightarrow> int" where
  "stat_delta seen v = (let lastValue = (case seen of None \<Rightarrow> 0 | Some l \<Rightarrow> if v < l then 0 else l) in v - lastValue)"

definition poll_stat :: "bool \<Rightarrow> string \<times> int \<Rightarrow> poll_maps \<Rightarrow> poll_maps" where
  "poll_stat baselinePass = (\<lambda>(n, v) (lasts, tags, emails).
     let seen = map_of lasts n; lasts = AList.update n v lasts in
     if baselinePass then (lasts, tags, emails)
     else let value = stat_delta seen v in
       case trafficRegex n of
         Some m \<Rightarrow> (lasts, processTraffic m value tags, emails)
       | None \<Rightarrow> (case clientTrafficRegex n of
           Some m \<Rightarrow> (lasts, tags, processClientTraffic m value emails)
         | None \<Rightarrow> (lasts, tags, emails)))"

definition prune_stats :: "(string \<times> int) list \<Rightarrow> (string \<times> int) list \<Rightarrow> (string \<times> int) list" where
  "prune_stats stats lasts =
     (if 0 < length stats \<and> 2 * length stats < length lasts
      then fold (\<lambda>(n, _) pruned. AList.update n (case map_of lasts n of Some v \<Rightarrow> v | None \<Rightarrow> 0) pruned) stats []
      else lasts)"

text \<open>\<open>query\<close> is the answer of \<open>QueryStats\<close>: an error or the statistics.\<close>

definition GetTraffic :: "string + (string \<times> int) list \<Rightarrow> XrayAPI \<Rightarrow> (string + (Traffic list \<times> ClientTraffic list)) \<times> XrayAPI" where
  "GetTraffic query x =
     (if \<not> xa_grpcClient x then (Inl (''xray api is not initialized'' @ [CHR 0x0A]), x)
      else if \<not> xa_StatsServiceClient x then (Inl (''xray StatusServiceClient is not initialized'' @ [CHR 0x0A]), x)
      else case query of
        Inl e \<Rightarrow> (Inl e, x)
      | Inr stats \<Rightarrow>
          (case fold (poll_stat (xa_StatsLastValues x = [])) stats (xa_StatsLastValues x, [], []) of
             (lasts, tags, emails) \<Rightarrow>
               (Inr (map snd tags, map snd emails), x\<lparr>xa_StatsLastValues := prune_stats stats lasts\<rparr>)))"

subsection \<open>Names the core uses\<close>

definition plain :: "string \<Rightarrow> bool" where
  "plain s \<longleftrightarrow> s \<noteq> [] \<and> CHR ''>'' \<notin> set s"

datatype subject = Inbound string | Outbound string | Client string

definition stat_name :: "subject \<Rightarrow> bool \<Rightarrow> string" where
  "stat_name s down = (case s of Inbound t \<Rightarrow> ''inbound>>>'' @ t | Outbound t \<Rightarrow> ''outbound>>>'' @ t | Client e \<Rightarrow> ''user>>>'' @ e) @
     ''>>>traffic>>>'' @ (if down then ''downlink'' else ''uplink'')"

lemma has_prefix_append [simp]: "has_prefix (p @ s) p"
  by (simp add: has_prefix_def)

lemma cut_prefix_append [simp]: "cut_prefix (p @ s) p = Some s"
  by simp

lemma cut_prefix_None: "cut_prefix s p = None \<longleftrightarrow> \<not> has_prefix s p"
  by (simp add: cut_prefix_def)

lemma direction_simps [simp]: "direction_of ''downlink'' = Some ''downlink''" "direction_of ''uplink'' = Some ''uplink''"
  by (simp_all add: direction_of_def has_prefix_def)

lemma subject_at_name:
  "plain n \<Longrightarrow> subject_at (n @ ''>>>traffic>>>'' @ (if down then ''downlink'' else ''uplink''))
     = Some (n, if down then ''downlink'' else ''uplink'')"
proof -
  assume n: "plain n"
  let ?r = "''>>>traffic>>>'' @ (if down then ''downlink'' else ''uplink'')"
  have t: "takeWhile (\<lambda>c. c \<noteq> CHR ''>'') (n @ ?r) = n" using n by (auto simp: plain_def takeWhile_append)
  have c: "cut_prefix ?r ''>>>traffic>>>'' = Some (if down then ''downlink'' else ''uplink'')" by (simp only: cut_prefix_Some)
  show ?thesis using n unfolding subject_at_def t Let_def by (simp add: c plain_def del: append_Cons)
qed


lemma leftmost_None: "leftmost f s = None \<longleftrightarrow> (\<forall>p t. s = p @ t \<longrightarrow> f t = None)"
proof (induction s)
  case (Cons c s)
  have "(\<forall>p t. c # s = p @ t \<longrightarrow> f t = None) \<longleftrightarrow> f (c # s) = None \<and> (\<forall>p t. s = p @ t \<longrightarrow> f t = None)"
    by (auto simp: Cons_eq_append_conv)
  then show ?case using Cons by (auto split: option.split)
qed simp

lemma leftmost_first: "f s = Some m \<Longrightarrow> leftmost f s = Some m"
  by (cases s) simp_all

definition marks :: "string \<Rightarrow> nat" where
  "marks s = length (filter (\<lambda>c. c = CHR ''>'') s)"

lemma marks_append [simp]: "marks (a @ b) = marks a + marks b"
  by (simp add: marks_def)

lemma marks_Cons [simp]: "marks (c # s) = (if c = CHR ''>'' then Suc (marks s) else marks s)"
  by (simp add: marks_def)

lemma marks_Nil [simp]: "marks [] = 0"
  by (simp add: marks_def)

lemma marks_0: "marks s = 0 \<longleftrightarrow> CHR ''>'' \<notin> set s"
  by (induction s) auto

lemma subject_at_marks: "subject_at r = Some m \<Longrightarrow> 6 \<le> marks r"
proof -
  assume m: "subject_at r = Some m"
  let ?n = "takeWhile (\<lambda>c. c \<noteq> CHR ''>'') r"
  obtain q where "cut_prefix (drop (length ?n) r) ''>>>traffic>>>'' = Some q"
    using m by (auto simp: subject_at_def Let_def split: if_splits option.splits)
  then have "drop (length ?n) r = ''>>>traffic>>>'' @ q" by (simp only: cut_prefix_Some)
  then have "marks (drop (length ?n) r) = marks (''>>>traffic>>>'' @ q)" by (rule arg_cong)
  moreover have "marks r = marks (take (length ?n) r) + marks (drop (length ?n) r)" by (metis append_take_drop_id marks_append)
  ultimately show ?thesis by simp
qed

lemma traffic_at_shape:
  assumes "traffic_at t = Some m"
  shows "9 \<le> marks t" "takeWhile (\<lambda>c. c \<noteq> CHR ''>'') t \<in> {''inbound'', ''outbound''}"
proof -
  have "(\<exists>r. t = ''inbound>>>'' @ r \<and> subject_at r \<noteq> None) \<or> (\<exists>r. t = ''outbound>>>'' @ r \<and> subject_at r \<noteq> None)"
    using assms by (auto simp: traffic_at_def split: option.splits)
  then have "9 \<le> marks t \<and> takeWhile (\<lambda>c. c \<noteq> CHR ''>'') t \<in> {''inbound'', ''outbound''}"
    using subject_at_marks by fastforce
  then show "9 \<le> marks t" "takeWhile (\<lambda>c. c \<noteq> CHR ''>'') t \<in> {''inbound'', ''outbound''}" by blast+
qed

abbreviation dir_name :: "bool \<Rightarrow> string" where
  "dir_name down \<equiv> (if down then ''downlink'' else ''uplink'')"

lemma regex_inbound: "plain t \<Longrightarrow> trafficRegex (stat_name (Inbound t) down) = Some (''inbound'', t, dir_name down)"
  using subject_at_name [of t down] unfolding trafficRegex_def stat_name_def
  by (intro leftmost_first) (simp add: traffic_at_def cut_prefix_def has_prefix_def del: if_split)

lemma regex_outbound: "plain t \<Longrightarrow> trafficRegex (stat_name (Outbound t) down) = Some (''outbound'', t, dir_name down)"
  using subject_at_name [of t down] unfolding trafficRegex_def stat_name_def
  by (intro leftmost_first) (simp add: traffic_at_def cut_prefix_def has_prefix_def del: if_split)

lemma regex_client:
  assumes "plain e"
  shows "clientTrafficRegex (stat_name (Client e) down) = Some (e, dir_name down)" "trafficRegex (stat_name (Client e) down) = None"
proof -
  show "clientTrafficRegex (stat_name (Client e) down) = Some (e, dir_name down)"
    using subject_at_name [OF assms, of down] unfolding clientTrafficRegex_def stat_name_def
    by (intro leftmost_first) (simp add: client_at_def cut_prefix_def has_prefix_def del: if_split)
  have "traffic_at t = None" if t: "stat_name (Client e) down = p @ t" for p t
  proof (rule ccontr)
    assume "traffic_at t \<noteq> None"
    then obtain m where m: "traffic_at t = Some m" by blast
    have e: "marks e = 0" using assms by (simp add: plain_def marks_0)
    have "marks (stat_name (Client e) down) = 9" using e by (simp add: stat_name_def)
    then have "marks p = 0" using traffic_at_shape(1) [OF m] unfolding t by simp
    then have "takeWhile (\<lambda>c. c \<noteq> CHR ''>'') (p @ t) = p @ takeWhile (\<lambda>c. c \<noteq> CHR ''>'') t"
      by (intro takeWhile_append2) (auto simp: marks_0)
    then have "''user'' = p @ takeWhile (\<lambda>c. c \<noteq> CHR ''>'') t" unfolding t [symmetric] by (simp add: stat_name_def)
    then show False using traffic_at_shape(2) [OF m] by (auto simp: append_eq_Cons_conv Cons_eq_append_conv)
  qed
  then show "trafficRegex (stat_name (Client e) down) = None" by (simp add: trafficRegex_def leftmost_None)
qed

subsection \<open>A core that is polled\<close>

fun plain_subject :: "subject \<Rightarrow> bool" where
  "plain_subject (Inbound t) = plain t"
| "plain_subject (Outbound t) = plain t"
| "plain_subject (Client e) = plain e"

lemma stat_name_inject:
  "plain_subject s \<Longrightarrow> plain_subject s' \<Longrightarrow> stat_name s d = stat_name s' d' \<longleftrightarrow> s = s' \<and> d = d'"
proof
  assume "plain_subject s" "plain_subject s'" "stat_name s d = stat_name s' d'"
  then have "trafficRegex (stat_name s d) = trafficRegex (stat_name s' d')" "clientTrafficRegex (stat_name s d) = clientTrafficRegex (stat_name s' d')"
    "plain_subject s" "plain_subject s'" by simp_all
  then show "s = s' \<and> d = d'"
    by (cases s; cases s'; cases d; cases d') (simp_all add: regex_inbound regex_outbound regex_client)
qed simp

text \<open>The core counts bytes, restarts with no counters, and is polled.\<close>

record stats_run =
  sr_core :: "((subject \<times> bool) \<times> int) list"
  sr_api :: XrayAPI
  sr_relayed :: "string \<Rightarrow> bool \<Rightarrow> int"
  sr_reported :: "string \<Rightarrow> bool \<Rightarrow> int"

datatype stats_event = Counted subject bool int | CoreRestart | Poll

definition response :: "((subject \<times> bool) \<times> int) list \<Rightarrow> (string \<times> int) list" where
  "response core = map (\<lambda>((s, d), v). (stat_name s d, v)) core"

definition amount :: "ClientTraffic list \<Rightarrow> string \<Rightarrow> bool \<Rightarrow> int" where
  "amount cs e down = sum_list (map (\<lambda>c. if down then ct_Down c else ct_Up c) (filter (\<lambda>c. ct_Email c = e) cs))"

definition poll :: "stats_run \<Rightarrow> stats_run" where
  "poll r = (case GetTraffic (Inr (response (sr_core r))) (sr_api r) of
     (Inl _, x) \<Rightarrow> r\<lparr>sr_api := x\<rparr>
   | (Inr (_, clients), x) \<Rightarrow> r\<lparr>sr_api := x, sr_reported := (\<lambda>e d. sr_reported r e d + amount clients e d)\<rparr>)"

fun stats_step :: "stats_event \<Rightarrow> stats_run \<Rightarrow> stats_run" where
  "stats_step (Counted s d b) r = r\<lparr>
     sr_core := AList.update (s, d) ((case map_of (sr_core r) (s, d) of None \<Rightarrow> 0 | Some v \<Rightarrow> v) + b) (sr_core r),
     sr_relayed := (\<lambda>e d'. sr_relayed r e d' + (if s = Client e \<and> d' = d then b else 0))\<rparr>"
| "stats_step CoreRestart r = r\<lparr>sr_core := []\<rparr>"
| "stats_step Poll r = poll r"

definition stats_events :: "stats_event list \<Rightarrow> stats_run \<Rightarrow> stats_run" where
  "stats_events = fold stats_step"

text \<open>The state after the first poll of a connected client, which finds counters and takes them as the baseline.\<close>

definition stats_start :: "XrayAPI \<Rightarrow> ((subject \<times> bool) \<times> int) list \<Rightarrow> stats_run" where
  "stats_start x core = poll \<lparr>sr_core = core, sr_api = x\<lparr>xa_StatsLastValues := []\<rparr>, sr_relayed = (\<lambda>_ _. 0), sr_reported = (\<lambda>_ _. 0)\<rparr>"

definition core_ok :: "((subject \<times> bool) \<times> int) list \<Rightarrow> bool" where
  "core_ok core \<longleftrightarrow> wf_map core \<and> (\<forall>((s, d), v) \<in> set core. plain_subject s \<and> 0 \<le> v)"

definition event_ok :: "stats_event \<Rightarrow> bool" where
  "event_ok ev \<longleftrightarrow> (case ev of Counted s d b \<Rightarrow> plain_subject s \<and> 0 \<le> b | _ \<Rightarrow> True)"

subsection \<open>What a poll reports\<close>

definition entry :: "(string \<times> ClientTraffic) list \<Rightarrow> string \<Rightarrow> bool \<Rightarrow> int" where
  "entry emails e down = (case map_of emails e of None \<Rightarrow> 0 | Some c \<Rightarrow> if down then ct_Down c else ct_Up c)"

definition emails_ok :: "(string \<times> ClientTraffic) list \<Rightarrow> bool" where
  "emails_ok emails \<longleftrightarrow> wf_map emails \<and> (\<forall>(e, c) \<in> set emails. ct_Email c = e)"

definition good_stats :: "(string \<times> int) list \<Rightarrow> bool" where
  "good_stats stats \<longleftrightarrow> distinct (map fst stats) \<and> (\<forall>(n, v) \<in> set stats. \<exists>s d. plain_subject s \<and> n = stat_name s d)"

definition put_dir :: "bool \<Rightarrow> int \<Rightarrow> ClientTraffic \<Rightarrow> ClientTraffic" where
  "put_dir down v c = (if down then c\<lparr>ct_Down := v\<rparr> else c\<lparr>ct_Up := v\<rparr>)"

lemma processClientTraffic_put:
  "processClientTraffic (e, dir_name down) v emails = AList.update e
     (put_dir down v (case map_of emails e of Some t \<Rightarrow> t | None \<Rightarrow> \<lparr>ct_Email = e, ct_Up = 0, ct_Down = 0\<rparr>)) emails"
  by (cases down) (simp_all add: processClientTraffic_def put_dir_def Let_def)

lemma entry_update:
  "entry (processClientTraffic (e, dir_name down) v emails) e' down' = (if e' = e \<and> down' = down then v else entry emails e' down')"
  unfolding processClientTraffic_put
  by (cases "e' = e"; cases "map_of emails e"; cases down; cases down') (simp_all add: entry_def put_dir_def)

lemma emails_ok_update: "emails_ok emails \<Longrightarrow> emails_ok (processClientTraffic (e, dir_name down) v emails)"
proof -
  assume ok: "emails_ok emails"
  let ?c = "put_dir down v (case map_of emails e of Some t \<Rightarrow> t | None \<Rightarrow> \<lparr>ct_Email = e, ct_Up = 0, ct_Down = 0\<rparr>)"
  have "ct_Email ?c = e"
    using ok by (cases "map_of emails e"; cases down) (auto simp: put_dir_def emails_ok_def dest: map_of_SomeD)
  then show ?thesis using ok unfolding processClientTraffic_put by (auto simp: emails_ok_def set_update_wf)
qed

lemma amount_entry:
  assumes "emails_ok emails"
  shows "amount (map snd emails) e down = entry emails e down"
  using assms
proof (induction emails)
  case (Cons a emails)
  obtain k c where a: "a = (k, c)" by force
  have ok: "emails_ok emails" "ct_Email c = k" and new: "map_of emails k = None"
    using Cons.prems a by (auto simp: emails_ok_def wf_map_def map_of_None_fst)
  have "amount (map snd emails) e down = entry emails e down" by (rule Cons.IH [OF ok(1)])
  moreover have "entry emails k down = 0" using new by (simp add: entry_def)
  moreover have "amount (map snd (a # emails)) e down = (if k = e then if down then ct_Down c else ct_Up c else 0) + amount (map snd emails) e down"
    using ok(2) a by (simp add: amount_def)
  moreover have "entry (a # emails) e down = (if k = e then if down then ct_Down c else ct_Up c else entry emails e down)"
    using a by (simp add: entry_def)
  ultimately show ?case by auto
qed (simp add: entry_def amount_def)

lemma poll_fold:
  assumes "fold (poll_stat False) stats (l0, t0, e0) = (l1, t1, e1)" "good_stats stats" "emails_ok e0" "wf_map l0"
  shows "wf_map l1 \<and> emails_ok e1
    \<and> (\<forall>n. map_of l1 n = (case map_of stats n of Some v \<Rightarrow> Some v | None \<Rightarrow> map_of l0 n))
    \<and> (\<forall>e d. plain e \<longrightarrow> entry e1 e d = (case map_of stats (stat_name (Client e) d) of
         Some v \<Rightarrow> stat_delta (map_of l0 (stat_name (Client e) d)) v | None \<Rightarrow> entry e0 e d))"
  using assms
proof (induction stats arbitrary: l0 t0 e0)
  case (Cons a stats)
  obtain n v where a: "a = (n, v)" by force
  obtain s d where n: "plain_subject s" "n = stat_name s d" using Cons.prems(2) a by (auto simp: good_stats_def)
  have fresh: "map_of stats n = None" and good: "good_stats stats" using Cons.prems(2) a by (auto simp: good_stats_def map_of_None_fst)
  obtain l t em where st: "poll_stat False a (l0, t0, e0) = (l, t, em)" by (metis prod_cases3)
  have l: "l = AList.update n v l0"
    and em: "em = (case s of Client e \<Rightarrow> processClientTraffic (e, dir_name d) (stat_delta (map_of l0 n) v) e0 | _ \<Rightarrow> e0)"
    using st n by (cases s; simp add: a poll_stat_def Let_def regex_inbound regex_outbound regex_client)+
  have "emails_ok em" unfolding em using Cons.prems(3) by (cases s) (simp_all add: emails_ok_update)
  moreover have "wf_map l" using l Cons.prems(4) by simp
  ultimately have IH: "wf_map l1" "emails_ok e1"
    "\<And>m. map_of l1 m = (case map_of stats m of Some v \<Rightarrow> Some v | None \<Rightarrow> map_of l m)"
    "\<And>e d. plain e \<Longrightarrow> entry e1 e d = (case map_of stats (stat_name (Client e) d) of
         Some v \<Rightarrow> stat_delta (map_of l (stat_name (Client e) d)) v | None \<Rightarrow> entry em e d)"
    using Cons.IH [OF _ good, of l t em] Cons.prems(1) st by auto
  have "entry e1 e d' = (case map_of (a # stats) (stat_name (Client e) d') of
         Some v \<Rightarrow> stat_delta (map_of l0 (stat_name (Client e) d')) v | None \<Rightarrow> entry e0 e d')" if e: "plain e" for e d'
  proof (cases "s = Client e \<and> d' = d")
    case True
    then show ?thesis using IH(4) [OF e, of d'] fresh n by (simp add: a em entry_update)
  next
    case False
    then have "stat_name (Client e) d' \<noteq> n" using stat_name_inject [of "Client e" s d' d] n e by auto
    moreover have "entry em e d' = entry e0 e d'"
    proof (cases s)
      case (Client x)
      then have "\<not> (e = x \<and> d' = d)" using False by blast
      then show ?thesis unfolding em Client subject.case entry_update by (simp only: if_False)
    qed (simp_all add: em)
    ultimately show ?thesis using IH(4) [OF e, of d'] by (simp add: a l split: option.split)
  qed
  then show ?case using IH(1-3) fresh by (auto simp: a l split: option.split)
qed simp


subsection \<open>Reported and relayed bytes\<close>

lemma good_response:
  assumes "core_ok core"
  shows "good_stats (response core)" "plain_subject s \<Longrightarrow> map_of (response core) (stat_name s d) = map_of core (s, d)"
    "map_of (response core) n = Some v \<Longrightarrow> 0 \<le> v"
proof -
  have pl: "plain_subject (fst k)" if "k \<in> fst ` set core" for k using assms that by (auto simp: core_ok_def)
  have inj: "inj_on (\<lambda>(s, d). stat_name s d) (fst ` set core)"
  proof (rule inj_onI)
    fix k k' assume k: "k \<in> fst ` set core" "k' \<in> fst ` set core" and eq: "(\<lambda>(s, d). stat_name s d) k = (\<lambda>(s, d). stat_name s d) k'"
    show "k = k'" using stat_name_inject [OF pl [OF k(1)] pl [OF k(2)], of "snd k" "snd k'"] eq by (simp add: split_beta prod_eq_iff)
  qed
  have "map fst (response core) = map (\<lambda>(s, d). stat_name s d) (map fst core)" by (simp add: response_def split_beta)
  then have "distinct (map fst (response core))" using assms inj by (simp only: core_ok_def wf_map_def distinct_map [of _ "map fst core"] set_map)
  moreover have "\<exists>s d. plain_subject s \<and> n = stat_name s d" if nv: "(n, v) \<in> set (response core)" for n v
  proof -
    obtain s d where "((s, d), v) \<in> set core" "n = stat_name s d" using nv by (auto simp: response_def)
    then show ?thesis using assms by (auto simp: core_ok_def)
  qed
  ultimately show "good_stats (response core)" by (auto simp: good_stats_def)
  show "map_of (response core) (stat_name s d) = map_of core (s, d)" if "plain_subject s"
    using assms that unfolding core_ok_def response_def
    by (induction core) (auto simp: wf_map_def stat_name_inject)
  show "0 \<le> v" if "map_of (response core) n = Some v"
    using map_of_SomeD [OF that] assms by (auto simp: response_def core_ok_def)
qed

lemma prune_fold:
  assumes "\<And>n v. (n, v) \<in> set stats \<Longrightarrow> map_of lasts n = Some v" "distinct (map fst (p0 @ stats))"
  shows "fold (\<lambda>(n, _) pruned. AList.update n (case map_of lasts n of Some v \<Rightarrow> v | None \<Rightarrow> 0) pruned) stats p0 = p0 @ stats"
  using assms
proof (induction stats arbitrary: p0)
  case (Cons a stats)
  obtain n v where a: "a = (n, v)" by force
  have l: "map_of lasts n = Some v" "map_of p0 n = None" using Cons.prems a by (auto simp: map_of_None_fst)
  have "fold (\<lambda>(n, _) pruned. AList.update n (case map_of lasts n of Some v \<Rightarrow> v | None \<Rightarrow> 0) pruned) stats (p0 @ [a]) = (p0 @ [a]) @ stats"
    using Cons.prems by (intro Cons.IH) simp_all
  then show ?case by (simp add: a update_new l)
qed simp

lemma prune_stats:
  assumes "good_stats stats" "wf_map lasts" "\<And>n v. map_of stats n = Some v \<Longrightarrow> map_of lasts n = Some v"
  shows "map_of (prune_stats stats lasts) = map_of lasts \<or> map_of (prune_stats stats lasts) = map_of stats"
    "wf_map (prune_stats stats lasts)" "stats \<noteq> [] \<Longrightarrow> prune_stats stats lasts \<noteq> []" "lasts \<noteq> [] \<Longrightarrow> prune_stats stats lasts \<noteq> []"
proof -
  have w: "wf_map stats" using assms(1) by (simp add: good_stats_def wf_map_def)
  then have "fold (\<lambda>(n, _) pruned. AList.update n (case map_of lasts n of Some v \<Rightarrow> v | None \<Rightarrow> 0) pruned) stats [] = stats"
    using prune_fold [of stats lasts "[]"] assms(3) map_of_wf [OF w] by (simp add: wf_map_def)
  then have "prune_stats stats lasts = (if 0 < length stats \<and> 2 * length stats < length lasts then stats else lasts)" by (simp add: prune_stats_def)
  moreover have "lasts \<noteq> []" if ne: "stats \<noteq> []"
  proof -
    obtain n v st where "stats = (n, v) # st" using ne by (cases stats) auto
    then show ?thesis using assms(3) [of n v] by auto
  qed
  ultimately show "map_of (prune_stats stats lasts) = map_of lasts \<or> map_of (prune_stats stats lasts) = map_of stats"
    "wf_map (prune_stats stats lasts)" "stats \<noteq> [] \<Longrightarrow> prune_stats stats lasts \<noteq> []" "lasts \<noteq> [] \<Longrightarrow> prune_stats stats lasts \<noteq> []"
    using assms(2) w by auto
qed

definition connected :: "XrayAPI \<Rightarrow> bool" where
  "connected x \<longleftrightarrow> xa_grpcClient x \<and> xa_StatsServiceClient x"

text \<open>What the next poll would report for a counter.\<close>

definition unpolled :: "stats_run \<Rightarrow> string \<Rightarrow> bool \<Rightarrow> int" where
  "unpolled r e d = (case map_of (sr_core r) (Client e, d) of
     None \<Rightarrow> 0 | Some v \<Rightarrow> stat_delta (map_of (xa_StatsLastValues (sr_api r)) (stat_name (Client e) d)) v)"

definition stats_inv :: "stats_run \<Rightarrow> bool" where
  "stats_inv r \<longleftrightarrow> core_ok (sr_core r) \<and> connected (sr_api r) \<and> xa_StatsLastValues (sr_api r) \<noteq> []
     \<and> wf_map (xa_StatsLastValues (sr_api r)) \<and> (\<forall>n v. map_of (xa_StatsLastValues (sr_api r)) n = Some v \<longrightarrow> 0 \<le> v)"

lemma poll_effect:
  assumes "stats_inv r"
  shows "stats_inv (poll r)" "sr_core (poll r) = sr_core r" "sr_relayed (poll r) = sr_relayed r"
    "plain e \<Longrightarrow> sr_reported (poll r) e d = sr_reported r e d + unpolled r e d"
    "plain e \<Longrightarrow> unpolled (poll r) e d = 0"
    "map_of (xa_StatsLastValues (sr_api (poll r))) n = Some v \<Longrightarrow>
       map_of (response (sr_core r)) n = Some v \<or> map_of (response (sr_core r)) n = None \<and> map_of (xa_StatsLastValues (sr_api r)) n = Some v"
proof -
  let ?x = "sr_api r" and ?st = "response (sr_core r)"
  let ?l0 = "xa_StatsLastValues ?x"
  have ok: "core_ok (sr_core r)" using assms by (simp add: stats_inv_def)
  note good = good_response [OF ok]
  obtain l1 t1 e1 where f: "fold (poll_stat False) ?st (?l0, [], []) = (l1, t1, e1)" by (metis prod_cases3)
  have p: "poll r = r\<lparr>sr_api := ?x\<lparr>xa_StatsLastValues := prune_stats ?st l1\<rparr>, sr_reported := (\<lambda>e d. sr_reported r e d + amount (map snd e1) e d)\<rparr>"
    using assms f by (simp add: poll_def GetTraffic_def stats_inv_def connected_def)
  have w: "wf_map l1" and em: "emails_ok e1" and l1: "\<And>n. map_of l1 n = (case map_of ?st n of Some v \<Rightarrow> Some v | None \<Rightarrow> map_of ?l0 n)"
    and en: "\<And>e d. plain e \<Longrightarrow> entry e1 e d = (case map_of ?st (stat_name (Client e) d) of
         Some v \<Rightarrow> stat_delta (map_of ?l0 (stat_name (Client e) d)) v | None \<Rightarrow> entry [] e d)"
    using poll_fold [OF f good(1)] assms by (auto simp: stats_inv_def emails_ok_def)
  have pr: "map_of (prune_stats ?st l1) = map_of l1 \<or> map_of (prune_stats ?st l1) = map_of ?st" "wf_map (prune_stats ?st l1)"
    "l1 \<noteq> [] \<Longrightarrow> prune_stats ?st l1 \<noteq> []"
    using prune_stats [OF good(1) w] l1 by auto
  have "l1 \<noteq> []"
  proof -
    obtain n v l where "?l0 = (n, v) # l" using assms by (cases ?l0) (auto simp: stats_inv_def)
    then have "map_of l1 n \<noteq> None" using l1 [of n] by (auto split: option.split)
    then show ?thesis by auto
  qed
  then have ne: "prune_stats ?st l1 \<noteq> []" by (rule pr(3))
  have last: "map_of ?st n = Some v \<or> map_of ?st n = None \<and> map_of ?l0 n = Some v"
    if "map_of (prune_stats ?st l1) n = Some v" for n v
    using pr(1) that l1 [of n] by (auto split: option.splits)
  then show "map_of ?st n = Some v \<or> map_of ?st n = None \<and> map_of ?l0 n = Some v"
    if "map_of (xa_StatsLastValues (sr_api (poll r))) n = Some v"
    using that by (simp add: p)
  show "sr_core (poll r) = sr_core r" "sr_relayed (poll r) = sr_relayed r" by (simp_all add: p)
  have "0 \<le> v" if "map_of (prune_stats ?st l1) n = Some v" for n v
    using last [OF that] good(3) assms by (auto simp: stats_inv_def)
  then show "stats_inv (poll r)" using assms ne pr(2) by (simp add: p stats_inv_def connected_def)
  show "sr_reported (poll r) e d = sr_reported r e d + unpolled r e d" if e: "plain e"
    using en [OF e, of d] good(2) [of "Client e" d] e
    by (simp add: p unpolled_def amount_entry [OF em] entry_def split: option.split)
  show "unpolled (poll r) e d = 0" if e: "plain e"
    using pr(1) l1 [of "stat_name (Client e) d"] good(2) [of "Client e" d] e
    by (auto simp: p unpolled_def stat_delta_def split: option.splits)
qed


lemma counted_effect:
  assumes "stats_inv r" "plain_subject s" "0 \<le> b"
  shows "stats_inv (stats_step (Counted s d b) r)"
    and "plain e \<Longrightarrow> unpolled (stats_step (Counted s d b) r) e d' \<le> unpolled r e d' + (if s = Client e \<and> d' = d then b else 0)"
    and "\<forall>l v. map_of (xa_StatsLastValues (sr_api r)) (stat_name (Client e) d') = Some l \<longrightarrow>
        map_of (sr_core r) (Client e, d') = Some v \<longrightarrow> l \<le> v \<Longrightarrow>
      map_of (xa_StatsLastValues (sr_api r)) (stat_name (Client e) d') = None \<or> map_of (sr_core r) (Client e, d') \<noteq> None \<Longrightarrow>
      unpolled (stats_step (Counted s d b) r) e d' = unpolled r e d' + (if s = Client e \<and> d' = d then b else 0)"
proof -
  have ok: "core_ok (sr_core r)" and l: "\<And>n v. map_of (xa_StatsLastValues (sr_api r)) n = Some v \<Longrightarrow> 0 \<le> v"
    using assms(1) by (auto simp: stats_inv_def)
  have nn: "0 \<le> v" if "map_of (sr_core r) k = Some v" for k v using map_of_SomeD [OF that] ok by (cases k) (auto simp: core_ok_def)
  have "core_ok (sr_core (stats_step (Counted s d b) r))"
    using ok assms(2,3) nn by (auto simp: core_ok_def set_update_wf split: option.splits)
  then show "stats_inv (stats_step (Counted s d b) r)" using assms(1) by (simp add: stats_inv_def)
  show "unpolled (stats_step (Counted s d b) r) e d' \<le> unpolled r e d' + (if s = Client e \<and> d' = d then b else 0)"
    using l [of "stat_name (Client e) d'"] nn [of "(Client e, d')"] assms(3) by (auto simp: unpolled_def stat_delta_def split: option.splits)
  show "unpolled (stats_step (Counted s d b) r) e d' = unpolled r e d' + (if s = Client e \<and> d' = d then b else 0)"
    if "\<forall>l v. map_of (xa_StatsLastValues (sr_api r)) (stat_name (Client e) d') = Some l \<longrightarrow>
        map_of (sr_core r) (Client e, d') = Some v \<longrightarrow> l \<le> v"
      "map_of (xa_StatsLastValues (sr_api r)) (stat_name (Client e) d') = None \<or> map_of (sr_core r) (Client e, d') \<noteq> None"
    using that assms(3)
    by (cases "map_of (xa_StatsLastValues (sr_api r)) (stat_name (Client e) d')"; cases "map_of (sr_core r) (Client e, d')";
        cases "s = Client e \<and> d' = d") (auto simp: unpolled_def stat_delta_def)
qed

lemma never_overcounts:
  assumes "stats_inv r" "\<And>ev. ev \<in> set evs \<Longrightarrow> event_ok ev" "plain e" "sr_reported r e d + unpolled r e d \<le> sr_relayed r e d"
  shows "sr_reported (stats_events evs r) e d + unpolled (stats_events evs r) e d \<le> sr_relayed (stats_events evs r) e d
    \<and> stats_inv (stats_events evs r)"
  using assms
proof (induction evs arbitrary: r)
  case (Cons ev evs)
  have inv: "stats_inv (stats_step ev r) \<and> sr_reported (stats_step ev r) e d + unpolled (stats_step ev r) e d \<le> sr_relayed (stats_step ev r) e d"
  proof (cases ev)
    case (Counted s d' b)
    then have "plain_subject s" "0 \<le> b" using Cons.prems(2) [of ev] by (simp_all add: event_ok_def)
    note c = counted_effect [OF Cons.prems(1) this, where d = d']
    show ?thesis using c(1) c(2) [OF Cons.prems(3), of d] Cons.prems(4) unfolding Counted by (simp split: if_splits)
  next
    case CoreRestart
    have "0 \<le> unpolled r e d"
      using Cons.prems(1) good_response(3) [of "sr_core r" "stat_name (Client e) d"] good_response(2) [of "sr_core r" "Client e" d] Cons.prems(3)
      by (auto simp: unpolled_def stat_delta_def stats_inv_def split: option.split)
    then show ?thesis using CoreRestart Cons.prems(1,4) by (simp add: stats_inv_def core_ok_def unpolled_def)
  next
    case Poll
    then show ?thesis using poll_effect [OF Cons.prems(1)] Cons.prems(3,4) by simp
  qed
  then show ?case using Cons.IH [of "stats_step ev r"] Cons.prems(2,3) by (simp add: stats_events_def)
qed (simp add: stats_events_def)

text \<open>Without a restart the values last seen never exceed the counters.\<close>

definition seen_below :: "stats_run \<Rightarrow> bool" where
  "seen_below r \<longleftrightarrow> (\<forall>n l. map_of (xa_StatsLastValues (sr_api r)) n = Some l \<longrightarrow> (\<exists>v. map_of (response (sr_core r)) n = Some v \<and> l \<le> v))"

lemma counts_exactly:
  assumes "stats_inv r" "seen_below r" "\<And>ev. ev \<in> set evs \<Longrightarrow> event_ok ev \<and> ev \<noteq> CoreRestart" "plain e"
    "sr_reported r e d + unpolled r e d = sr_relayed r e d"
  shows "sr_reported (stats_events evs r) e d + unpolled (stats_events evs r) e d = sr_relayed (stats_events evs r) e d"
  using assms
proof (induction evs arbitrary: r)
  case (Cons ev evs)
  have inv: "stats_inv (stats_step ev r) \<and> seen_below (stats_step ev r)
      \<and> sr_reported (stats_step ev r) e d + unpolled (stats_step ev r) e d = sr_relayed (stats_step ev r) e d"
  proof (cases ev)
    case (Counted s d' b)
    then have ok: "plain_subject s" "0 \<le> b" using Cons.prems(3) [of ev] by (simp_all add: event_ok_def)
    note c = counted_effect [OF Cons.prems(1) ok, where d = d']
    have core: "core_ok (sr_core r)" "core_ok (sr_core (stats_step ev r))" using Cons.prems(1) c(1) by (simp_all add: stats_inv_def Counted)
    have "seen_below (stats_step ev r)"
      unfolding seen_below_def
    proof (intro allI impI)
      fix n l assume "map_of (xa_StatsLastValues (sr_api (stats_step ev r))) n = Some l"
      then have "map_of (xa_StatsLastValues (sr_api r)) n = Some l" by (simp add: Counted)
      then obtain v where v: "map_of (response (sr_core r)) n = Some v" "l \<le> v" using Cons.prems(2) by (auto simp: seen_below_def)
      obtain s' d'' where n: "plain_subject s'" "n = stat_name s' d''"
        using map_of_SomeD [OF v(1)] good_response(1) [OF core(1)] by (auto simp: good_stats_def)
      then have "map_of (sr_core r) (s', d'') = Some v" using v(1) good_response(2) [OF core(1)] by simp
      then obtain w where "map_of (sr_core (stats_step ev r)) (s', d'') = Some w" "v \<le> w"
        using ok(2) by (cases "s' = s \<and> d'' = d'") (auto simp: Counted)
      then show "\<exists>w. map_of (response (sr_core (stats_step ev r))) n = Some w \<and> l \<le> w"
        using v(2) n good_response(2) [OF core(2)] by auto
    qed
    moreover have "unpolled (stats_step (Counted s d' b) r) e d = unpolled r e d + (if s = Client e \<and> d = d' then b else 0)"
    proof (rule c(3))
      note low = Cons.prems(2) [unfolded seen_below_def, rule_format, of "stat_name (Client e) d"]
      note r = good_response(2) [OF core(1), of "Client e" d]
      show "\<forall>l v. map_of (xa_StatsLastValues (sr_api r)) (stat_name (Client e) d) = Some l \<longrightarrow>
          map_of (sr_core r) (Client e, d) = Some v \<longrightarrow> l \<le> v"
        using low r Cons.prems(4) by fastforce
      show "map_of (xa_StatsLastValues (sr_api r)) (stat_name (Client e) d) = None \<or> map_of (sr_core r) (Client e, d) \<noteq> None"
        using low r Cons.prems(4) by (cases "map_of (xa_StatsLastValues (sr_api r)) (stat_name (Client e) d)") auto
    qed
    ultimately show ?thesis using c(1) Cons.prems(5) unfolding Counted by (simp split: if_splits)
  next
    case Poll
    have "seen_below (poll r)"
      unfolding seen_below_def
    proof (intro allI impI)
      fix n l assume "map_of (xa_StatsLastValues (sr_api (poll r))) n = Some l"
      then show "\<exists>v. map_of (response (sr_core (poll r))) n = Some v \<and> l \<le> v"
        using poll_effect(2,6) [OF Cons.prems(1)] Cons.prems(2) by (fastforce simp: seen_below_def)
    qed
    then show ?thesis using poll_effect [OF Cons.prems(1)] Cons.prems(4,5) by (simp add: Poll)
  qed (use Cons.prems(3) in auto)
  then show ?case using Cons.IH [of "stats_step ev r"] Cons.prems(3,4) by (simp add: stats_events_def)
qed (simp add: stats_events_def)


lemma stats_start_inv:
  assumes "core_ok core" "core \<noteq> []" "connected x"
  shows "stats_inv (stats_start x core)" "seen_below (stats_start x core)" "sr_core (stats_start x core) = core"
    "sr_reported (stats_start x core) = (\<lambda>_ _. 0)" "sr_relayed (stats_start x core) = (\<lambda>_ _. 0)"
    "unpolled (stats_start x core) e d = 0 \<or> \<not> plain e"
proof -
  let ?st = "response core"
  have g: "good_stats ?st" "\<And>n v. map_of ?st n = Some v \<Longrightarrow> 0 \<le> v" using good_response [OF assms(1)] by simp_all
  have w: "wf_map ?st" using g(1) by (simp add: good_stats_def wf_map_def)
  have base: "fold (poll_stat True) st (l, [], []) = (fold (\<lambda>(n, v). AList.update n v) st l, [], [])" for st l
    by (induction st arbitrary: l) (auto simp: poll_stat_def Let_def)
  have upd: "fold (\<lambda>(n, v). AList.update n v) st l = l @ st" if "distinct (map fst (l @ st))" for st and l :: "(string \<times> int) list"
    using that by (induction st arbitrary: l) (auto simp: update_new map_of_None_fst)
  have "fold (\<lambda>(n, v). AList.update n v) ?st [] = ?st" using upd [of "[]" ?st] w by (simp add: wf_map_def)
  then have s: "stats_start x core = \<lparr>sr_core = core, sr_api = x\<lparr>xa_StatsLastValues := prune_stats ?st ?st\<rparr>, sr_relayed = (\<lambda>_ _. 0),
      sr_reported = (\<lambda>_ _. 0)\<rparr>"
    using assms(3) by (simp add: stats_start_def poll_def GetTraffic_def connected_def base amount_def)
  have p: "prune_stats ?st ?st = ?st" by (simp add: prune_stats_def)
  have ne: "?st \<noteq> []" using assms(2) by (simp add: response_def)
  show "stats_inv (stats_start x core)" using assms g w ne by (auto simp: s p stats_inv_def connected_def)
  show "seen_below (stats_start x core)" by (auto simp: s p seen_below_def)
  show "sr_core (stats_start x core) = core" "sr_reported (stats_start x core) = (\<lambda>_ _. 0)" "sr_relayed (stats_start x core) = (\<lambda>_ _. 0)"
    by (simp_all add: s)
  show "unpolled (stats_start x core) e d = 0 \<or> \<not> plain e"
    using good_response(2) [OF assms(1), of "Client e" d] by (auto simp: s p unpolled_def stat_delta_def split: option.split)
qed

text \<open>
  C6: traffic of clients is billed once. After the first poll, in every sequence of counting, restarts of the core
  and polls, the bytes reported for a client never exceed the bytes relayed for it since; without restarts, every
  poll has reported them all.
\<close>

theorem client_traffic_billed_once:
  assumes "core_ok core" "core \<noteq> []" "connected x" "\<And>ev. ev \<in> set evs \<Longrightarrow> event_ok ev" "plain e"
  shows "sr_reported (stats_events evs (stats_start x core)) e d \<le> sr_relayed (stats_events evs (stats_start x core)) e d
    \<and> (CoreRestart \<notin> set evs \<longrightarrow> sr_reported (stats_events (evs @ [Poll]) (stats_start x core)) e d
      = sr_relayed (stats_events (evs @ [Poll]) (stats_start x core)) e d)"
proof -
  let ?r = "stats_events evs (stats_start x core)"
  note start = stats_start_inv [OF assms(1-3)]
  have "sr_reported ?r e d + unpolled ?r e d \<le> sr_relayed ?r e d \<and> stats_inv ?r"
    using start(1,4,5) start(6) [of e d] assms(5) by (intro never_overcounts assms) auto
  note over = this
  have "0 \<le> unpolled ?r e d"
    using over good_response(3) [of "sr_core ?r" "stat_name (Client e) d"] good_response(2) [of "sr_core ?r" "Client e" d] assms(5)
    by (auto simp: unpolled_def stat_delta_def stats_inv_def split: option.split)
  then have "sr_reported ?r e d \<le> sr_relayed ?r e d" using over by linarith
  moreover have "sr_reported (stats_events (evs @ [Poll]) (stats_start x core)) e d = sr_relayed (stats_events (evs @ [Poll]) (stats_start x core)) e d"
    if no: "CoreRestart \<notin> set evs"
  proof -
    have "sr_reported ?r e d + unpolled ?r e d = sr_relayed ?r e d"
      using start(1,2,4,5) start(6) [of e d] no assms(4,5) by (intro counts_exactly) auto
    then show ?thesis using poll_effect(3,4) [of ?r] over assms(5) by (simp add: stats_events_def)
  qed
  ultimately show ?thesis by blast
qed

definition demo_api :: XrayAPI where
  "demo_api = snd (api_Init 62789 None disconnected)"

lemma client_traffic_billed_once_witness:
  "let core = [((Inbound ''in-443'', False), 10)];
       evs = [Counted (Client ''ann'') True 700, Poll, Counted (Client ''ann'') True 30];
       r = stats_events (evs @ [Poll]) (stats_start demo_api core) in
   sr_reported r ''ann'' True = sr_relayed r ''ann'' True \<and> sr_relayed r ''ann'' True = 730
   \<and> sr_reported (stats_events (evs @ [CoreRestart]) (stats_start demo_api core)) ''ann'' True
     \<le> sr_relayed (stats_events (evs @ [CoreRestart]) (stats_start demo_api core)) ''ann'' True"
proof -
  let ?core = "[((Inbound ''in-443'', False), 10 :: int)]"
  let ?evs = "[Counted (Client ''ann'') True 700, Poll, Counted (Client ''ann'') True 30]"
  have c: "core_ok ?core" by (simp add: core_ok_def wf_map_def plain_def)
  have x: "connected demo_api" by (simp add: connected_def demo_api_def api_Init_def disconnected_def)
  have ev: "event_ok ev" if "ev \<in> set (?evs @ [CoreRestart])" for ev using that by (auto simp: event_ok_def plain_def)
  have "sr_relayed (stats_events (?evs @ [Poll]) (stats_start demo_api ?core)) ''ann'' True = 730" by code_simp
  moreover have "sr_reported (stats_events (?evs @ [Poll]) (stats_start demo_api ?core)) ''ann'' True
      = sr_relayed (stats_events (?evs @ [Poll]) (stats_start demo_api ?core)) ''ann'' True"
    by (rule client_traffic_billed_once [OF c _ x, THEN conjunct2, rule_format]) (use ev in \<open>auto simp: plain_def\<close>)
  moreover have "sr_reported (stats_events (?evs @ [CoreRestart]) (stats_start demo_api ?core)) ''ann'' True
      \<le> sr_relayed (stats_events (?evs @ [CoreRestart]) (stats_start demo_api ?core)) ''ann'' True"
    by (rule client_traffic_billed_once [OF c _ x ev, THEN conjunct1]) (auto simp: plain_def)
  ultimately show ?thesis by (simp add: Let_def)
qed

subsection \<open>Two observations\<close>

text \<open>An inbound and an outbound of the same tag share one entry: the counter read last replaces the other.\<close>

lemma same_tag_collision:
  "fst (GetTraffic (Inr (response [((Inbound ''a'', False), 100), ((Outbound ''a'', False), 7)])) (demo_api\<lparr>xa_StatsLastValues := [(''x'', 0)]\<rparr>))
     = Inr ([\<lparr>tr_IsInbound = True, tr_IsOutbound = False, tr_Tag = ''a'', tr_Up = 7, tr_Down = 0\<rparr>], [])"
  by code_simp

text \<open>A poll that finds no counters leaves the next one to be the baseline, which drops what was counted in between.\<close>

lemma empty_poll_baseline:
  "let x = snd (GetTraffic (Inr []) demo_api) in
   fst (GetTraffic (Inr (response [((Client ''ann'', True), 500)])) x) = Inr ([], [])"
  by code_simp

end
