(* ===== verification/Hot_Apply.thy ===== *)
theory Hot_Apply
  imports Hot_Safety Xray_Api
begin

text \<open>
  Applying a hot diff through the API: \<open>applyXrayHotDiff\<close> of \<open>internal/web/service/xray.go\<close> and
  \<open>applyInboundUserOps\<close> of \<open>inbound.go\<close>, with the repair of handlers and users that the panel's snapshot did not know.

  The state of the core is abstract; \<open>core_laws\<close> states what its handler service documents about the calls that
  succeed and about the errors the code goes on after.
\<close>

subsection \<open>The code\<close>

text \<open>A loop of calls that stops at the first error not to be ignored.\<close>

fun call_each :: "('a \<Rightarrow> 'x call) \<Rightarrow> (string option \<Rightarrow> bool) \<Rightarrow> 'a list \<Rightarrow> 'x \<Rightarrow> bool \<times> 'x" where
  "call_each f ignored [] st = (True, st)"
| "call_each f ignored (a # as) st =
     (case f a st of (err, st) \<Rightarrow> if err \<noteq> None \<and> \<not> ignored err then (False, st) else call_each f ignored as st)"

definition never :: "string option \<Rightarrow> bool" where "never err \<longleftrightarrow> False"

definition meta_tag :: "hot_env \<Rightarrow> string \<Rightarrow> string option" where
  "meta_tag env raw = unmarshal env (into_struct [(''tag'', into_string)]) [] raw"

definition addInboundReconciling :: "hot_env \<Rightarrow> ('ib, 'ob, 'rt, 'x) core_rpc \<Rightarrow> XrayAPI \<Rightarrow> string \<Rightarrow> 'x call" where
  "addInboundReconciling env rpc x inbound st =
     (case AddInbound rpc x inbound st of (err, st) \<Rightarrow>
        if err = None \<or> \<not> IsExistingTagErr err then (err, st)
        else case meta_tag env inbound of
          None \<Rightarrow> (err, st)
        | Some tag \<Rightarrow>
            if tag = [] then (err, st)
            else case DelInbound rpc x tag st of (delErr, st) \<Rightarrow>
              if delErr \<noteq> None \<and> \<not> IsMissingHandlerErr delErr then (delErr, st)
              else AddInbound rpc x inbound st)"

definition addOutboundReconciling :: "hot_env \<Rightarrow> ('ib, 'ob, 'rt, 'x) core_rpc \<Rightarrow> XrayAPI \<Rightarrow> string \<Rightarrow> 'x call" where
  "addOutboundReconciling env rpc x outbound st =
     (case AddOutbound rpc x outbound st of (err, st) \<Rightarrow>
        if err = None \<or> \<not> IsExistingTagErr err then (err, st)
        else case meta_tag env outbound of
          None \<Rightarrow> (err, st)
        | Some tag \<Rightarrow>
            if tag = [] then (err, st)
            else case DelOutbound rpc x tag st of (delErr, st) \<Rightarrow>
              if delErr \<noteq> None \<and> \<not> IsMissingHandlerErr delErr then (delErr, st)
              else AddOutbound rpc x outbound st)"

definition user_map :: "UserOp \<Rightarrow> (string \<times> go_any) list" where
  "user_map u = (case uo_User u of None \<Rightarrow> [] | Some user \<Rightarrow> any_user user)"

definition addUserReconciling :: "go_fmt \<Rightarrow> ('ib, 'ob, 'rt, 'x) core_rpc \<Rightarrow> XrayAPI \<Rightarrow> UserOp \<Rightarrow> 'x call" where
  "addUserReconciling f rpc x u st =
     (case AddUser f rpc x (uo_Protocol u) (uo_Tag u) (user_map u) st of (err, st) \<Rightarrow>
        if err = None \<or> \<not> IsUserExistsErr err then (err, st)
        else case RemoveUser rpc x (uo_Tag u) (uo_Email u) st of (delErr, st) \<Rightarrow>
          if delErr \<noteq> None \<and> \<not> IsMissingHandlerErr delErr then (delErr, st)
          else AddUser f rpc x (uo_Protocol u) (uo_Tag u) (user_map u) st)"

definition and_call :: "('x \<Rightarrow> bool \<times> 'x) \<Rightarrow> ('x \<Rightarrow> bool \<times> 'x) \<Rightarrow> 'x \<Rightarrow> bool \<times> 'x" where
  "and_call f g st = (case f st of (True, st) \<Rightarrow> g st | (False, st) \<Rightarrow> (False, st))"

definition applyXrayHotDiff :: "hot_env \<Rightarrow> go_fmt \<Rightarrow> ('ib, 'ob, 'rt, 'x) core_rpc \<Rightarrow> XrayAPI \<Rightarrow> HotDiff \<Rightarrow> 'x \<Rightarrow> bool \<times> 'x" where
  "applyXrayHotDiff env f rpc x diff =
     and_call (call_each (\<lambda>u. RemoveUser rpc x (uo_Tag u) (uo_Email u)) IsMissingHandlerErr (hd_RemovedUsers diff))
     (and_call (call_each (DelInbound rpc x) IsMissingHandlerErr (hd_RemovedInboundTags diff))
     (and_call (call_each (DelOutbound rpc x) IsMissingHandlerErr (hd_RemovedOutboundTags diff))
     (and_call (call_each (addOutboundReconciling env rpc x) never (hd_AddedOutbounds diff))
     (and_call (call_each (addInboundReconciling env rpc x) never (hd_AddedInbounds diff))
     (and_call (call_each (addUserReconciling f rpc x) never (hd_AddedUsers diff))
     (call_each (ApplyRoutingConfig rpc x) never (case hd_RoutingConfig diff of None \<Rightarrow> [] | Some raw \<Rightarrow> [raw])))))))"

text \<open>\<open>GetRestartXrayOnClientDisable\<close> of the settings: an error or the setting.\<close>

definition restartToDropClients :: "string + bool \<Rightarrow> HotDiff option \<Rightarrow> bool" where
  "restartToDropClients setting diff =
     (case diff of None \<Rightarrow> False
      | Some d \<Rightarrow> if \<not> DropsUsers d then False else (case setting of Inl _ \<Rightarrow> False | Inr restart \<Rightarrow> restart))"

text \<open>
  \<open>applyInboundUserOps\<close> over the calls of a runtime, local or a node: \<open>remove\<close> takes an email, \<open>add\<close> a user.
\<close>

definition add_user_in_place :: "(string \<Rightarrow> 'x call) \<Rightarrow> ((string \<times> go_any) list \<Rightarrow> 'x call) \<Rightarrow> UserOp \<Rightarrow> 'x call" where
  "add_user_in_place remove add u st =
     (case add (user_map u) st of (err, st) \<Rightarrow>
        if IsUserExistsErr err
        then (case remove (uo_Email u) st of (err, st) \<Rightarrow> if err = None then add (user_map u) st else (err, st))
        else (err, st))"

definition applyInboundUserOps :: "hot_env \<Rightarrow> (string \<Rightarrow> 'x call) \<Rightarrow> ((string \<times> go_any) list \<Rightarrow> 'x call) \<Rightarrow>
    InboundConfig \<Rightarrow> InboundConfig \<Rightarrow> 'x \<Rightarrow> bool \<times> 'x" where
  "applyInboundUserOps env remove add running next_ib st =
     (case InboundUserOps env running next_ib of
        None \<Rightarrow> (False, st)
      | Some diff \<Rightarrow>
          and_call (call_each (\<lambda>u. remove (uo_Email u)) IsMissingUserErr (hd_RemovedUsers diff))
            (call_each (add_user_in_place remove add) never (hd_AddedUsers diff)) st)"

subsection \<open>What a core serves, with accounts\<close>

text \<open>
  The core keeps accounts, not the JSON of its users. \<open>acc tag user\<close> is the account the core makes itself of a user
  listed in the inbound with the tag.
\<close>

record live_handler =
  lh_base :: handler
  lh_users :: "string \<Rightarrow> account option"

record live =
  lv_inbounds :: "string \<Rightarrow> live_handler option"
  lv_outbounds :: "(string \<times> string) list"
  lv_rules :: string
  lv_routing :: "string option"
  lv_static :: "raw_section list"

type_synonym accounts = "string \<Rightarrow> (string \<times> json) list \<Rightarrow> account"

definition live_handler_of :: "accounts \<Rightarrow> string \<Rightarrow> handler \<Rightarrow> live_handler" where
  "live_handler_of acc tag h = \<lparr>lh_base = h\<lparr>hn_users := (\<lambda>_. None)\<rparr>, lh_users = (\<lambda>e. map_option (acc tag) (hn_users h e))\<rparr>"

definition live_of :: "accounts \<Rightarrow> core \<Rightarrow> live" where
  "live_of acc c = \<lparr>lv_inbounds = (\<lambda>t. map_option (live_handler_of acc t) (co_inbounds c t)), lv_outbounds = co_outbounds c,
     lv_rules = co_rules c, lv_routing = co_routing c, lv_static = co_static c\<rparr>"

definition same_live :: "live \<Rightarrow> live \<Rightarrow> bool" where
  "same_live a b \<longleftrightarrow> lv_inbounds a = lv_inbounds b \<and> map_of (lv_outbounds a) = map_of (lv_outbounds b)
     \<and> distinct (map fst (lv_outbounds a)) \<and> (lv_outbounds a = [] \<longleftrightarrow> lv_outbounds b = [])
     \<and> (lv_outbounds a \<noteq> [] \<longrightarrow> hd (lv_outbounds a) = hd (lv_outbounds b))
     \<and> lv_rules a = lv_rules b \<and> lv_routing a = lv_routing b \<and> lv_static a = lv_static b"

lemma same_live_of: "same_core a b \<Longrightarrow> same_live (live_of acc a) (live_of acc b)"
  by (auto simp: same_core_def same_live_def live_of_def)

definition set_account :: "string \<Rightarrow> account option \<Rightarrow> live_handler \<Rightarrow> live_handler" where
  "set_account email a h = h\<lparr>lh_users := (lh_users h)(email := a)\<rparr>"

definition live_user :: "string \<Rightarrow> string \<Rightarrow> account option \<Rightarrow> live \<Rightarrow> live" where
  "live_user tag email a v = v\<lparr>lv_inbounds := (\<lambda>t. if t = tag then map_option (set_account email a) (lv_inbounds v t) else lv_inbounds v t)\<rparr>"

definition live_inbound :: "string \<Rightarrow> live_handler option \<Rightarrow> live \<Rightarrow> live" where
  "live_inbound tag h v = v\<lparr>lv_inbounds := (lv_inbounds v)(tag := h)\<rparr>"

definition del_outbound :: "string \<Rightarrow> live \<Rightarrow> live" where
  "del_outbound tag v = v\<lparr>lv_outbounds := filter (\<lambda>e. fst e \<noteq> tag) (lv_outbounds v)\<rparr>"

definition has_outbound :: "string \<Rightarrow> live \<Rightarrow> bool" where
  "has_outbound tag v \<longleftrightarrow> tag \<in> fst ` set (lv_outbounds v)"

definition has_user :: "string \<Rightarrow> string \<Rightarrow> live \<Rightarrow> bool" where
  "has_user tag email v \<longleftrightarrow> (case lv_inbounds v tag of None \<Rightarrow> False | Some h \<Rightarrow> lh_users h email \<noteq> None)"

text \<open>
  The documented behaviour of the handler and routing services, seen through \<open>view\<close>. A call without an error has
  its effect, an error for a missing handler means that there is none, removing a user fails only when there is none,
  and the errors the code goes on after change nothing. A legacy Shadowsocks inbound accepts an email twice, so of
  its accounts only an addition of a new email is specified.
\<close>

definition add_inbound_law :: "hot_env \<Rightarrow> reader \<Rightarrow> accounts \<Rightarrow> ('ib, 'ob, 'rt, 'x) core_rpc \<Rightarrow> ('x \<Rightarrow> live) \<Rightarrow> bool" where
  "add_inbound_law env read acc rpc view \<longleftrightarrow>
     (\<forall>raw ib st err st'. rc_load_inbound rpc raw = Inr ib \<longrightarrow> rc_AddInbound rpc ib st = (err, st') \<longrightarrow>
        (err = None \<longrightarrow> (\<exists>tag h. read raw = Some (tag, h) \<and> meta_tag env raw = Some tag
           \<and> view st' = live_inbound tag (Some (live_handler_of acc tag h)) (view st)))
        \<and> (IsExistingTagErr err \<longrightarrow> view st' = view st))
   \<and> (\<forall>raw e. rc_load_inbound rpc raw = Inl e \<longrightarrow> \<not> IsExistingTagErr (Some e))"

definition remove_inbound_law :: "('ib, 'ob, 'rt, 'x) core_rpc \<Rightarrow> ('x \<Rightarrow> live) \<Rightarrow> bool" where
  "remove_inbound_law rpc view \<longleftrightarrow> (\<forall>tag st err st'. rc_RemoveInbound rpc tag st = (err, st') \<longrightarrow>
     (err = None \<longrightarrow> view st' = live_inbound tag None (view st))
     \<and> (IsMissingHandlerErr err \<longrightarrow> view st' = view st \<and> lv_inbounds (view st) tag = None))"

definition add_outbound_law :: "hot_env \<Rightarrow> ('ib, 'ob, 'rt, 'x) core_rpc \<Rightarrow> ('x \<Rightarrow> live) \<Rightarrow> bool" where
  "add_outbound_law env rpc view \<longleftrightarrow>
     (\<forall>raw ob st err st'. rc_load_outbound rpc raw = Inr ob \<longrightarrow> rc_AddOutbound rpc ob st = (err, st') \<longrightarrow>
        (err = None \<longrightarrow> (\<exists>tag nm. read_outbound env raw = [(tag, nm)] \<and> meta_tag env raw = Some tag \<and> \<not> has_outbound tag (view st)
           \<and> view st' = (view st)\<lparr>lv_outbounds := lv_outbounds (view st) @ [(tag, nm)]\<rparr>))
        \<and> (IsExistingTagErr err \<longrightarrow> view st' = view st))
   \<and> (\<forall>raw e. rc_load_outbound rpc raw = Inl e \<longrightarrow> \<not> IsExistingTagErr (Some e))"

definition remove_outbound_law :: "('ib, 'ob, 'rt, 'x) core_rpc \<Rightarrow> ('x \<Rightarrow> live) \<Rightarrow> bool" where
  "remove_outbound_law rpc view \<longleftrightarrow> (\<forall>tag st err st'. rc_RemoveOutbound rpc tag st = (err, st') \<longrightarrow>
     (err = None \<longrightarrow> view st' = del_outbound tag (view st))
     \<and> (IsMissingHandlerErr err \<longrightarrow> view st' = view st \<and> \<not> has_outbound tag (view st)))"

definition add_user_law :: "('ib, 'ob, 'rt, 'x) core_rpc \<Rightarrow> ('x \<Rightarrow> live) \<Rightarrow> bool" where
  "add_user_law rpc view \<longleftrightarrow> (\<forall>tag email a st err st'. rc_AddUser rpc tag email a st = (err, st') \<longrightarrow>
     (err = None \<longrightarrow> (is_legacy_shadowsocks a \<longrightarrow> \<not> has_user tag email (view st)) \<longrightarrow> view st' = live_user tag email (Some a) (view st))
     \<and> (IsUserExistsErr err \<longrightarrow> view st' = view st))"

definition remove_user_law :: "('ib, 'ob, 'rt, 'x) core_rpc \<Rightarrow> ('x \<Rightarrow> live) \<Rightarrow> bool" where
  "remove_user_law rpc view \<longleftrightarrow> (\<forall>tag email st err st'. rc_RemoveUser rpc tag email st = (err, st') \<longrightarrow>
     (err = None \<longrightarrow> view st' = live_user tag email None (view st))
     \<and> (err \<noteq> None \<longrightarrow> view st' = view st \<and> \<not> has_user tag email (view st)))"

definition add_rule_law :: "('ib, 'ob, 'rt, 'x) core_rpc \<Rightarrow> ('x \<Rightarrow> live) \<Rightarrow> bool" where
  "add_rule_law rpc view \<longleftrightarrow> (\<forall>raw rt st st'. rc_load_routing rpc raw = Inr rt \<longrightarrow> rc_AddRule rpc rt st = (None, st') \<longrightarrow>
     view st' = (view st)\<lparr>lv_rules := raw\<rparr>)"

definition core_laws :: "hot_env \<Rightarrow> reader \<Rightarrow> accounts \<Rightarrow> ('ib, 'ob, 'rt, 'x) core_rpc \<Rightarrow> ('x \<Rightarrow> live) \<Rightarrow> bool" where
  "core_laws env read acc rpc view \<longleftrightarrow> add_inbound_law env read acc rpc view \<and> remove_inbound_law rpc view
     \<and> add_outbound_law env rpc view \<and> remove_outbound_law rpc view \<and> add_user_law rpc view \<and> remove_user_law rpc view
     \<and> add_rule_law rpc view"

subsection \<open>What each call does\<close>

fun live_step :: "hot_env \<Rightarrow> reader \<Rightarrow> accounts \<Rightarrow> core_op \<Rightarrow> live \<Rightarrow> live" where
  "live_step env read acc (OpRemoveUser tag email) v = live_user tag email None v"
| "live_step env read acc (OpDelInbound tag) v = live_inbound tag None v"
| "live_step env read acc (OpDelOutbound tag) v = del_outbound tag v"
| "live_step env read acc (OpAddOutbound raw) v = (case read_outbound env raw of
     [(tag, nm)] \<Rightarrow> (del_outbound tag v)\<lparr>lv_outbounds := lv_outbounds (del_outbound tag v) @ [(tag, nm)]\<rparr> | _ \<Rightarrow> v)"
| "live_step env read acc (OpAddInbound raw) v = (case read raw of Some (tag, h) \<Rightarrow> live_inbound tag (Some (live_handler_of acc tag h)) v | None \<Rightarrow> v)"
| "live_step env read acc (OpAddUser tag email user) v = live_user tag email (Some (acc tag user)) v"
| "live_step env read acc (OpRouting raw) v = v\<lparr>lv_rules := raw\<rparr>"
| "live_step env read acc (ReplaceRelay c) v = v"

lemma call_each_effect:
  assumes "call_each f ignored as st = (True, st')"
    and "\<And>a st err st'. a \<in> set as \<Longrightarrow> f a st = (err, st') \<Longrightarrow> err = None \<or> ignored err \<Longrightarrow> view st' = g a (view st)"
  shows "view st' = fold g as (view st)"
  using assms
proof (induction as arbitrary: st)
  case (Cons a as)
  obtain err st1 where f: "f a st = (err, st1)" by force
  then have e: "err = None \<or> ignored err" and r: "call_each f ignored as st1 = (True, st')" using Cons.prems(1) by (auto split: if_splits)
  show ?case using Cons.IH [OF r] Cons.prems(2) [of a st err st1] Cons.prems(2) f e by simp
qed simp

lemma and_call_True: "and_call f g st = (True, st') \<longleftrightarrow> (\<exists>s. f st = (True, s) \<and> g s = (True, st'))"
  by (auto simp: and_call_def split: prod.split bool.split)

lemma no_client_err: "\<not> IsMissingHandlerErr (Some no_handler_client)" "\<not> IsExistingTagErr (Some no_handler_client)" "\<not> IsUserExistsErr (Some no_handler_client)"
  by code_simp+

lemma live_user_absent: "\<not> has_user tag email v \<Longrightarrow> live_user tag email None v = v"
  by (cases "lv_inbounds v tag") (auto simp: has_user_def live_user_def set_account_def fun_eq_iff intro!: live.equality live_handler.equality)

lemma set_account_twice: "set_account email a \<circ> set_account email b = set_account email a"
  by (rule ext) (simp add: set_account_def)

lemma live_user_twice: "live_user tag email a (live_user tag email b v) = live_user tag email a v"
  by (simp add: live_user_def option.map_comp set_account_twice cong: if_cong)

lemma live_inbound_twice [simp]: "live_inbound tag a (live_inbound tag b v) = live_inbound tag a v"
  by (simp add: live_inbound_def)

lemma live_inbound_absent: "lv_inbounds v tag = None \<Longrightarrow> live_inbound tag None v = v"
  by (auto simp: live_inbound_def fun_eq_iff intro!: live.equality)

lemma del_outbound_absent: "\<not> has_outbound tag v \<Longrightarrow> del_outbound tag v = v"
proof -
  assume "\<not> has_outbound tag v"
  then have "filter (\<lambda>e. fst e \<noteq> tag) (lv_outbounds v) = lv_outbounds v" by (force simp: has_outbound_def filter_id_conv)
  then show ?thesis by (simp add: del_outbound_def)
qed

lemma has_user_removed [simp]: "\<not> has_user tag email (live_user tag email None v)"
  by (simp add: has_user_def live_user_def set_account_def split: option.split)

lemma RemoveUser_effect:
  assumes "remove_user_law rpc view" "RemoveUser rpc x tag email st = (err, st')" "xa_HandlerServiceClient x"
  shows "view st' = live_user tag email None (view st)"
proof -
  obtain e s where r: "rc_RemoveUser rpc tag email st = (e, s)" by force
  then have "(e = None \<longrightarrow> view s = live_user tag email None (view st)) \<and> (e \<noteq> None \<longrightarrow> view s = view st \<and> \<not> has_user tag email (view st))"
    using assms(1) unfolding remove_user_law_def by blast
  moreover have "s = st'" using assms(2,3) r by (auto simp: RemoveUser_def split: option.splits)
  ultimately show ?thesis using live_user_absent by (cases e) auto
qed

lemma RemoveUser_step:
  assumes "remove_user_law rpc view" "RemoveUser rpc x tag email st = (err, st')" "err = None \<or> IsMissingHandlerErr err"
  shows "view st' = live_user tag email None (view st)"
proof (cases "xa_HandlerServiceClient x")
  case True
  then show ?thesis by (rule RemoveUser_effect [OF assms(1,2)])
next
  case False
  then show ?thesis using assms(2,3) no_client_err by (auto simp: RemoveUser_def)
qed

lemma DelInbound_step:
  assumes "remove_inbound_law rpc view" "DelInbound rpc x tag st = (err, st')" "err = None \<or> IsMissingHandlerErr err"
  shows "view st' = live_inbound tag None (view st)"
proof -
  have "rc_RemoveInbound rpc tag st = (err, st')" using assms(2,3) no_client_err by (auto simp: DelInbound_def split: if_splits)
  then have "(err = None \<longrightarrow> view st' = live_inbound tag None (view st)) \<and>
      (IsMissingHandlerErr err \<longrightarrow> view st' = view st \<and> lv_inbounds (view st) tag = None)"
    using assms(1) unfolding remove_inbound_law_def by blast
  then show ?thesis using assms(3) live_inbound_absent by auto
qed

lemma DelOutbound_step:
  assumes "remove_outbound_law rpc view" "DelOutbound rpc x tag st = (err, st')" "err = None \<or> IsMissingHandlerErr err"
  shows "view st' = del_outbound tag (view st)"
proof -
  have "rc_RemoveOutbound rpc tag st = (err, st')" using assms(2,3) no_client_err by (auto simp: DelOutbound_def split: if_splits)
  then have "(err = None \<longrightarrow> view st' = del_outbound tag (view st)) \<and>
      (IsMissingHandlerErr err \<longrightarrow> view st' = view st \<and> \<not> has_outbound tag (view st))"
    using assms(1) unfolding remove_outbound_law_def by blast
  then show ?thesis using assms(3) del_outbound_absent by auto
qed

lemma AddInbound_effect:
  assumes "add_inbound_law env read acc rpc view" "AddInbound rpc x raw st = (err, st')"
  shows "err = None \<Longrightarrow> \<exists>tag h. read raw = Some (tag, h) \<and> meta_tag env raw = Some tag \<and> view st' = live_inbound tag (Some (live_handler_of acc tag h)) (view st)"
    "IsExistingTagErr err \<Longrightarrow> view st' = view st"
proof -
  have l: "rc_load_inbound rpc raw = Inr ib \<Longrightarrow> rc_AddInbound rpc ib st = (err, st') \<Longrightarrow>
        (err = None \<longrightarrow> (\<exists>tag h. read raw = Some (tag, h) \<and> meta_tag env raw = Some tag
           \<and> view st' = live_inbound tag (Some (live_handler_of acc tag h)) (view st)))
        \<and> (IsExistingTagErr err \<longrightarrow> view st' = view st)" for ib
    using assms(1) unfolding add_inbound_law_def by blast
  have load: "rc_load_inbound rpc raw = Inl e \<Longrightarrow> \<not> IsExistingTagErr (Some e)" for e
    using assms(1) unfolding add_inbound_law_def by blast
  show "\<exists>tag h. read raw = Some (tag, h) \<and> meta_tag env raw = Some tag \<and> view st' = live_inbound tag (Some (live_handler_of acc tag h)) (view st)"
    if "err = None" using assms(2) l that by (auto simp: AddInbound_def split: if_splits sum.splits)
  show "view st' = view st" if "IsExistingTagErr err"
    using assms(2) l load no_client_err that by (auto simp: AddInbound_def split: if_splits sum.splits)
qed

lemma addInbound_step:
  assumes laws: "core_laws env read acc rpc view" and a: "addInboundReconciling env rpc x raw st = (None, st')"
  shows "view st' = live_step env read acc (OpAddInbound raw) (view st)"
proof -
  obtain err s where f: "AddInbound rpc x raw st = (err, s)" by force
  note law = laws [unfolded core_laws_def]
  note e1 = AddInbound_effect [OF _ f, of env read acc view]
  show ?thesis
  proof (cases "err = None")
    case True
    then have "st' = s" using a f by (simp add: addInboundReconciling_def)
    then show ?thesis using e1(1) True law by auto
  next
    case False
    then obtain tag delErr s2 where d: "meta_tag env raw = Some tag" "IsExistingTagErr err" "DelInbound rpc x tag s = (delErr, s2)"
      "delErr = None \<or> IsMissingHandlerErr delErr" "AddInbound rpc x raw s2 = (None, st')"
      using a f by (auto simp: addInboundReconciling_def split: if_splits option.splits prod.splits)
    note e2 = AddInbound_effect [OF _ d(5), of env read acc view]
    have "view s2 = live_inbound tag None (view st)" using DelInbound_step [OF _ d(3,4), of view] e1(2) [OF _ d(2)] law by simp
    then show ?thesis using e2(1) d(1) law by auto
  qed
qed

lemma AddOutbound_effect:
  assumes "add_outbound_law env rpc view" "AddOutbound rpc x raw st = (err, st')"
  shows "err = None \<Longrightarrow> \<exists>tag nm. read_outbound env raw = [(tag, nm)] \<and> meta_tag env raw = Some tag \<and> \<not> has_outbound tag (view st)
      \<and> view st' = (view st)\<lparr>lv_outbounds := lv_outbounds (view st) @ [(tag, nm)]\<rparr>"
    "IsExistingTagErr err \<Longrightarrow> view st' = view st"
proof -
  have l: "rc_load_outbound rpc raw = Inr ob \<Longrightarrow> rc_AddOutbound rpc ob st = (err, st') \<Longrightarrow>
        (err = None \<longrightarrow> (\<exists>tag nm. read_outbound env raw = [(tag, nm)] \<and> meta_tag env raw = Some tag \<and> \<not> has_outbound tag (view st)
           \<and> view st' = (view st)\<lparr>lv_outbounds := lv_outbounds (view st) @ [(tag, nm)]\<rparr>))
        \<and> (IsExistingTagErr err \<longrightarrow> view st' = view st)" for ob
    using assms(1) unfolding add_outbound_law_def by blast
  have load: "rc_load_outbound rpc raw = Inl e \<Longrightarrow> \<not> IsExistingTagErr (Some e)" for e
    using assms(1) unfolding add_outbound_law_def by blast
  show "\<exists>tag nm. read_outbound env raw = [(tag, nm)] \<and> meta_tag env raw = Some tag \<and> \<not> has_outbound tag (view st)
      \<and> view st' = (view st)\<lparr>lv_outbounds := lv_outbounds (view st) @ [(tag, nm)]\<rparr>"
    if "err = None" using assms(2) l that by (auto simp: AddOutbound_def split: if_splits sum.splits)
  show "view st' = view st" if "IsExistingTagErr err"
    using assms(2) l load no_client_err that by (auto simp: AddOutbound_def split: if_splits sum.splits)
qed

lemma addOutbound_step:
  assumes laws: "core_laws env read acc rpc view" and a: "addOutboundReconciling env rpc x raw st = (None, st')"
  shows "view st' = live_step env read acc (OpAddOutbound raw) (view st)"
proof -
  obtain err s where f: "AddOutbound rpc x raw st = (err, s)" by force
  note law = laws [unfolded core_laws_def]
  note e1 = AddOutbound_effect [OF _ f, of env view]
  show ?thesis
  proof (cases "err = None")
    case True
    then have "st' = s" using a f by (simp add: addOutboundReconciling_def)
    then show ?thesis using e1(1) True law del_outbound_absent by auto
  next
    case False
    then obtain tag delErr s2 where d: "meta_tag env raw = Some tag" "IsExistingTagErr err" "DelOutbound rpc x tag s = (delErr, s2)"
      "delErr = None \<or> IsMissingHandlerErr delErr" "AddOutbound rpc x raw s2 = (None, st')"
      using a f by (auto simp: addOutboundReconciling_def split: if_splits option.splits prod.splits)
    note e2 = AddOutbound_effect [OF _ d(5), of env view]
    have "view s2 = del_outbound tag (view st)" using DelOutbound_step [OF _ d(3,4), of view] e1(2) [OF _ d(2)] law by simp
    then show ?thesis using e2(1) d(1) law by auto
  qed
qed


lemma any_user_lookup: "map_of (any_user user) k = map_option to_any (map_of user k)"
  unfolding any_user_def by (induction user) auto

text \<open>The panel builds for a user of the diff the account the core makes of it.\<close>

definition accounts_agree :: "go_fmt \<Rightarrow> accounts \<Rightarrow> HotDiff \<Rightarrow> bool" where
  "accounts_agree f acc d \<longleftrightarrow> (\<forall>u \<in> set (hd_AddedUsers d). \<forall>user. uo_User u = Some user \<longrightarrow>
     buildUserAccount f (uo_Protocol u) (any_user user) = Inr (Some (acc (uo_Tag u) user)))"

text \<open>An added user is an object whose email is the one it is added under.\<close>

definition named_user :: "UserOp \<Rightarrow> bool" where
  "named_user u \<longleftrightarrow> (\<exists>user. uo_User u = Some user \<and> map_of user ''email'' = Some (JStr (uo_Email u)))"

lemma AddUser_effect:
  assumes "add_user_law rpc view" "remove_user_law rpc view" "AddUser f rpc x (uo_Protocol u) (uo_Tag u) (user_map u) st = (err, st')"
    "named_user u" "uo_User u = Some user" "buildUserAccount f (uo_Protocol u) (any_user user) = Inr (Some a)"
  shows "err = None \<longrightarrow> view st' = live_user (uo_Tag u) (uo_Email u) (Some a) (view st)"
    and "IsUserExistsErr err \<longrightarrow> view st' = view st \<or> view st' = live_user (uo_Tag u) (uo_Email u) None (view st)"
proof -
  let ?t = "uo_Tag u" and ?e = "uo_Email u"
  have e: "getRequiredUserString (any_user user) ''email'' = Inr ?e"
    using assms(4,5) by (auto simp: getRequiredUserString_def named_user_def any_user_lookup)
  have add: "AddUser f rpc x (uo_Protocol u) ?t (user_map u) st =
      (if \<not> xa_HandlerServiceClient x then (Some no_handler_client, st)
       else rc_AddUser rpc ?t ?e a (if is_legacy_shadowsocks a then snd (RemoveUser rpc x ?t ?e st) else st))"
    using e assms(5,6) by (simp add: AddUser_def user_map_def)
  show "err = None \<longrightarrow> view st' = live_user ?t ?e (Some a) (view st)"
    and "IsUserExistsErr err \<longrightarrow> view st' = view st \<or> view st' = live_user ?t ?e None (view st)"
  proof -
    define s where "s = (if is_legacy_shadowsocks a then snd (RemoveUser rpc x ?t ?e st) else st)"
    have "(err = None \<longrightarrow> view st' = live_user ?t ?e (Some a) (view st))
      \<and> (IsUserExistsErr err \<longrightarrow> view st' = view st \<or> view st' = live_user ?t ?e None (view st))"
    proof (cases "xa_HandlerServiceClient x")
      case True
      have s: "view s = (if is_legacy_shadowsocks a then live_user ?t ?e None (view st) else view st)"
        using RemoveUser_effect [OF assms(2) _ True, of ?t ?e st] by (auto simp: s_def) (metis prod.collapse)
      have "rc_AddUser rpc ?t ?e a s = (err, st')" using assms(3) True unfolding add s_def by simp
      then have "(err = None \<longrightarrow> (is_legacy_shadowsocks a \<longrightarrow> \<not> has_user ?t ?e (view s)) \<longrightarrow> view st' = live_user ?t ?e (Some a) (view s))
          \<and> (IsUserExistsErr err \<longrightarrow> view st' = view s)"
        using assms(1) unfolding add_user_law_def by blast
      then show ?thesis using s live_user_twice by (auto split: if_splits)
    next
      case False
      then show ?thesis using assms(3) no_client_err unfolding add by auto
    qed
    then show "err = None \<longrightarrow> view st' = live_user ?t ?e (Some a) (view st)"
      and "IsUserExistsErr err \<longrightarrow> view st' = view st \<or> view st' = live_user ?t ?e None (view st)" by blast+
  qed
qed

lemma addUser_step:
  assumes "add_user_law rpc view" "remove_user_law rpc view" "addUserReconciling f rpc x u st = (None, st')"
    "named_user u" "uo_User u = Some user" "buildUserAccount f (uo_Protocol u) (any_user user) = Inr (Some a)"
  shows "view st' = live_user (uo_Tag u) (uo_Email u) (Some a) (view st)"
proof -
  obtain err s where f: "AddUser f rpc x (uo_Protocol u) (uo_Tag u) (user_map u) st = (err, s)" by force
  note e1 = AddUser_effect [OF assms(1,2) f assms(4-6)]
  show ?thesis
  proof (cases "err = None")
    case True
    then show ?thesis using e1(1) assms(3) f by (simp add: addUserReconciling_def)
  next
    case False
    then obtain delErr s2 where d: "IsUserExistsErr err" "RemoveUser rpc x (uo_Tag u) (uo_Email u) s = (delErr, s2)"
      "delErr = None \<or> IsMissingHandlerErr delErr" "AddUser f rpc x (uo_Protocol u) (uo_Tag u) (user_map u) s2 = (None, st')"
      using assms(3) f by (auto simp: addUserReconciling_def split: if_splits prod.splits)
    have "view s2 = live_user (uo_Tag u) (uo_Email u) None (view s)" by (rule RemoveUser_step [OF assms(2) d(2,3)])
    then have "view s2 = live_user (uo_Tag u) (uo_Email u) None (view st)" using e1(2) d(1) live_user_twice by auto
    then show ?thesis using AddUser_effect(1) [OF assms(1,2) d(4) assms(4-6)] live_user_twice by simp
  qed
qed

lemma routing_step:
  assumes "add_rule_law rpc view" "ApplyRoutingConfig rpc x raw st = (None, st')"
  shows "view st' = (view st)\<lparr>lv_rules := raw\<rparr>"
  using assms by (auto simp: ApplyRoutingConfig_def add_rule_law_def split: if_splits sum.splits)

text \<open>When everything was applied, the core has made the operations of the diff.\<close>

lemma applied_operations:
  assumes laws: "core_laws env read acc rpc view" and run: "applyXrayHotDiff env f rpc x d st = (True, st')"
    and d: "hd_TuicRelayChanges d = []" "accounts_agree f acc d" "\<forall>u \<in> set (hd_AddedUsers d). named_user u"
  shows "view st' = fold (live_step env read acc) (hot_ops d) (view st)"
proof -
  note law = laws [unfolded core_laws_def]
  obtain s1 s2 s3 s4 s5 s6 where
    r: "call_each (\<lambda>u. RemoveUser rpc x (uo_Tag u) (uo_Email u)) IsMissingHandlerErr (hd_RemovedUsers d) st = (True, s1)"
      "call_each (DelInbound rpc x) IsMissingHandlerErr (hd_RemovedInboundTags d) s1 = (True, s2)"
      "call_each (DelOutbound rpc x) IsMissingHandlerErr (hd_RemovedOutboundTags d) s2 = (True, s3)"
      "call_each (addOutboundReconciling env rpc x) never (hd_AddedOutbounds d) s3 = (True, s4)"
      "call_each (addInboundReconciling env rpc x) never (hd_AddedInbounds d) s4 = (True, s5)"
      "call_each (addUserReconciling f rpc x) never (hd_AddedUsers d) s5 = (True, s6)"
      "call_each (ApplyRoutingConfig rpc x) never (case hd_RoutingConfig d of None \<Rightarrow> [] | Some raw \<Rightarrow> [raw]) s6 = (True, st')"
    using run unfolding applyXrayHotDiff_def and_call_True by blast
  let ?step = "live_step env read acc"
  have "view s1 = fold (\<lambda>u. ?step (OpRemoveUser (uo_Tag u) (uo_Email u))) (hd_RemovedUsers d) (view st)"
    using RemoveUser_step [of rpc view] law by (intro call_each_effect [OF r(1)]) simp
  moreover have "view s2 = fold (\<lambda>t. ?step (OpDelInbound t)) (hd_RemovedInboundTags d) (view s1)"
    using DelInbound_step [of rpc view] law by (intro call_each_effect [OF r(2)]) simp
  moreover have "view s3 = fold (\<lambda>t. ?step (OpDelOutbound t)) (hd_RemovedOutboundTags d) (view s2)"
    using DelOutbound_step [of rpc view] law by (intro call_each_effect [OF r(3)]) simp
  moreover have "view s4 = fold (\<lambda>raw. ?step (OpAddOutbound raw)) (hd_AddedOutbounds d) (view s3)"
    using addOutbound_step [OF laws] by (intro call_each_effect [OF r(4)]) (auto simp: never_def)
  moreover have "view s5 = fold (\<lambda>raw. ?step (OpAddInbound raw)) (hd_AddedInbounds d) (view s4)"
    using addInbound_step [OF laws] by (intro call_each_effect [OF r(5)]) (auto simp: never_def)
  moreover have "view s6 = fold (\<lambda>u. ?step (add_user_op u)) (hd_AddedUsers d) (view s5)"
  proof (rule call_each_effect [OF r(6)])
    fix u s err s'
    assume u: "u \<in> set (hd_AddedUsers d)" "addUserReconciling f rpc x u s = (err, s')" "err = None \<or> never err"
    then obtain user where user: "uo_User u = Some user" using d(3) by (auto simp: named_user_def)
    have "view s' = live_user (uo_Tag u) (uo_Email u) (Some (acc (uo_Tag u) user)) (view s)"
      using law d(2,3) u user by (intro addUser_step [of rpc view f x u s s' user]) (auto simp: accounts_agree_def never_def)
    then show "view s' = ?step (add_user_op u) (view s)" using user by (simp add: add_user_op_def)
  qed
  moreover have "view st' = fold (\<lambda>raw. ?step (OpRouting raw)) (case hd_RoutingConfig d of None \<Rightarrow> [] | Some raw \<Rightarrow> [raw]) (view s6)"
    using routing_step [of rpc view] law by (intro call_each_effect [OF r(7)]) (auto simp: never_def)
  ultimately show ?thesis using d(1) by (simp add: hot_ops_def fold_map comp_def split: option.split)
qed


subsection \<open>Cores the snapshot does not describe exactly\<close>

text \<open>
  \<open>serves_up_to\<close>: two cores agree except where the operations write: inbounds and outbounds that are removed or added,
  users that are removed or added, and the rules when they are replaced.
\<close>

fun rebuilds :: "reader \<Rightarrow> string \<Rightarrow> core_op \<Rightarrow> bool" where
  "rebuilds read t (OpDelInbound tag) \<longleftrightarrow> tag = t"
| "rebuilds read t (OpAddInbound raw) \<longleftrightarrow> (case read raw of Some (tag, _) \<Rightarrow> tag = t | None \<Rightarrow> False)"
| "rebuilds read t _ \<longleftrightarrow> False"

fun writes_user :: "string \<Rightarrow> string \<Rightarrow> core_op \<Rightarrow> bool" where
  "writes_user t e (OpRemoveUser tag email) \<longleftrightarrow> tag = t \<and> email = e"
| "writes_user t e (OpAddUser tag email _) \<longleftrightarrow> tag = t \<and> email = e"
| "writes_user t e _ \<longleftrightarrow> False"

fun writes_outbound :: "hot_env \<Rightarrow> string \<Rightarrow> core_op \<Rightarrow> bool" where
  "writes_outbound env t (OpDelOutbound tag) \<longleftrightarrow> tag = t"
| "writes_outbound env t (OpAddOutbound raw) \<longleftrightarrow> (\<exists>nm. read_outbound env raw = [(t, nm)])"
| "writes_outbound env t _ \<longleftrightarrow> False"

fun writes_rules :: "core_op \<Rightarrow> bool" where
  "writes_rules (OpRouting _) \<longleftrightarrow> True"
| "writes_rules _ \<longleftrightarrow> False"

definition handlers_agree :: "reader \<Rightarrow> core_op list \<Rightarrow> string \<Rightarrow> live_handler option \<Rightarrow> live_handler option \<Rightarrow> bool" where
  "handlers_agree read ops t x y \<longleftrightarrow> (\<exists>a \<in> set ops. rebuilds read t a)
     \<or> rel_option (\<lambda>h k. lh_base h = lh_base k \<and> (\<forall>e. lh_users h e = lh_users k e \<or> (\<exists>a \<in> set ops. writes_user t e a))) x y"

definition kept_outbounds :: "hot_env \<Rightarrow> core_op list \<Rightarrow> (string \<times> string) list \<Rightarrow> (string \<times> string) list" where
  "kept_outbounds env ops = filter (\<lambda>e. \<not> (\<exists>a \<in> set ops. writes_outbound env (fst e) a))"

definition serves_up_to :: "hot_env \<Rightarrow> reader \<Rightarrow> core_op list \<Rightarrow> live \<Rightarrow> live \<Rightarrow> bool" where
  "serves_up_to env read ops v w \<longleftrightarrow> (\<forall>t. handlers_agree read ops t (lv_inbounds v t) (lv_inbounds w t))
     \<and> kept_outbounds env ops (lv_outbounds v) = kept_outbounds env ops (lv_outbounds w)
     \<and> (lv_rules v = lv_rules w \<or> (\<exists>a \<in> set ops. writes_rules a)) \<and> lv_routing v = lv_routing w \<and> lv_static v = lv_static w"

lemma serves_up_to_refl: "serves_up_to env read ops v v"
  by (auto simp: serves_up_to_def handlers_agree_def intro: option.rel_refl)

fun live_at :: "reader \<Rightarrow> accounts \<Rightarrow> string \<Rightarrow> core_op \<Rightarrow> live_handler option \<Rightarrow> live_handler option" where
  "live_at read acc t (OpRemoveUser tag email) x = (if tag = t then map_option (set_account email None) x else x)"
| "live_at read acc t (OpDelInbound tag) x = (if tag = t then None else x)"
| "live_at read acc t (OpAddInbound raw) x = (case read raw of Some (tag, h) \<Rightarrow> if tag = t then Some (live_handler_of acc tag h) else x | None \<Rightarrow> x)"
| "live_at read acc t (OpAddUser tag email user) x = (if tag = t then map_option (set_account email (Some (acc tag user))) x else x)"
| "live_at read acc t _ x = x"

lemma live_step_inbounds: "lv_inbounds (live_step env read acc a v) t = live_at read acc t a (lv_inbounds v t)"
  by (cases a) (auto simp: live_user_def live_inbound_def del_outbound_def split: option.split list.split)

lemma live_step_frame: "lv_routing (live_step env read acc a v) = lv_routing v" "lv_static (live_step env read acc a v) = lv_static v"
  "lv_rules (live_step env read acc a v) = (case a of OpRouting raw \<Rightarrow> raw | _ \<Rightarrow> lv_rules v)"
  by (cases a; auto simp: live_user_def live_inbound_def del_outbound_def split: option.split list.split)+

lemma handlers_agree_step:
  assumes "handlers_agree read (a # ops) t x y"
  shows "handlers_agree read ops t (live_at read acc t a x) (live_at read acc t a y)"
proof (cases "(\<exists>b \<in> set ops. rebuilds read t b) \<or> rebuilds read t a")
  case True
  have "live_at read acc t a x = live_at read acc t a y" if "rebuilds read t a" using that by (cases a) (auto split: option.splits)
  then show ?thesis using True by (auto simp: handlers_agree_def intro: option.rel_refl)
next
  case False
  then have r: "rel_option (\<lambda>h k. lh_base h = lh_base k \<and> (\<forall>e. lh_users h e = lh_users k e \<or> (\<exists>b \<in> set (a # ops). writes_user t e b))) x y"
    using assms by (auto simp: handlers_agree_def)
  have na: "\<not> rebuilds read t a" using False by simp
  have "rel_option (\<lambda>h k. lh_base h = lh_base k \<and> (\<forall>e. lh_users h e = lh_users k e \<or> (\<exists>b \<in> set ops. writes_user t e b)))
      (live_at read acc t a x) (live_at read acc t a y)"
  proof (cases a)
    case (OpRemoveUser tag email)
    then show ?thesis using r by (cases x; cases y) (auto simp: set_account_def)
  next
    case (OpAddUser tag email user)
    then show ?thesis using r by (cases x; cases y) (auto simp: set_account_def)
  qed (use r na in \<open>auto split: option.splits\<close>)
  then show ?thesis by (simp add: handlers_agree_def)
qed

lemma handlers_agree_Nil: "handlers_agree read [] t x y \<longleftrightarrow> x = y"
proof -
  have "(\<lambda>h k. lh_base h = lh_base k \<and> (\<forall>e. lh_users h e = lh_users k e)) = ((=) :: live_handler \<Rightarrow> _)"
    by (auto simp: fun_eq_iff intro!: live_handler.equality)
  then show ?thesis by (simp add: handlers_agree_def option.rel_eq)
qed

lemma serves_up_to_step:
  assumes "serves_up_to env read (a # ops) v w"
  shows "serves_up_to env read ops (live_step env read acc a v) (live_step env read acc a w)"
proof -
  have "handlers_agree read ops t (lv_inbounds (live_step env read acc a v) t) (lv_inbounds (live_step env read acc a w) t)" for t
    using assms handlers_agree_step unfolding serves_up_to_def live_step_inbounds by blast
  moreover have "kept_outbounds env ops (lv_outbounds (live_step env read acc a v)) = kept_outbounds env ops (lv_outbounds (live_step env read acc a w))"
  proof -
    have k: "kept_outbounds env (a # ops) (lv_outbounds v) = kept_outbounds env (a # ops) (lv_outbounds w)"
      using assms by (simp add: serves_up_to_def)
    have split: "kept_outbounds env ops (filter (\<lambda>e. \<not> writes_outbound env (fst e) a) os) = kept_outbounds env (a # ops) os" for os
      by (auto simp: kept_outbounds_def intro: filter_cong)
    have same: "kept_outbounds env ops (lv_outbounds v) = kept_outbounds env ops (lv_outbounds w)" if "\<And>t. \<not> writes_outbound env t a"
      using k that by (simp add: kept_outbounds_def)
    show ?thesis
    proof (cases a)
      case (OpDelOutbound tag)
      then show ?thesis using k split [of "lv_outbounds v"] split [of "lv_outbounds w"] by (simp add: del_outbound_def eq_commute)
    next
      case (OpAddOutbound raw)
      consider tag nm where "read_outbound env raw = [(tag, nm)]" | "\<And>tag nm. read_outbound env raw \<noteq> [(tag, nm)]" by blast
      then show ?thesis
      proof cases
        case (1 tag nm)
        then have "kept_outbounds env ops (filter (\<lambda>e. fst e \<noteq> tag) os) = kept_outbounds env (a # ops) os" for os
          using split [of os] OpAddOutbound by (simp add: eq_commute)
        then show ?thesis using k OpAddOutbound 1 by (simp add: del_outbound_def) (simp add: kept_outbounds_def)
      next
        case 2
        then have "live_step env read acc a v = v" "live_step env read acc a w = w"
          using OpAddOutbound by (auto split: list.split)
        then show ?thesis using same 2 OpAddOutbound by auto
      qed
    qed (use same in \<open>auto simp: live_user_def live_inbound_def split: option.split\<close>)
  qed
  moreover have "lv_rules (live_step env read acc a v) = lv_rules (live_step env read acc a w) \<or> (\<exists>b \<in> set ops. writes_rules b)"
    using assms unfolding live_step_frame(3) serves_up_to_def by (cases a) auto
  ultimately show ?thesis using assms by (simp add: serves_up_to_def live_step_frame)
qed

lemma serves_up_to_run:
  "serves_up_to env read ops v w \<Longrightarrow> fold (live_step env read acc) ops v = fold (live_step env read acc) ops w"
proof (induction ops arbitrary: v w)
  case Nil
  then show ?case by (auto simp: serves_up_to_def handlers_agree_Nil kept_outbounds_def fun_eq_iff intro!: live.equality)
next
  case (Cons a ops)
  then show ?case using serves_up_to_step by simp
qed


lemma live_of_step:
  assumes "\<And>c. a \<noteq> ReplaceRelay c" "\<And>raw tag nm. a = OpAddOutbound raw \<Longrightarrow> read_outbound env raw = [(tag, nm)] \<Longrightarrow> tag \<notin> fst ` set (co_outbounds c)"
    "\<And>raw. a = OpAddOutbound raw \<Longrightarrow> length (read_outbound env raw) \<le> 1"
  shows "live_step env read acc a (live_of acc c) = live_of acc (core_step env read a c)"
proof (rule live.equality)
  have u: "set_account e (map_option (acc t) x) (live_handler_of acc t h) = live_handler_of acc t (set_user e x h)" for e x t h
    by (auto simp: set_account_def live_handler_of_def set_user_def fun_eq_iff intro!: live_handler.equality)
  show "lv_inbounds (live_step env read acc a (live_of acc c)) = lv_inbounds (live_of acc (core_step env read a c))"
  proof
    fix t
    show "lv_inbounds (live_step env read acc a (live_of acc c)) t = lv_inbounds (live_of acc (core_step env read a c)) t"
      unfolding live_step_inbounds using assms(1) u [where x = None and t = t] u [where x = "Some _" and t = t]
      by (cases a; cases "co_inbounds c t") (auto simp: live_of_def core_step_def split: option.split)
  qed
  show "lv_outbounds (live_step env read acc a (live_of acc c)) = lv_outbounds (live_of acc (core_step env read a c))"
  proof (cases a)
    case (OpAddOutbound raw)
    consider "read_outbound env raw = []" | tag nm where "read_outbound env raw = [(tag, nm)]"
      using assms(3) [OF OpAddOutbound] by (cases "read_outbound env raw") auto
    then show ?thesis
    proof cases
      case (2 tag nm)
      then have "\<not> has_outbound tag (live_of acc c)" using assms(2) [OF OpAddOutbound 2] by (simp add: has_outbound_def live_of_def)
      then show ?thesis using OpAddOutbound 2 del_outbound_absent by (simp add: live_of_def core_step_def)
    qed (simp add: OpAddOutbound live_of_def core_step_def)
  qed (auto simp: live_of_def core_step_def live_user_def live_inbound_def del_outbound_def split: option.split)
qed (simp_all add: live_of_def core_step_def live_step_frame split: core_op.split)

lemma live_of_run:
  assumes "\<And>a. a \<in> set as \<Longrightarrow> (\<forall>c. a \<noteq> ReplaceRelay c) \<and> (\<forall>raw. a \<noteq> OpAddOutbound raw)"
  shows "fold (live_step env read acc) as (live_of acc c) = live_of acc (core_run env read as c)"
  using assms unfolding core_run_def
proof (induction as arbitrary: c)
  case (Cons a as)
  then show ?case using live_of_step [of a env c read acc] by simp
qed simp

lemma read_outbound_one: "length (read_outbound env raw) \<le> Suc 0"
  by (auto simp: read_outbound_def split: option.split)

lemma live_of_adds:
  assumes "distinct (map fst (co_outbounds c @ concat (map (read_outbound env) raws)))"
  shows "fold (live_step env read acc) (map OpAddOutbound raws) (live_of acc c) = live_of acc (core_run env read (map OpAddOutbound raws) c)"
  using assms unfolding core_run_def
proof (induction raws arbitrary: c)
  case (Cons raw raws)
  have s: "live_step env read acc (OpAddOutbound raw) (live_of acc c) = live_of acc (core_step env read (OpAddOutbound raw) c)"
    using Cons.prems read_outbound_one [of env raw] by (intro live_of_step) auto
  have "co_outbounds (core_step env read (OpAddOutbound raw) c) = co_outbounds c @ read_outbound env raw" by (simp add: core_step_def)
  then have IH: "fold (live_step env read acc) (map OpAddOutbound raws) (live_of acc (core_step env read (OpAddOutbound raw) c))
      = live_of acc (fold (core_step env read) (map OpAddOutbound raws) (core_step env read (OpAddOutbound raw) c))"
    using Cons.prems by (intro Cons.IH) simp
  show ?case unfolding list.map fold_Cons comp_apply s by (rule IH)
qed simp

lemma live_of_hot_ops:
  assumes "hd_TuicRelayChanges d = []" "distinct (map fst (co_outbounds (core_run env read (hot_ops d) c)))"
  shows "fold (live_step env read acc) (hot_ops d) (live_of acc c) = live_of acc (core_run env read (hot_ops d) c)"
proof -
  define pre where "pre = map (\<lambda>u. OpRemoveUser (uo_Tag u) (uo_Email u)) (hd_RemovedUsers d) @ map OpDelInbound (hd_RemovedInboundTags d)
    @ map OpDelOutbound (hd_RemovedOutboundTags d)"
  define post where "post = map OpAddInbound (hd_AddedInbounds d) @ map add_user_op (hd_AddedUsers d)
    @ (case hd_RoutingConfig d of None \<Rightarrow> [] | Some raw \<Rightarrow> [OpRouting raw])"
  have ops: "hot_ops d = pre @ map OpAddOutbound (hd_AddedOutbounds d) @ post"
    using assms(1) by (simp add: hot_ops_def pre_def post_def)
  have run: "core_run env read (as @ bs) c = core_run env read bs (core_run env read as c)" for as bs c by (simp add: core_run_def)
  have out: "co_outbounds (core_run env read (hot_ops d) c) = co_outbounds (core_run env read pre c) @ concat (map (read_outbound env) (hd_AddedOutbounds d))"
  proof -
    have "fold (op_outbounds env) post os = os" for os
      unfolding post_def fold_append comp_def fold_outbounds_other by (simp split: option.split)
    then show ?thesis by (simp add: ops core_run_outbounds fold_add_outbounds)
  qed
  have "fold (live_step env read acc) pre (live_of acc c) = live_of acc (core_run env read pre c)"
    by (intro live_of_run) (auto simp: pre_def)
  moreover have "fold (live_step env read acc) (map OpAddOutbound (hd_AddedOutbounds d)) (live_of acc (core_run env read pre c))
      = live_of acc (core_run env read (map OpAddOutbound (hd_AddedOutbounds d)) (core_run env read pre c))"
    using assms(2) out by (intro live_of_adds) simp
  moreover have "fold (live_step env read acc) post (live_of acc c') = live_of acc (core_run env read post c')" for c'
    by (intro live_of_run) (auto simp: post_def add_user_op_def split: option.splits)
  ultimately show ?thesis by (simp add: ops run)
qed


subsection \<open>Applying a diff\<close>

lemma index_clients_named:
  "index_clients cs acc = Some cls \<Longrightarrow> (\<And>e c. (e, c) \<in> set acc \<Longrightarrow> map_of (ce_user c) ''email'' = Some (JStr e)) \<Longrightarrow>
   (e, c) \<in> set cls \<Longrightarrow> map_of (ce_user c) ''email'' = Some (JStr e)"
proof (induction cs acc rule: index_clients.induct)
  case (2 c' cs acc)
  then obtain obj where c: "c' = JObj obj" by (auto split: json.splits)
  let ?e = "str_field obj ''email''" and ?c = "\<lparr>ce_user = obj, ce_norm = marshal (JObj obj)\<rparr>"
  have new: "?e \<noteq> []" "index_clients cs (acc @ [(?e, ?c)]) = Some cls"
    using "2.prems"(1) c by (auto simp: Let_def split: if_splits)
  have n: "map_of obj ''email'' = Some (JStr ?e)" using new(1) by (auto simp: str_field_def split: option.splits json.splits)
  have old: "map_of acc ?e = None" using "2.prems"(1) c by (auto simp: Let_def split: if_splits)
  show ?case
  proof (rule "2.IH" [OF c refl])
    show "?e \<noteq> []" by (rule new(1))
    show "\<not> map_of acc ?e \<noteq> None" using old by simp
    show "index_clients cs (acc @ [(?e, ?c)]) = Some cls" by (rule new(2))
    show "map_of (ce_user c) ''email'' = Some (JStr e)" if "(e, c) \<in> set (acc @ [(?e, ?c)])" for e c
      using that n "2.prems"(2) by auto
    show "(e, c) \<in> set cls" by (rule "2.prems"(3))
  qed
qed auto

lemma split_clients_named:
  "splitSettingsClients env raw = Some (cls, rest) \<Longrightarrow> map_of cls e = Some c \<Longrightarrow> map_of (ce_user c) ''email'' = Some (JStr e)"
proof -
  assume sp: "splitSettingsClients env raw = Some (cls, rest)" and e: "map_of cls e = Some c"
  obtain cs where "index_clients cs [] = Some cls"
    using sp by (auto simp: splitSettingsClients_def split: if_splits option.splits json.splits)
  from index_clients_named [OF this _ map_of_SomeD [OF e]] show ?thesis by simp
qed

definition all_named :: "HotDiff \<Rightarrow> bool" where
  "all_named d \<longleftrightarrow> (\<forall>u \<in> set (hd_AddedUsers d). named_user u)"

lemma users_diff_named:
  assumes "decoder_ok env" "diffInboundUsers env a b d = Some d'" "all_named d"
  shows "all_named d'"
proof -
  obtain old oldRest new newRest cipher where sp: "splitSettingsClients env (ic_Settings a) = Some (old, oldRest)"
    "splitSettingsClients env (ic_Settings b) = Some (new, newRest)"
    and d': "hd_AddedUsers d' = hd_AddedUsers d @ readded_users a cipher old new"
    using assms(2) by (auto simp: diffInboundUsers_def Let_def split: if_split_asm option.splits)
  have named: "named_user (user_op a e (Some (userWithCipher (ce_user c) cipher)))" if "map_of new e = Some c" for e c
    using split_clients_named [OF sp(2) that] by (simp add: named_user_def user_op_def userWithCipher_def)
  note wf = split_clients_ok(1) [OF assms(1) sp(2)]
  have "named_user u" if "u \<in> set (readded_users a cipher old new)" for u
    using that named map_of_wf [OF wf] unfolding readded_iff by blast
  then show ?thesis using assms(3) d' by (auto simp: all_named_def)
qed

lemma named_frame: "hd_AddedUsers d' = hd_AddedUsers d \<Longrightarrow> all_named d' = all_named d"
  by (simp add: all_named_def)

lemma changed_named:
  assumes "decoder_ok env" "changed_inbound env a b d = Some d'" "all_named d"
  shows "all_named d'"
proof -
  define d0 where "d0 = (if ic_TuicRelay a then d else d\<lparr>hd_DroppedClients := hd_DroppedClients d @ droppedClients env a b\<rparr>)"
  have d0: "all_named d0" using assms(3) by (simp add: d0_def all_named_def)
  have "diffInboundUsers env a b d0 = Some d' \<or> hd_AddedUsers d' = hd_AddedUsers d0"
    using assms(2) unfolding changed_inbound_def Let_def d0_def [symmetric] by (auto split: if_split_asm option.splits)
  then show ?thesis using users_diff_named [OF assms(1) _ d0] d0 named_frame by blast
qed

lemma added_users_named:
  assumes "decoder_ok env" "diffInbounds env old new no_diff = Some d"
  shows "all_named d"
proof -
  obtain d1 where "wf_map (by_tag (cf_InboundConfigs old))" "wf_map (by_tag (cf_InboundConfigs new))"
    and e: "each_step (old_inbound env (apiTagFromConfig env (cf_API new)) (by_tag (cf_InboundConfigs new))) (cf_InboundConfigs old) no_diff = Some d1"
    "each_step (new_inbound env (apiTagFromConfig env (cf_API new)) (by_tag (cf_InboundConfigs old))) (cf_InboundConfigs new) d1 = Some d"
    by (rule diffInbounds_parts [OF assms(2)])
  have olds: "old_inbound env api m ib a = Some b \<Longrightarrow> all_named a \<Longrightarrow> all_named b" for api m ib a b
  proof -
    assume h: "old_inbound env api m ib a = Some b" "all_named a"
    have "hd_AddedUsers b = hd_AddedUsers a \<or> (\<exists>n. changed_inbound env ib n a = Some b)"
      using h(1) unfolding old_inbound_def Let_def
      by (cases "map_of m (ic_Tag ib)") (auto simp: relay_change_def split: if_split_asm)
    then show "all_named b" using h(2) named_frame changed_named [OF assms(1)] by blast
  qed
  have news: "new_inbound env api m ib a = Some b \<Longrightarrow> hd_AddedUsers b = hd_AddedUsers a" for api m ib a b
    unfolding new_inbound_def by (auto simp: relay_change_def split: if_split_asm option.splits)
  have "all_named no_diff" by (simp add: all_named_def no_diff_def)
  then have "all_named d1" using each_step_inv [OF e(1), of all_named] olds by blast
  then show ?thesis using each_step_inv [OF e(2), of all_named] news named_frame by blast
qed



subsection \<open>A core that keeps the laws\<close>

definition model_rpc :: "hot_env \<Rightarrow> reader \<Rightarrow> accounts \<Rightarrow> (string, string, string, live) core_rpc" where
  "model_rpc env read acc = \<lparr>
     rc_load_inbound = (\<lambda>raw. case read raw of None \<Rightarrow> Inl ''unreadable''
       | Some (tag, _) \<Rightarrow> if meta_tag env raw = Some tag then Inr raw else Inl ''unreadable''),
     rc_load_outbound = (\<lambda>raw. case read_outbound env raw of [(tag, _)] \<Rightarrow> if meta_tag env raw = Some tag then Inr raw else Inl ''unreadable''
       | _ \<Rightarrow> Inl ''unreadable''),
     rc_load_routing = Inr,
     rc_AddInbound = (\<lambda>raw st. case read raw of None \<Rightarrow> (Some ''unreadable'', st)
       | Some (tag, h) \<Rightarrow> if lv_inbounds st tag \<noteq> None then (Some ''existing tag found'', st)
           else (None, live_inbound tag (Some (live_handler_of acc tag h)) st)),
     rc_RemoveInbound = (\<lambda>tag st. if lv_inbounds st tag = None then (Some ''handler not found'', st) else (None, live_inbound tag None st)),
     rc_AddOutbound = (\<lambda>raw st. case read_outbound env raw of [(tag, nm)] \<Rightarrow>
         if has_outbound tag st then (Some ''existing tag found'', st) else (None, st\<lparr>lv_outbounds := lv_outbounds st @ [(tag, nm)]\<rparr>)
       | _ \<Rightarrow> (Some ''unreadable'', st)),
     rc_RemoveOutbound = (\<lambda>tag st. if has_outbound tag st then (None, del_outbound tag st) else (Some ''not found'', st)),
     rc_AddUser = (\<lambda>tag email a st. if lv_inbounds st tag = None then (Some ''failed to get handler'', st)
       else if has_user tag email st \<and> \<not> is_legacy_shadowsocks a then (Some ''User already exists'', st)
       else (None, live_user tag email (Some a) st)),
     rc_RemoveUser = (\<lambda>tag email st. if has_user tag email st then (None, live_user tag email None st) else (Some ''User not found'', st)),
     rc_AddRule = (\<lambda>rt st. (None, st\<lparr>lv_rules := rt\<rparr>))\<rparr>"

lemma unreadable_err: "\<not> IsExistingTagErr (Some ''unreadable'')"
  by code_simp

lemma no_err [simp]: "\<not> IsExistingTagErr None" "\<not> IsMissingHandlerErr None" "\<not> IsUserExistsErr None"
  by (simp_all add: IsExistingTagErr_def IsMissingHandlerErr_def IsUserExistsErr_def)

lemma model_core_laws: "core_laws env read acc (model_rpc env read acc) id"
proof -
  let ?rpc = "model_rpc env read acc"
  have "add_inbound_law env read acc ?rpc id"
    using unreadable_err by (auto simp: add_inbound_law_def model_rpc_def split: option.splits if_splits)
  moreover have "remove_inbound_law ?rpc id" by (auto simp: remove_inbound_law_def model_rpc_def split: if_splits)
  moreover have "add_outbound_law env ?rpc id"
    using unreadable_err by (auto simp: add_outbound_law_def model_rpc_def split: list.splits if_splits)
  moreover have "remove_outbound_law ?rpc id" by (auto simp: remove_outbound_law_def model_rpc_def split: if_splits)
  moreover have "add_user_law ?rpc id" by (auto simp: add_user_law_def model_rpc_def split: if_splits)
  moreover have "remove_user_law ?rpc id" by (auto simp: remove_user_law_def model_rpc_def split: if_splits)
  moreover have "add_rule_law ?rpc id" by (auto simp: add_rule_law_def model_rpc_def)
  ultimately show ?thesis by (simp add: core_laws_def)
qed

definition demo_fmt :: go_fmt where
  "demo_fmt = \<lparr>gf_quote = (\<lambda>s. s), gf_float = (\<lambda>_. []), gf_uint32 = (\<lambda>_. 0)\<rparr>"

definition demo_acc :: accounts where
  "demo_acc tag user = (case buildUserAccount demo_fmt ''vless'' (any_user user) of Inr (Some a) \<Rightarrow> a | _ \<Rightarrow> VMess [])"

definition small_texts :: "json list" where
  "small_texts = [demo_settings [demo_client ''ann'' ''1''], demo_settings [demo_client ''ann'' ''1'', demo_client ''eve'' ''4''], JObj []]"

text \<open>Any other text is that of the added inbound.\<close>

definition demo_env :: hot_env where
  "demo_env = \<lparr>he_decode = map_of (map (\<lambda>v. (marshal v, v)) small_texts),
     he_parse = (\<lambda>raw. case map_of (map (\<lambda>v. (marshal v, v)) small_texts) raw of Some v \<Rightarrow> Some v | None \<Rightarrow> Some (JObj [(''tag'', JStr ''c'')])),
     he_elements = (\<lambda>_. Some []), he_compact = Some\<rparr>"

definition small_ib :: "string \<Rightarrow> string \<Rightarrow> nat \<Rightarrow> InboundConfig" where
  "small_ib tag protocol n = \<lparr>ic_TuicRelay = False, ic_TuicInboundID = 0, ic_Listen = [], ic_Port = 443, ic_Protocol = protocol,
     ic_Settings = marshal (small_texts ! n), ic_StreamSettings = [], ic_Tag = tag, ic_Sniffing = []\<rparr>"

definition small_old :: Config where "small_old = demo_cfg [small_ib ''a'' ''vless'' 0]"
definition small_new :: Config where "small_new = demo_cfg [small_ib ''a'' ''vless'' 1, small_ib ''c'' ''http'' 2]"

definition demo_reader :: reader where
  "demo_reader = reader_of demo_env (cf_InboundConfigs small_new)"

text \<open>The core already has the new inbound, in a stale form, and the new user with another account.\<close>

definition demo_drifted :: live where
  "demo_drifted = live_inbound ''c'' (Some (live_handler_of demo_acc ''c'' (handler_of demo_env (small_ib ''c'' ''mixed'' 2))))
     (live_user ''a'' ''eve'' (Some (VMess ''old'')) (live_of demo_acc (core_of demo_env small_old)))"

definition demo_connected :: XrayAPI where
  "demo_connected = snd (api_Init 62789 None disconnected)"

lemma demo_env_ok: "decoder_ok demo_env" "reads_inbounds demo_env demo_reader (cf_InboundConfigs small_new)"
proof -
  have "list_all json_ok small_texts" by code_simp
  then have "json_ok v" if "(raw, v) \<in> set (map (\<lambda>v. (marshal v, v)) small_texts)" for raw v
    using that by (auto simp: list_all_iff)
  then show "decoder_ok demo_env" by (auto simp: decoder_ok_def demo_env_def dest: map_of_SomeD)
  show "reads_inbounds demo_env demo_reader (cf_InboundConfigs small_new)"
    unfolding demo_reader_def by (rule reader_of_reads) code_simp
qed

definition users_agree :: "go_fmt \<Rightarrow> accounts \<Rightarrow> UserOp \<Rightarrow> bool" where
  "users_agree f acc u \<longleftrightarrow> (case uo_User u of None \<Rightarrow> True
     | Some user \<Rightarrow> buildUserAccount f (uo_Protocol u) (any_user user) = Inr (Some (acc (uo_Tag u) user)))"


end
